(* ===== verification/Prelude.thy ===== *)
theory Prelude
  imports Main "HOL-Library.Word"
begin

text \<open>
  What every component shares.  Machine integers are words of the width the C++ type has;
  a function that can fail returns a sum (\<^term>\<open>Inl\<close> the error), and the pattern
  "compute, test the return code, return early" is \<open>bindE\<close>.  The second half is the byte
  library: how a word is cut into bytes by shifts and masks, and how it is put together
  again by shifts and ors, for any width and for both byte orders.
\<close>

unbundle bit_operations_syntax

type_synonym byte = "8 word"
type_synonym u16 = "16 word"
type_synonym u32 = "32 word"
type_synonym u64 = "64 word"
type_synonym bytes = "byte list"

named_theorems byte_simps \<open>rewrite rules for cutting words into bytes and joining them\<close>
named_theorems emit_intros \<open>rules that compute what a serializer appends\<close>
named_theorems inv_intros \<open>preservation rules of the component invariants\<close>


subsection \<open>Early return\<close>

definition bindE :: "'e + 'a \<Rightarrow> ('a \<Rightarrow> 'e + 'b) \<Rightarrow> 'e + 'b" where
  "bindE m f = (case m of Inl e \<Rightarrow> Inl e | Inr x \<Rightarrow> f x)"

text \<open>\<open>map_err\<close>: a caller that replaces the callee's return code by its own.\<close>

definition map_err :: "('e \<Rightarrow> 'f) \<Rightarrow> 'e + 'a \<Rightarrow> 'f + 'a" where
  "map_err h m = (case m of Inl e \<Rightarrow> Inl (h e) | Inr x \<Rightarrow> Inr x)"

lemma bindE_simps [simp]:
  "bindE (Inl e) f = Inl e"
  "bindE (Inr x) f = f x"
  by (simp_all add: bindE_def)

lemma map_err_simps [simp]:
  "map_err h (Inl e) = Inl (h e)"
  "map_err h (Inr x) = Inr x"
  by (simp_all add: map_err_def)

lemma bindE_cong [fundef_cong]:
  "m = m' \<Longrightarrow> (\<And>x. m' = Inr x \<Longrightarrow> f x = f' x) \<Longrightarrow> bindE m f = bindE m' f'"
  by (cases m') simp_all

lemma bindE_eq_Inr: "bindE m f = Inr y \<longleftrightarrow> (\<exists>x. m = Inr x \<and> f x = Inr y)"
  by (cases m) auto

lemma bindE_eq_Inl: "bindE m f = Inl e \<longleftrightarrow> m = Inl e \<or> (\<exists>x. m = Inr x \<and> f x = Inl e)"
  by (cases m) auto

lemma bindE_assoc: "bindE (bindE m f) g = bindE m (\<lambda>x. bindE (f x) g)"
  by (cases m) simp_all

lemma map_err_eq_Inr [simp]: "map_err h m = Inr x \<longleftrightarrow> m = Inr x"
  by (cases m) simp_all

lemma map_err_eq_Inl: "map_err h m = Inl e \<longleftrightarrow> (\<exists>e'. m = Inl e' \<and> e = h e')"
  by (cases m) auto

lemmas bindE_elims = bindE_eq_Inr [THEN iffD1, elim_format]


subsection \<open>Sizes\<close>

text \<open>
  \<^verbatim>\<open>size_t\<close> is modelled by \<^typ>\<open>nat\<close>; a subtraction whose operands the code has not
  compared first wraps around at 64 bits.
\<close>

definition sz_sub :: "nat \<Rightarrow> nat \<Rightarrow> nat" where
  "sz_sub a b = (if b \<le> a then a - b else a + 2 ^ 64 - b)"

lemma sz_sub_le [simp]: "b \<le> a \<Longrightarrow> sz_sub a b = a - b"
  by (simp add: sz_sub_def)

lemma sz_sub_wrap: "a < b \<Longrightarrow> b \<le> a + 2 ^ 63 \<Longrightarrow> 2 ^ 63 \<le> sz_sub a b"
  by (simp add: sz_sub_def)


subsection \<open>Lists\<close>

lemma take_append_exact [simp]: "n = length xs \<Longrightarrow> take n (xs @ ys) = xs"
  by simp

lemma drop_append_exact [simp]: "n = length xs \<Longrightarrow> drop n (xs @ ys) = ys"
  by simp

lemma nth_append_here [simp]: "i = length xs \<Longrightarrow> (xs @ y # ys) ! i = y"
  by simp


subsection \<open>Masks\<close>

lemma mask_FF [byte_simps]: "(0xFF :: 'a::len word) = mask 8"
  by (simp add: mask_eq_exp_minus_1)

lemma mask_7F [byte_simps]: "(0x7F :: 'a::len word) = mask 7"
  by (simp add: mask_eq_exp_minus_1)

lemma mask_3F [byte_simps]: "(0x3F :: 'a::len word) = mask 6"
  by (simp add: mask_eq_exp_minus_1)

lemma mask_0F [byte_simps]: "(0x0F :: 'a::len word) = mask 4"
  by (simp add: mask_eq_exp_minus_1)

lemma mask_1F [byte_simps]: "(0x1F :: 'a::len word) = mask 5"
  by (simp add: mask_eq_exp_minus_1)

lemma mask_07 [byte_simps]: "(0x07 :: 'a::len word) = mask 3"
  by (simp add: mask_eq_exp_minus_1)

lemma byte_bit_ge [simp]: "8 \<le> n \<Longrightarrow> \<not> bit (b :: byte) n"
  using bit_imp_le_length [of b n] by auto


subsection \<open>Cutting a word into bytes\<close>

text \<open>
  \<open>byte_at i w\<close> is the C++ expression \<^verbatim>\<open>(w >> (8 * i)) & 0xFF\<close> narrowed to
  \<^verbatim>\<open>uint8_t\<close>.
\<close>

definition byte_at :: "nat \<Rightarrow> 'a::len word \<Rightarrow> byte" where
  "byte_at i w = ucast (drop_bit (8 * i) w AND 0xFF)"

lemma bit_byte_at [byte_simps]: "bit (byte_at i w) k \<longleftrightarrow> k < 8 \<and> bit w (8 * i + k)"
  unfolding byte_at_def mask_FF
  by (auto simp: bit_simps dest: bit_imp_le_length)

definition be_bytes :: "nat \<Rightarrow> 'a::len word \<Rightarrow> bytes" where
  "be_bytes n w = map (\<lambda>i. byte_at (n - 1 - i) w) [0..<n]"

definition le_bytes :: "nat \<Rightarrow> 'a::len word \<Rightarrow> bytes" where
  "le_bytes n w = map (\<lambda>i. byte_at i w) [0..<n]"

lemma length_be_bytes [simp]: "length (be_bytes n w) = n"
  by (simp add: be_bytes_def)

lemma length_le_bytes [simp]: "length (le_bytes n w) = n"
  by (simp add: le_bytes_def)

lemma be_bytes_rev: "be_bytes n w = rev (le_bytes n w)"
  by (rule nth_equalityI) (simp_all add: be_bytes_def le_bytes_def rev_nth)


subsection \<open>Joining bytes to a word\<close>

text \<open>
  \<open>be_word\<close> is the loop \<^verbatim>\<open>v = (v << 8) | b\<close>, first byte most significant;
  \<open>le_word\<close> is \<^verbatim>\<open>v |= b << (8 * i)\<close>, first byte least significant.
\<close>

definition be_word :: "bytes \<Rightarrow> 'a::len word" where
  "be_word bs = foldl (\<lambda>v b. push_bit 8 v OR ucast b) 0 bs"

primrec le_word :: "bytes \<Rightarrow> 'a::len word" where
  "le_word [] = 0"
| "le_word (b # bs) = ucast b OR push_bit 8 (le_word bs)"

lemma be_word_snoc: "be_word (bs @ [b]) = push_bit 8 (be_word bs) OR ucast b"
  by (simp add: be_word_def)

lemma be_word_rev: "be_word (rev bs) = le_word bs"
  by (induction bs) (simp_all add: be_word_snoc or.commute, simp add: be_word_def)

lemma bit_le_word:
  "bit (le_word bs :: 'a::len word) n \<longleftrightarrow>
     n < LENGTH('a) \<and> n div 8 < length bs \<and> bit (bs ! (n div 8)) (n mod 8)"
proof (induction bs arbitrary: n)
  case Nil
  show ?case by simp
next
  case (Cons b bs)
  show ?case
  proof (cases "n < 8")
    case True
    then show ?thesis by (auto simp: bit_simps)
  next
    case False
    then have "n div 8 = Suc ((n - 8) div 8)" and "n mod 8 = (n - 8) mod 8"
      by (simp_all add: le_div_geq le_mod_geq)
    with False show ?thesis
      by (auto simp: bit_simps Cons.IH)
  qed
qed

lemma le_word_le_bytes: "le_word (le_bytes n w) = take_bit (8 * n) w"
proof (rule bit_word_eqI)
  fix k
  assume "k < LENGTH('a)"
  then show "bit (le_word (le_bytes n w) :: 'a word) k = bit (take_bit (8 * n) w) k"
    by (auto simp: bit_le_word le_bytes_def bit_byte_at bit_take_bit_iff
        less_mult_imp_div_less div_less_iff_less_mult mult.commute)
qed

lemma le_word_bytes [simp]: "LENGTH('a::len) \<le> 8 * n \<Longrightarrow> le_word (le_bytes n w) = (w :: 'a word)"
  by (simp add: le_word_le_bytes take_bit_word_eq_self)

lemma be_word_bytes [simp]: "LENGTH('a::len) \<le> 8 * n \<Longrightarrow> be_word (be_bytes n w) = (w :: 'a word)"
  by (simp add: be_bytes_rev be_word_rev)

lemma le_bytes_le_word:
  assumes "length bs = n" "8 * n \<le> LENGTH('a)"
  shows "le_bytes n (le_word bs :: 'a::len word) = bs"
proof (rule nth_equalityI)
  show "length (le_bytes n (le_word bs :: 'a word)) = length bs" using assms by simp
  fix i
  assume "i < length (le_bytes n (le_word bs :: 'a word))"
  then have i: "i < n" by simp
  have "bit (byte_at i (le_word bs :: 'a word)) k = bit (bs ! i) k" if "k < 8" for k
  proof -
    have "8 * i + k < LENGTH('a)" "(8 * i + k) div 8 = i" "(8 * i + k) mod 8 = k"
      using i that assms by simp_all
    with that i assms show ?thesis by (simp add: bit_byte_at bit_le_word)
  qed
  then have "byte_at i (le_word bs :: 'a word) = bs ! i" by (intro bit_word_eqI) simp
  with i show "le_bytes n (le_word bs :: 'a word) ! i = bs ! i" by (simp add: le_bytes_def)
qed

lemma be_bytes_be_word:
  "length bs = n \<Longrightarrow> 8 * n \<le> LENGTH('a) \<Longrightarrow> be_bytes n (be_word bs :: 'a::len word) = bs"
  using le_bytes_le_word [of "rev bs" n, where ?'a = 'a] be_word_rev [of "rev bs", where ?'a = 'a]
  by (simp add: be_bytes_rev)

end
