(* ===== verification/Mqtt_Base.thy ===== *)
theory Mqtt_Base
  imports Prelude
begin

text \<open>
  The return codes of \<^verbatim>\<open>src/common/mqtt_define.h\<close> that the modelled code produces, and
  reads from memory.  The last three constructors are not return codes of the program: they
  stand for behaviour the language leaves undefined, a read outside the buffer the caller
  passed, a use of a field that was never written, and a write through a null pointer.  A
  theorem that a function never returns them is a memory-safety theorem.
\<close>

datatype mq_err =
    MQ_ERR_MEMORY_ALLOC
  | MQ_ERR_PROTOCOL
  | MQ_ERR_PACKET_TOO_LARGE
  | MQ_ERR_PACKET_INVALID
  | MQ_ERR_PACKET_INCOMPLETE
  | MQ_ERR_PACKET_TYPE
  | MQ_ERR_CONNECT_PROTOCOL
  | MQ_ERR_CONNECT_CLIENT_ID
  | MQ_ERR_PUBLISH_TOPIC
  | MQ_ERR_SUBSCRIBE_TOPIC
  | MQ_ERR_INVALID_ARGS
  | MQ_ERR_INTERNAL
  | MQ_ERR_PARAM_V2
  | MQ_ERR_NOT_FOUND_V2
  | MQ_ERR_TOPIC_TREE
  | MQ_ERR_TOPIC_TREE_INVALID_TOPIC
  | MQ_ERR_TOPIC_TREE_INVALID_CLIENT
  | MQ_ERR_TOPIC_TREE_MEMORY_ALLOC
  | MQ_ERR_TOPIC_TREE_SUBSCRIBER_NOT_FOUND
  | MQ_ERR_TOPIC_TREE_CONCURRENT
  | UB_OUT_OF_BOUNDS
  | UB_UNINITIALISED
  | UB_NULL_DEREFERENCE

definition is_ub :: "mq_err \<Rightarrow> bool" where
  "is_ub e \<longleftrightarrow> e = UB_OUT_OF_BOUNDS \<or> e = UB_UNINITIALISED \<or> e = UB_NULL_DEREFERENCE"

type_synonym 'a result = "mq_err + 'a"

text \<open>A caller that returns its own code for every failure of a callee.\<close>

definition as_err :: "mq_err \<Rightarrow> 'a result \<Rightarrow> 'a result" where
  "as_err code = map_err (\<lambda>e. if is_ub e then e else code)"

definition no_ub :: "'a result \<Rightarrow> bool" where
  "no_ub r \<longleftrightarrow> (case r of Inl e \<Rightarrow> \<not> is_ub e | Inr _ \<Rightarrow> True)"

text \<open>
  A pointer into a buffer is the list of bytes from that address to the end of the buffer;
  \<open>rd mem i\<close> is \<^verbatim>\<open>p[i]\<close>, \<open>rd_range mem i n\<close> the copy of \<open>n\<close> bytes starting at
  \<^verbatim>\<open>p + i\<close>.
\<close>

definition rd :: "bytes \<Rightarrow> nat \<Rightarrow> byte result" where
  "rd mem i = (if i < length mem then Inr (mem ! i) else Inl UB_OUT_OF_BOUNDS)"

definition rd_range :: "bytes \<Rightarrow> nat \<Rightarrow> nat \<Rightarrow> bytes result" where
  "rd_range mem i n =
     (if n = 0 then Inr [] else if i + n \<le> length mem then Inr (take n (drop i mem))
      else Inl UB_OUT_OF_BOUNDS)"

text \<open>The big-endian reads the parsers inline: \<^verbatim>\<open>(p[i] << 8) | p[i + 1]\<close> and the like.\<close>

definition rd16 :: "bytes \<Rightarrow> nat \<Rightarrow> u16 result" where
  "rd16 mem i = bindE (rd mem i) (\<lambda>a. bindE (rd mem (i + 1)) (\<lambda>b.
     Inr (push_bit 8 (ucast a) OR ucast b)))"

definition rd32 :: "bytes \<Rightarrow> nat \<Rightarrow> u32 result" where
  "rd32 mem i = bindE (rd mem i) (\<lambda>a. bindE (rd mem (i + 1)) (\<lambda>b.
     bindE (rd mem (i + 2)) (\<lambda>c. bindE (rd mem (i + 3)) (\<lambda>d.
     Inr (push_bit 24 (ucast a) OR push_bit 16 (ucast b) OR push_bit 8 (ucast c) OR ucast d)))))"

lemma as_err_Inr [simp]: "as_err code (Inr x) = Inr x"
  by (simp add: as_err_def)

lemma as_err_eq_Inr [simp]: "as_err code m = Inr x \<longleftrightarrow> m = Inr x"
  by (simp add: as_err_def)

lemma rd_in [simp]: "i < length mem \<Longrightarrow> rd mem i = Inr (mem ! i)"
  by (simp add: rd_def)

lemma rd_append [simp]:
  "i = length xs \<Longrightarrow> rd (xs @ b # ys) i = Inr b"
  by (simp add: rd_def)

lemma rd_eq_Inr: "rd mem i = Inr b \<longleftrightarrow> i < length mem \<and> b = mem ! i"
  by (auto simp: rd_def)

lemma rd_eq_Inl: "rd mem i = Inl e \<longleftrightarrow> length mem \<le> i \<and> e = UB_OUT_OF_BOUNDS"
  by (auto simp: rd_def)

lemma rd_range_in [simp]: "i + n \<le> length mem \<Longrightarrow> rd_range mem i n = Inr (take n (drop i mem))"
  by (simp add: rd_range_def)

lemma rd16_in: "i + 1 < length mem \<Longrightarrow> rd16 mem i = Inr (be_word [mem ! i, mem ! (i + 1)])"
  by (simp add: rd16_def be_word_def)

lemma rd32_in:
  "i + 3 < length mem \<Longrightarrow>
     rd32 mem i = Inr (be_word [mem ! i, mem ! (i + 1), mem ! (i + 2), mem ! (i + 3)])"
  by (simp add: rd32_def be_word_def push_bit_or or.assoc)

lemma rd16_eq_Inr: "rd16 mem i = Inr w \<Longrightarrow> i + 1 < length mem"
  by (auto simp: rd16_def bindE_eq_Inr rd_eq_Inr)

lemma rd32_eq_Inr: "rd32 mem i = Inr w \<Longrightarrow> i + 3 < length mem"
  by (auto simp: rd32_def bindE_eq_Inr rd_eq_Inr)

text \<open>What a big-endian write of a word leaves in the buffer is what the read returns.\<close>

lemma be_bytes_2: "be_bytes 2 w = [byte_at 1 w, byte_at 0 w]"
  by (simp add: be_bytes_def upt_rec)

lemma be_bytes_4: "be_bytes 4 w = [byte_at 3 w, byte_at 2 w, byte_at 1 w, byte_at 0 w]"
  by (simp add: be_bytes_def upt_rec)

lemma rd16_be_bytes [simp]:
  "i = length xs \<Longrightarrow> rd16 (xs @ be_bytes 2 w @ ys) i = Inr w"
  using be_word_bytes [of 2 w] by (simp add: rd16_in nth_append be_bytes_2)

lemma rd32_be_bytes [simp]:
  "i = length xs \<Longrightarrow> rd32 (xs @ be_bytes 4 w @ ys) i = Inr w"
  using be_word_bytes [of 4 w] by (simp add: rd32_in nth_append be_bytes_4)

lemma rd_range_append [simp]:
  "i = length xs \<Longrightarrow> n = length ys \<Longrightarrow> rd_range (xs @ ys @ zs) i n = Inr ys"
  by (simp add: rd_range_def)

lemma no_ub_Inr [simp]: "no_ub (Inr x)"
  by (simp add: no_ub_def)

lemma no_ub_Inl [simp]: "no_ub (Inl e) \<longleftrightarrow> \<not> is_ub e"
  by (simp add: no_ub_def)

lemma no_ub_bindE:
  "no_ub m \<Longrightarrow> (\<And>x. m = Inr x \<Longrightarrow> no_ub (f x)) \<Longrightarrow> no_ub (bindE m f)"
  by (cases m) simp_all

lemma no_ub_map_err: "(\<And>e. is_ub (h e) \<Longrightarrow> is_ub e) \<Longrightarrow> no_ub m \<Longrightarrow> no_ub (map_err h m)"
  by (cases m) auto

lemma no_ub_as_err: "\<not> is_ub code \<Longrightarrow> no_ub m \<Longrightarrow> no_ub (as_err code m)"
  unfolding as_err_def by (rule no_ub_map_err) (auto split: if_splits)

end
