(* ===== verification/Mqtt_Buffer.thy ===== *)
theory Mqtt_Buffer
  imports Mqtt_Base "HOL-Library.Sublist"
begin

text \<open>
  \<^verbatim>\<open>MQTTBuffer\<close> of \<^verbatim>\<open>src/common/mqtt_buffer.{h,cpp}\<close>: a growable block of memory with a
  write end (\<^verbatim>\<open>size_\<close>) and a read position.  The block is the list \<open>buf_data\<close> of
  \<open>buf_capacity\<close> bytes, of which only the first \<open>buf_size\<close> have been written.  The
  allocator is not part of the buffer: \<open>buf_alloc n\<close> is what \<^verbatim>\<open>allocate_bytes(n)\<close> gives
  for this buffer, nothing or a block of \<open>n\<close> bytes with whatever they contain.  A null
  \<^verbatim>\<open>data_\<close> is a block of capacity 0.  Sizes are those of objects in memory, so the
  doubling in \<^verbatim>\<open>ensure_capacity\<close> does not wrap and is computed in \<^typ>\<open>nat\<close>.

  A call that returns a code and changes the buffer has type \<open>bop\<close>; \<^term>\<open>None\<close> is
  \<^verbatim>\<open>MQ_SUCCESS\<close>.  The relation \<open>emits f bs\<close> is the contract of a serializer:
  it appends exactly \<open>bs\<close>, or runs out of memory and has appended a prefix of \<open>bs\<close>.
\<close>

type_synonym alloc = "nat \<Rightarrow> bytes option"

record mqtt_buffer =
  buf_alloc :: alloc
  buf_data :: bytes
  buf_size :: nat
  buf_capacity :: nat
  buf_read_pos :: nat

type_synonym bop = "mqtt_buffer \<Rightarrow> mq_err option \<times> mqtt_buffer"

definition ok_op :: bop where
  "ok_op b = (None, b)"

definition fail_op :: "mq_err \<Rightarrow> bop" where
  "fail_op e b = (Some e, b)"

definition then_op :: "bop \<Rightarrow> bop \<Rightarrow> bop" where
  "then_op f g b = (case f b of (None, b') \<Rightarrow> g b' | (Some e, b') \<Rightarrow> (Some e, b'))"

primrec seq_ops :: "bop list \<Rightarrow> bop" where
  "seq_ops [] = ok_op"
| "seq_ops (f # fs) = then_op f (seq_ops fs)"

definition when_op :: "bool \<Rightarrow> bop \<Rightarrow> bop" where
  "when_op c f = (if c then f else ok_op)"

text \<open>\<^verbatim>\<open>memcpy\<close>/\<^verbatim>\<open>memmove\<close> of \<open>src\<close> to offset \<open>i\<close> of a block.\<close>

definition blit :: "nat \<Rightarrow> bytes \<Rightarrow> bytes \<Rightarrow> bytes" where
  "blit i src dst = take i dst @ src @ drop (i + length src) dst"


subsection \<open>Construction, size and capacity\<close>

definition clear :: "mqtt_buffer \<Rightarrow> mqtt_buffer" where
  "clear b = b\<lparr>buf_size := 0, buf_read_pos := 0\<rparr>"

definition reset_read_pos :: "mqtt_buffer \<Rightarrow> mqtt_buffer" where
  "reset_read_pos b = b\<lparr>buf_read_pos := 0\<rparr>"

definition allocate_bytes :: "alloc \<Rightarrow> nat \<Rightarrow> bytes option" where
  "allocate_bytes a n = (if n = 0 then None else a n)"

definition reserve :: "nat \<Rightarrow> bop" where
  "reserve capacity b =
     (if capacity \<le> buf_capacity b then (None, b)
      else case allocate_bytes (buf_alloc b) capacity of
        None \<Rightarrow> (Some MQ_ERR_MEMORY_ALLOC, b)
      | Some new_data \<Rightarrow>
          (None, b\<lparr>buf_data := blit 0 (take (buf_size b) (buf_data b)) new_data,
                   buf_capacity := capacity\<rparr>))"

definition new_buffer :: "alloc \<Rightarrow> nat \<Rightarrow> mqtt_buffer" where
  "new_buffer a initial_capacity =
     snd (when_op (0 < initial_capacity) (reserve initial_capacity)
       \<lparr>buf_alloc = a, buf_data = [], buf_size = 0, buf_capacity = 0, buf_read_pos = 0\<rparr>)"

definition copy_buffer :: "mqtt_buffer \<Rightarrow> mqtt_buffer" where
  "copy_buffer other =
     (let b = \<lparr>buf_alloc = buf_alloc other, buf_data = [], buf_size = 0, buf_capacity = 0,
               buf_read_pos = buf_read_pos other\<rparr>
      in if 0 < buf_size other then
           case reserve (buf_size other) b of
             (None, b') \<Rightarrow>
               b'\<lparr>buf_data := blit 0 (take (buf_size other) (buf_data other)) (buf_data b'),
                  buf_size := buf_size other\<rparr>
           | (Some _, b') \<Rightarrow> b'
         else b)"

text \<open>Move construction: the new buffer takes the block, the old one is left empty.\<close>

definition move_buffer :: "mqtt_buffer \<Rightarrow> mqtt_buffer \<times> mqtt_buffer" where
  "move_buffer other =
     (other, other\<lparr>buf_data := [], buf_size := 0, buf_capacity := 0, buf_read_pos := 0\<rparr>)"

text \<open>
  The assignment operators; \<open>self\<close> is the test \<^verbatim>\<open>this == &other\<close>.  The old block is
  released, and every member is then set as in the constructors.
\<close>

definition assign_copy :: "bool \<Rightarrow> mqtt_buffer \<Rightarrow> mqtt_buffer \<Rightarrow> mqtt_buffer" where
  "assign_copy self b other =
     (if self then b
      else
        let b = (clear b)\<lparr>buf_data := [], buf_capacity := 0\<rparr>;
            b = b\<lparr>buf_alloc := buf_alloc other, buf_read_pos := buf_read_pos other\<rparr>
        in if 0 < buf_size other then
             case reserve (buf_size other) b of
               (None, b') \<Rightarrow>
                 b'\<lparr>buf_data := blit 0 (take (buf_size other) (buf_data other)) (buf_data b'),
                    buf_size := buf_size other\<rparr>
             | (Some _, b') \<Rightarrow> b'
           else b)"

definition assign_move :: "bool \<Rightarrow> mqtt_buffer \<Rightarrow> mqtt_buffer \<Rightarrow> mqtt_buffer \<times> mqtt_buffer" where
  "assign_move self b other =
     (if self then (b, other)
      else (b\<lparr>buf_alloc := buf_alloc other, buf_data := buf_data other, buf_size := buf_size other,
              buf_capacity := buf_capacity other, buf_read_pos := buf_read_pos other\<rparr>,
            other\<lparr>buf_data := [], buf_size := 0, buf_capacity := 0, buf_read_pos := 0\<rparr>))"

definition resize :: "nat \<Rightarrow> bop" where
  "resize new_size b =
     (case (if buf_capacity b < new_size then reserve new_size b else (None, b)) of
        (Some _, b') \<Rightarrow> (Some MQ_ERR_MEMORY_ALLOC, b')
      | (None, b') \<Rightarrow> (None, b'\<lparr>buf_size := new_size, buf_read_pos := min (buf_read_pos b') new_size\<rparr>))"

definition set_size :: "nat \<Rightarrow> mqtt_buffer \<Rightarrow> mqtt_buffer" where
  "set_size new_size b =
     (if new_size \<le> buf_capacity b
      then b\<lparr>buf_size := new_size, buf_read_pos := min (buf_read_pos b) new_size\<rparr> else b)"

text \<open>The doubling loop; the code enters it with a positive capacity.\<close>

function grow :: "nat \<Rightarrow> nat \<Rightarrow> nat" where
  "grow new_capacity needed =
     (if 0 < new_capacity \<and> new_capacity < needed then grow (new_capacity * 2) needed
      else new_capacity)"
  by auto
termination by (relation "measure (\<lambda>(c, n). n - c)") auto

declare grow.simps [simp del]

definition ensure_capacity :: "nat \<Rightarrow> bop" where
  "ensure_capacity needed b =
     (if needed \<le> buf_capacity b then (None, b)
      else reserve (grow (if buf_capacity b = 0 then 64 else buf_capacity b) needed) b)"


subsection \<open>Appending\<close>

definition buf_append :: "bytes \<Rightarrow> bop" where
  "buf_append src b =
     (if src = [] then (None, b)
      else case ensure_capacity (buf_size b + length src) b of
        (Some _, b') \<Rightarrow> (Some MQ_ERR_MEMORY_ALLOC, b')
      | (None, b') \<Rightarrow>
          (None, b'\<lparr>buf_data := blit (buf_size b') src (buf_data b'),
                    buf_size := buf_size b' + length src\<rparr>))"

definition append_byte :: "byte \<Rightarrow> bop" where
  "append_byte v = buf_append [v]"

definition push_back :: "byte \<Rightarrow> bop" where
  "push_back v = append_byte v"

definition append_string :: "bytes \<Rightarrow> bop" where
  "append_string value = buf_append value"

text \<open>A C string: a null pointer, or the bytes up to the terminating zero.\<close>

definition append_cstr :: "bytes option \<Rightarrow> bop" where
  "append_cstr value =
     (case value of None \<Rightarrow> fail_op MQ_ERR_INVALID_ARGS
      | Some cs \<Rightarrow> buf_append (takeWhile (\<lambda>c. c \<noteq> 0) cs))"

definition insert_byte :: "nat \<Rightarrow> byte \<Rightarrow> bop" where
  "insert_byte pos v b =
     (if buf_size b < pos then (Some MQ_ERR_INVALID_ARGS, b)
      else case ensure_capacity (buf_size b + 1) b of
        (Some _, b') \<Rightarrow> (Some MQ_ERR_MEMORY_ALLOC, b')
      | (None, b') \<Rightarrow>
          (let d = (if pos < buf_size b'
                    then blit (pos + 1) (take (buf_size b' - pos) (drop pos (buf_data b'))) (buf_data b')
                    else buf_data b')
           in (None, b'\<lparr>buf_data := d[pos := v], buf_size := buf_size b' + 1\<rparr>)))"

text \<open>
  Decimal output.  The \<^verbatim>\<open>do\<close> loop writes the last digit first into a 32-byte array and
  the digits written are appended; 20 digits are enough for 64 bits, so the array is a list
  here, and \<open>length_digits_loop\<close> below bounds it.
\<close>

function digits_loop :: "nat \<Rightarrow> bytes \<Rightarrow> bytes" where
  "digits_loop value digits =
     (let digits' = (0x30 + of_nat (value mod 10)) # digits
      in if value div 10 \<noteq> 0 then digits_loop (value div 10) digits' else digits')"
  by auto
termination by (relation "measure fst") auto

declare digits_loop.simps [simp del]

definition append_decimal_uint :: "u64 \<Rightarrow> bop" where
  "append_decimal_uint v = buf_append (digits_loop (unat v) [])"

definition append_decimal_int :: "64 word \<Rightarrow> bop" where
  "append_decimal_int v b =
     (if v <s 0 then
        case append_byte 0x2D b of
          (Some _, b') \<Rightarrow> (Some MQ_ERR_MEMORY_ALLOC, b')
        | (None, b') \<Rightarrow> append_decimal_uint (- (v + 1) + 1) b'
      else append_decimal_uint v b)"

definition put_uint16_be :: "u16 \<Rightarrow> bop" where
  "put_uint16_be v = buf_append [byte_at 1 v, byte_at 0 v]"

definition put_uint16_le :: "u16 \<Rightarrow> bop" where
  "put_uint16_le v = buf_append [byte_at 0 v, byte_at 1 v]"

definition put_uint32_be :: "u32 \<Rightarrow> bop" where
  "put_uint32_be v = buf_append [byte_at 3 v, byte_at 2 v, byte_at 1 v, byte_at 0 v]"

definition put_uint32_le :: "u32 \<Rightarrow> bop" where
  "put_uint32_le v = buf_append [byte_at 0 v, byte_at 1 v, byte_at 2 v, byte_at 3 v]"

definition put_uint64_be :: "u64 \<Rightarrow> bop" where
  "put_uint64_be v = buf_append (map (\<lambda>i. byte_at (7 - i) v) [0..<8])"

definition put_uint64_le :: "u64 \<Rightarrow> bop" where
  "put_uint64_le v = buf_append (map (\<lambda>i. byte_at i v) [0..<8])"


subsection \<open>Reading\<close>

definition remaining :: "mqtt_buffer \<Rightarrow> nat" where
  "remaining b = (if buf_read_pos b \<le> buf_size b then buf_size b - buf_read_pos b else 0)"

definition peek_at :: "mqtt_buffer \<Rightarrow> nat \<Rightarrow> byte" where
  "peek_at b i = buf_data b ! (buf_read_pos b + i)"

definition skip :: "nat \<Rightarrow> mqtt_buffer \<Rightarrow> mqtt_buffer" where
  "skip n b = b\<lparr>buf_read_pos := buf_read_pos b + n\<rparr>"

definition get_byte :: "mqtt_buffer \<Rightarrow> (byte \<times> mqtt_buffer) option" where
  "get_byte b = (if remaining b < 1 then None else Some (peek_at b 0, skip 1 b))"

definition get_uint16_be :: "mqtt_buffer \<Rightarrow> (u16 \<times> mqtt_buffer) option" where
  "get_uint16_be b = (if remaining b < 2 then None
     else Some (push_bit 8 (ucast (peek_at b 0)) OR ucast (peek_at b 1), skip 2 b))"

definition get_uint16_le :: "mqtt_buffer \<Rightarrow> (u16 \<times> mqtt_buffer) option" where
  "get_uint16_le b = (if remaining b < 2 then None
     else Some (ucast (peek_at b 0) OR push_bit 8 (ucast (peek_at b 1)), skip 2 b))"

definition get_uint32_be :: "mqtt_buffer \<Rightarrow> (u32 \<times> mqtt_buffer) option" where
  "get_uint32_be b = (if remaining b < 4 then None
     else Some (push_bit 24 (ucast (peek_at b 0)) OR push_bit 16 (ucast (peek_at b 1)) OR
                push_bit 8 (ucast (peek_at b 2)) OR ucast (peek_at b 3), skip 4 b))"

definition get_uint32_le :: "mqtt_buffer \<Rightarrow> (u32 \<times> mqtt_buffer) option" where
  "get_uint32_le b = (if remaining b < 4 then None
     else Some (ucast (peek_at b 0) OR push_bit 8 (ucast (peek_at b 1)) OR
                push_bit 16 (ucast (peek_at b 2)) OR push_bit 24 (ucast (peek_at b 3)), skip 4 b))"

definition get_uint64_be :: "mqtt_buffer \<Rightarrow> (u64 \<times> mqtt_buffer) option" where
  "get_uint64_be b = (if remaining b < 8 then None
     else Some (foldl (\<lambda>v i. push_bit 8 v OR ucast (peek_at b i)) 0 [0..<8], skip 8 b))"

definition get_uint64_le :: "mqtt_buffer \<Rightarrow> (u64 \<times> mqtt_buffer) option" where
  "get_uint64_le b = (if remaining b < 8 then None
     else Some (foldl (\<lambda>v i. push_bit 8 v OR ucast (peek_at b i)) 0 (rev [0..<8]), skip 8 b))"

definition get_string :: "nat \<Rightarrow> mqtt_buffer \<Rightarrow> (bytes \<times> mqtt_buffer) option" where
  "get_string len b = (if remaining b < len then None
     else Some (take len (drop (buf_read_pos b) (buf_data b)), skip len b))"

definition serialize :: "mqtt_buffer \<Rightarrow> bytes" where
  "serialize b = (if buf_size b = 0 then [] else take (buf_size b) (buf_data b))"

definition deserialize :: "bytes \<Rightarrow> mqtt_buffer \<Rightarrow> bool \<times> mqtt_buffer" where
  "deserialize input b =
     (let b1 = clear b in
      if input = [] then (True, b1)
      else case buf_append input b1 of (r, b2) \<Rightarrow> (r = None, b2))"


subsection \<open>Invariant and contents\<close>

definition alloc_ok :: "alloc \<Rightarrow> bool" where
  "alloc_ok a \<longleftrightarrow> (\<forall>n blk. a n = Some blk \<longrightarrow> length blk = n)"

definition alloc_total :: "alloc \<Rightarrow> bool" where
  "alloc_total a \<longleftrightarrow> (\<forall>n. a n \<noteq> None)"

definition buf_inv :: "mqtt_buffer \<Rightarrow> bool" where
  "buf_inv b \<longleftrightarrow> alloc_ok (buf_alloc b) \<and> length (buf_data b) = buf_capacity b \<and>
                 buf_size b \<le> buf_capacity b"

definition contents :: "mqtt_buffer \<Rightarrow> bytes" where
  "contents b = take (buf_size b) (buf_data b)"

lemma length_contents [simp]: "buf_inv b \<Longrightarrow> length (contents b) = buf_size b"
  by (simp add: contents_def buf_inv_def)

lemma length_blit [simp]: "i + length src \<le> length dst \<Longrightarrow> length (blit i src dst) = length dst"
  by (simp add: blit_def)

lemma take_blit: "i + length src \<le> length dst \<Longrightarrow> take (i + length src) (blit i src dst) = take i dst @ src"
  by (simp add: blit_def min_absorb2)

lemma grow_ge: "0 < c \<Longrightarrow> needed \<le> grow c needed"
  by (induction c needed rule: grow.induct) (subst grow.simps, simp)

lemma grow_bound: "0 < c \<Longrightarrow> grow c needed \<le> max c (2 * needed)"
  by (induction c needed rule: grow.induct) (subst grow.simps, auto)

lemma allocate_bytes_Some:
  "alloc_ok a \<Longrightarrow> allocate_bytes a n = Some blk \<Longrightarrow> length blk = n \<and> 0 < n"
  by (auto simp: allocate_bytes_def alloc_ok_def split: if_splits)

text \<open>The contract of everything that only makes room.\<close>

definition makes_room :: "bop \<Rightarrow> nat \<Rightarrow> bool" where
  "makes_room f n \<longleftrightarrow> (\<forall>b r b'. buf_inv b \<longrightarrow> f b = (r, b') \<longrightarrow>
     buf_inv b' \<and> contents b' = contents b \<and> buf_size b' = buf_size b \<and>
     buf_alloc b' = buf_alloc b \<and> buf_read_pos b' = buf_read_pos b \<and>
     (r = None \<and> n \<le> buf_capacity b' \<or>
      r = Some MQ_ERR_MEMORY_ALLOC \<and> \<not> alloc_total (buf_alloc b)))"

lemma makes_roomD:
  assumes "makes_room f n" "buf_inv b" "f b = (r, b')"
  shows "buf_inv b'" "contents b' = contents b" "buf_size b' = buf_size b"
    "buf_alloc b' = buf_alloc b" "buf_read_pos b' = buf_read_pos b"
    "r = None \<and> n \<le> buf_capacity b' \<or> r = Some MQ_ERR_MEMORY_ALLOC \<and> \<not> alloc_total (buf_alloc b)"
  using assms unfolding makes_room_def by blast+

lemma makes_room_reserve: "makes_room (reserve n) n"
  unfolding makes_room_def
proof (intro allI impI)
  fix b r b'
  assume inv: "buf_inv b" and eq: "reserve n b = (r, b')"
  show "buf_inv b' \<and> contents b' = contents b \<and> buf_size b' = buf_size b \<and>
     buf_alloc b' = buf_alloc b \<and> buf_read_pos b' = buf_read_pos b \<and>
     (r = None \<and> n \<le> buf_capacity b' \<or>
      r = Some MQ_ERR_MEMORY_ALLOC \<and> \<not> alloc_total (buf_alloc b))"
  proof (cases "n \<le> buf_capacity b")
    case True
    with eq inv show ?thesis by (auto simp: reserve_def)
  next
    case False
    show ?thesis
    proof (cases "allocate_bytes (buf_alloc b) n")
      case None
      with False eq inv show ?thesis
        by (auto simp: reserve_def allocate_bytes_def alloc_total_def split: if_splits)
    next
      case (Some blk)
      then have "length blk = n"
        using inv allocate_bytes_Some by (auto simp: buf_inv_def)
      with Some False eq inv show ?thesis
        by (auto simp: reserve_def buf_inv_def contents_def blit_def)
    qed
  qed
qed

lemma makes_room_mono: "makes_room f n \<Longrightarrow> m \<le> n \<Longrightarrow> makes_room f m"
  unfolding makes_room_def by (meson le_trans)

lemma makes_room_ensure_capacity: "makes_room (ensure_capacity n) n"
  unfolding makes_room_def
proof (intro allI impI)
  fix b r b'
  assume inv: "buf_inv b" and eq: "ensure_capacity n b = (r, b')"
  let ?c = "grow (if buf_capacity b = 0 then 64 else buf_capacity b) n"
  show "buf_inv b' \<and> contents b' = contents b \<and> buf_size b' = buf_size b \<and>
     buf_alloc b' = buf_alloc b \<and> buf_read_pos b' = buf_read_pos b \<and>
     (r = None \<and> n \<le> buf_capacity b' \<or>
      r = Some MQ_ERR_MEMORY_ALLOC \<and> \<not> alloc_total (buf_alloc b))"
  proof (cases "n \<le> buf_capacity b")
    case True
    with eq inv show ?thesis by (auto simp: ensure_capacity_def)
  next
    case False
    then have "reserve ?c b = (r, b')" using eq by (simp add: ensure_capacity_def)
    moreover have "makes_room (reserve ?c) n"
      by (rule makes_room_mono [OF makes_room_reserve]) (simp add: grow_ge)
    ultimately show ?thesis using inv unfolding makes_room_def by blast
  qed
qed


subsection \<open>Serializers\<close>

definition emits :: "bop \<Rightarrow> bytes \<Rightarrow> bool" where
  "emits f bs \<longleftrightarrow> (\<forall>b r b'. buf_inv b \<longrightarrow> f b = (r, b') \<longrightarrow>
     buf_inv b' \<and> buf_alloc b' = buf_alloc b \<and> buf_read_pos b' = buf_read_pos b \<and>
     (r = None \<and> contents b' = contents b @ bs \<or>
      r \<noteq> None \<and> \<not> alloc_total (buf_alloc b) \<and>
        (\<exists>p. prefix p bs \<and> contents b' = contents b @ p)))"

lemma emitsD:
  assumes "emits f bs" "buf_inv b" "f b = (r, b')"
  shows "buf_inv b'" "buf_alloc b' = buf_alloc b" "buf_read_pos b' = buf_read_pos b"
    "r = None \<and> contents b' = contents b @ bs \<or>
      r \<noteq> None \<and> \<not> alloc_total (buf_alloc b) \<and>
        (\<exists>p. prefix p bs \<and> contents b' = contents b @ p)"
  using assms unfolding emits_def by blast+

lemma emits_ok [emit_intros]: "emits ok_op []"
  by (auto simp: emits_def ok_op_def)

lemma emits_makes_room: "makes_room f n \<Longrightarrow> emits f []"
  unfolding emits_def makes_room_def by (metis append_Nil2 prefix_bot.extremum)

lemma emits_reserve [emit_intros]: "emits (reserve n) []"
  by (rule emits_makes_room [OF makes_room_reserve])

lemma emits_buf_append [emit_intros]: "emits (buf_append src) src"
  unfolding emits_def
proof (intro allI impI)
  fix b r b'
  assume inv: "buf_inv b" and eq: "buf_append src b = (r, b')"
  show "buf_inv b' \<and> buf_alloc b' = buf_alloc b \<and> buf_read_pos b' = buf_read_pos b \<and>
     (r = None \<and> contents b' = contents b @ src \<or>
      r \<noteq> None \<and> \<not> alloc_total (buf_alloc b) \<and>
        (\<exists>p. prefix p src \<and> contents b' = contents b @ p))"
  proof (cases "src = []")
    case True
    with eq inv show ?thesis by (simp add: buf_append_def)
  next
    case False
    obtain r1 b1 where e: "ensure_capacity (buf_size b + length src) b = (r1, b1)"
      by fastforce
    note room = makes_roomD [OF makes_room_ensure_capacity inv e]
    show ?thesis
    proof (cases r1)
      case None
      with False eq e have b': "r = None"
        "b' = b1\<lparr>buf_data := blit (buf_size b1) src (buf_data b1), buf_size := buf_size b1 + length src\<rparr>"
        by (simp_all add: buf_append_def)
      have len: "buf_size b1 + length src \<le> length (buf_data b1)"
        using room None by (auto simp: buf_inv_def)
      with room b' show ?thesis
        by (simp add: buf_inv_def contents_def take_blit)
    next
      case (Some e)
      with False eq e room show ?thesis by (auto simp: buf_append_def)
    qed
  qed
qed

lemma emits_then:
  assumes f: "emits f xs" and g: "emits g ys"
  shows "emits (then_op f g) (xs @ ys)"
  unfolding emits_def
proof (intro allI impI)
  fix b r b'
  assume inv: "buf_inv b" and eq: "then_op f g b = (r, b')"
  obtain r1 b1 where e1: "f b = (r1, b1)" by fastforce
  note d1 = emitsD [OF f inv e1]
  show "buf_inv b' \<and> buf_alloc b' = buf_alloc b \<and> buf_read_pos b' = buf_read_pos b \<and>
     (r = None \<and> contents b' = contents b @ xs @ ys \<or>
      r \<noteq> None \<and> \<not> alloc_total (buf_alloc b) \<and>
        (\<exists>p. prefix p (xs @ ys) \<and> contents b' = contents b @ p))"
  proof (cases r1)
    case None
    then have e2: "g b1 = (r, b')" using eq e1 by (simp add: then_op_def)
    show ?thesis
      using d1 None emitsD [OF g d1(1) e2] by (auto intro: same_prefix_prefix [THEN iffD2])
  next
    case (Some e)
    then have "r = Some e" "b' = b1" using eq e1 by (simp_all add: then_op_def)
    then show ?thesis using d1 Some by (auto intro: prefix_prefix)
  qed
qed

lemma emits_seq_Cons: "emits f xs \<Longrightarrow> emits (seq_ops fs) ys \<Longrightarrow> emits (seq_ops (f # fs)) (xs @ ys)"
  by (simp add: emits_then)

lemma emits_seq_Nil: "emits (seq_ops []) []"
  by (simp add: emits_ok)

lemma emits_when: "(c \<Longrightarrow> emits f xs) \<Longrightarrow> emits (when_op c f) (if c then xs else [])"
  by (simp add: when_op_def emits_ok)

lemma emits_seq_map:
  "(\<And>x. x \<in> set l \<Longrightarrow> emits (f x) (g x)) \<Longrightarrow> emits (seq_ops (map f l)) (concat (map g l))"
  by (induction l) (simp_all add: emits_ok emits_then)

declare seq_ops.simps [simp del]

lemma emits_eq: "emits f xs \<Longrightarrow> xs = ys \<Longrightarrow> emits f ys"
  by simp

text \<open>A serializer succeeds when memory is available.\<close>

lemma emits_success:
  assumes "emits f bs" "buf_inv b" "alloc_total (buf_alloc b)"
  shows "\<exists>b'. f b = (None, b') \<and> buf_inv b' \<and> contents b' = contents b @ bs"
  using assms emitsD [OF assms(1,2)] by (metis surj_pair)

lemma emits_push_back [emit_intros]: "emits (push_back v) [v]"
  by (simp add: push_back_def append_byte_def emits_buf_append)

lemma emits_put16 [emit_intros]: "emits (put_uint16_be v) (be_bytes 2 v)"
  unfolding put_uint16_be_def be_bytes_2 by (rule emits_buf_append)

lemma emits_put32 [emit_intros]: "emits (put_uint32_be v) (be_bytes 4 v)"
  unfolding put_uint32_be_def be_bytes_4 by (rule emits_buf_append)

lemma emits_put64 [emit_intros]: "emits (put_uint64_be v) (be_bytes 8 v)"
  by (simp add: put_uint64_be_def be_bytes_def emits_buf_append)

lemma emits_put16_le [emit_intros]: "emits (put_uint16_le v) (le_bytes 2 v)"
  using emits_buf_append by (simp add: put_uint16_le_def le_bytes_def upt_rec)

lemma emits_put32_le [emit_intros]: "emits (put_uint32_le v) (le_bytes 4 v)"
  using emits_buf_append by (simp add: put_uint32_le_def le_bytes_def upt_rec numeral_eq_Suc)

lemma emits_put64_le [emit_intros]: "emits (put_uint64_le v) (le_bytes 8 v)"
  by (simp add: put_uint64_le_def le_bytes_def emits_buf_append)


subsection \<open>Reading back\<close>

definition unread :: "mqtt_buffer \<Rightarrow> bytes" where
  "unread b = drop (buf_read_pos b) (contents b)"

lemma remaining_unread: "buf_inv b \<Longrightarrow> remaining b = length (unread b)"
  by (simp add: remaining_def unread_def)

lemma unread_skip [simp]: "unread (skip n b) = drop n (unread b)"
  by (simp add: unread_def skip_def contents_def add.commute)

lemma skip_skip [simp]: "skip m (skip n b) = skip (m + n) b"
  by (simp add: skip_def)

lemma buf_inv_skip [simp]: "buf_inv (skip n b) \<longleftrightarrow> buf_inv b"
  by (simp add: buf_inv_def skip_def)

lemma peek_at_unread: "buf_inv b \<Longrightarrow> i < length (unread b) \<Longrightarrow> peek_at b i = unread b ! i"
  by (auto simp: peek_at_def unread_def contents_def buf_inv_def)

text \<open>
  The interface a pair of \<^verbatim>\<open>put\<close>/\<^verbatim>\<open>get\<close> methods offers: what \<open>put\<close> appends, \<open>get\<close>
  reads back, leaving what follows; and \<open>get\<close> refuses what is too short without
  moving the read position.
\<close>

locale buffer_codec =
  fixes put :: "'a \<Rightarrow> bop"
    and get :: "mqtt_buffer \<Rightarrow> ('a \<times> mqtt_buffer) option"
    and enc :: "'a \<Rightarrow> bytes"
    and width :: nat
  assumes put_emits: "emits (put v) (enc v)"
    and get_enc: "buf_inv b \<Longrightarrow> unread b = enc v @ rest \<Longrightarrow> get b = Some (v, skip width b)"
    and enc_width: "length (enc v) = width"
    and get_short: "buf_inv b \<Longrightarrow> length (unread b) < width \<Longrightarrow> get b = None"
begin

primrec get_n :: "nat \<Rightarrow> mqtt_buffer \<Rightarrow> ('a list \<times> mqtt_buffer) option" where
  "get_n 0 b = Some ([], b)"
| "get_n (Suc n) b = (case get b of None \<Rightarrow> None
     | Some (v, b1) \<Rightarrow> (case get_n n b1 of None \<Rightarrow> None | Some (vs, b2) \<Rightarrow> Some (v # vs, b2)))"

lemma get_n_enc:
  "buf_inv b \<Longrightarrow> unread b = concat (map enc vs) @ rest \<Longrightarrow>
     get_n (length vs) b = Some (vs, skip (width * length vs) b)"
proof (induction vs arbitrary: b)
  case Nil
  show ?case by (simp add: skip_def)
next
  case (Cons v vs)
  then have "get b = Some (v, skip width b)"
    using get_enc by simp
  moreover have "get_n (length vs) (skip width b) = Some (vs, skip (width * length vs) (skip width b))"
    using Cons.prems by (intro Cons.IH) (simp_all add: enc_width)
  ultimately show ?case by (simp add: algebra_simps)
qed

lemma put_get_all:
  assumes "buf_inv b" "buf_read_pos b \<le> buf_size b" "seq_ops (map put vs) b = (None, b')"
  shows "get_n (length vs) (skip (length (unread b)) b') = Some (vs, skip (width * length vs + length (unread b)) b')"
proof -
  have e: "emits (seq_ops (map put vs)) (concat (map enc vs))"
    by (rule emits_seq_map) (rule put_emits)
  note d = emitsD [OF e assms(1,3)]
  have "unread b' = unread b @ concat (map enc vs)"
    using d assms by (simp add: unread_def)
  then show ?thesis
    using get_n_enc [of "skip (length (unread b)) b'" vs "[]"] d(1) by (simp add: add.commute)
qed

lemma put_get_total:
  assumes "buf_inv b" "buf_read_pos b \<le> buf_size b" "alloc_total (buf_alloc b)"
  shows "\<exists>b'. seq_ops (map put vs) b = (None, b') \<and>
     get_n (length vs) (skip (length (unread b)) b') = Some (vs, skip (width * length vs + length (unread b)) b')"
proof -
  have "emits (seq_ops (map put vs)) (concat (map enc vs))"
    by (rule emits_seq_map) (rule put_emits)
  from emits_success [OF this assms(1,3)] put_get_all [OF assms(1,2)] show ?thesis by blast
qed

end

lemma enc16_be: "push_bit 8 (ucast (byte_at 1 w)) OR ucast (byte_at 0 w) = (w :: u16)"
  using be_word_bytes [of 2 w] by (simp add: be_bytes_2 be_word_def)

lemma enc16_le: "ucast (byte_at 0 w) OR push_bit 8 (ucast (byte_at 1 w)) = (w :: u16)"
  using enc16_be by (simp add: or.commute)

lemma enc32_be:
  "push_bit 24 (ucast (byte_at 3 w)) OR push_bit 16 (ucast (byte_at 2 w)) OR
   push_bit 8 (ucast (byte_at 1 w)) OR ucast (byte_at 0 w) = (w :: u32)"
  using be_word_bytes [of 4 w] by (simp add: be_bytes_4 be_word_def push_bit_or or.assoc)

lemma enc32_le:
  "ucast (byte_at 0 w) OR push_bit 8 (ucast (byte_at 1 w)) OR push_bit 16 (ucast (byte_at 2 w)) OR
   push_bit 24 (ucast (byte_at 3 w)) = (w :: u32)"
  using enc32_be [of w] by (simp add: or.commute or.left_commute)

lemma le_bytes_2: "le_bytes 2 w = [byte_at 0 w, byte_at 1 w]"
  by (simp add: le_bytes_def upt_rec)

lemma le_bytes_4: "le_bytes 4 w = [byte_at 0 w, byte_at 1 w, byte_at 2 w, byte_at 3 w]"
  by (simp add: le_bytes_def upt_rec numeral_eq_Suc)

lemma foldl_peek:
  assumes "buf_inv b" "n \<le> length (unread b)" "set is \<subseteq> {..<n}"
  shows "foldl (\<lambda>v i. push_bit 8 v OR ucast (peek_at b i)) 0 is = be_word (map ((!) (take n (unread b))) is)"
proof -
  have "\<And>i. i \<in> set is \<Longrightarrow> peek_at b i = take n (unread b) ! i"
    using assms peek_at_unread by fastforce
  then show ?thesis
    unfolding be_word_def foldl_map by (intro foldl_cong) simp_all
qed

interpretation byte_codec: buffer_codec push_back get_byte "\<lambda>v. [v]" 1
  by unfold_locales
    (auto simp: get_byte_def remaining_unread peek_at_unread intro: emit_intros)

interpretation u16_be: buffer_codec put_uint16_be get_uint16_be "be_bytes 2" 2
  by (unfold_locales, rule emits_put16)
    (auto simp: get_uint16_be_def remaining_unread peek_at_unread be_bytes_2 enc16_be [simplified])

interpretation u16_le: buffer_codec put_uint16_le get_uint16_le "le_bytes 2" 2
  by (unfold_locales, rule emits_put16_le)
    (auto simp: get_uint16_le_def remaining_unread peek_at_unread le_bytes_2 enc16_le [simplified])

interpretation u32_be: buffer_codec put_uint32_be get_uint32_be "be_bytes 4" 4
  by (unfold_locales, rule emits_put32)
    (auto simp: get_uint32_be_def remaining_unread peek_at_unread be_bytes_4 enc32_be [simplified])

interpretation u32_le: buffer_codec put_uint32_le get_uint32_le "le_bytes 4" 4
  by (unfold_locales, rule emits_put32_le)
    (auto simp: get_uint32_le_def remaining_unread peek_at_unread le_bytes_4 enc32_le [simplified])

interpretation u64_be: buffer_codec put_uint64_be get_uint64_be "be_bytes 8" 8
proof unfold_locales
  fix b and v :: u64 and rest
  assume b: "buf_inv b" "unread b = be_bytes 8 v @ rest"
  then have "foldl (\<lambda>v i. push_bit 8 v OR ucast (peek_at b i)) 0 [0..<8] = v"
    using foldl_peek [where ?'a = 64, of b 8 "[0..<8]"] map_nth [of "be_bytes 8 v"]
    by (simp add: lessThan_atLeast0 del: upt_rec_numeral)
  then show "get_uint64_be b = Some (v, skip 8 b)"
    using b by (simp add: get_uint64_be_def remaining_unread del: upt_rec_numeral)
qed (auto simp: get_uint64_be_def remaining_unread intro: emit_intros)

interpretation u64_le: buffer_codec put_uint64_le get_uint64_le "le_bytes 8" 8
proof unfold_locales
  fix b and v :: u64 and rest
  assume b: "buf_inv b" "unread b = le_bytes 8 v @ rest"
  have "map ((!) (le_bytes 8 v)) (rev [0..<8]) = rev (le_bytes 8 v)"
    using map_nth [of "le_bytes 8 v"] by (simp add: rev_map [symmetric] del: upt_rec_numeral)
  then have "foldl (\<lambda>v i. push_bit 8 v OR ucast (peek_at b i)) 0 (rev [0..<8]) = v"
    using b foldl_peek [where ?'a = 64, of b 8 "rev [0..<8]"] by (simp add: be_word_rev lessThan_atLeast0 del: upt_rec_numeral)
  then show "get_uint64_le b = Some (v, skip 8 b)"
    using b by (simp add: get_uint64_le_def remaining_unread del: upt_rec_numeral)
qed (auto simp: get_uint64_le_def remaining_unread intro: emit_intros)


subsection \<open>Insertion, copies, strings and decimals\<close>

lemma blit_insert:
  assumes "pos < n" "n < length d"
  shows "take (n + 1) ((blit (pos + 1) (take (n - pos) (drop pos d)) d)[pos := v]) =
         take pos (take n d) @ v # drop pos (take n d)"
proof -
  have "take (pos + 1) d = take pos d @ [d ! pos]"
    using assms by (simp add: take_Suc_conv_app_nth)
  then show ?thesis
    using assms by (simp add: blit_def list_update_append drop_take min_absorb1 Suc_diff_le)
qed

lemma copy_buffer_contents:
  assumes "buf_inv b" "alloc_total (buf_alloc b)"
  shows "buf_inv (copy_buffer b)" "contents (copy_buffer b) = contents b"
    "buf_read_pos (copy_buffer b) = buf_read_pos b"
proof -
  let ?e = "\<lparr>buf_alloc = buf_alloc b, buf_data = [], buf_size = 0, buf_capacity = 0,
             buf_read_pos = buf_read_pos b\<rparr>"
  have inv: "buf_inv ?e" using assms by (simp add: buf_inv_def)
  obtain r b1 where e: "reserve (buf_size b) ?e = (r, b1)" by fastforce
  note room = makes_roomD [OF makes_room_reserve inv e]
  have "buf_inv (copy_buffer b) \<and> contents (copy_buffer b) = contents b \<and>
        buf_read_pos (copy_buffer b) = buf_read_pos b"
  proof (cases "0 < buf_size b")
    case True
    have "r = None" using room(6) assms by simp
    with True e room assms(1) show ?thesis
      by (auto simp: copy_buffer_def Let_def buf_inv_def contents_def blit_def)
  next
    case False
    with inv show ?thesis by (simp add: copy_buffer_def Let_def contents_def)
  qed
  then show "buf_inv (copy_buffer b)" "contents (copy_buffer b) = contents b"
    "buf_read_pos (copy_buffer b) = buf_read_pos b" by blast+
qed

text \<open>Assignment leaves what construction from the same source gives.\<close>

lemma assign_copy_eq: "assign_copy False b other = copy_buffer other"
  by (cases b) (simp add: assign_copy_def copy_buffer_def clear_def Let_def)

lemma assign_move_eq: "assign_move False b other = move_buffer other"
  by (simp add: assign_move_def move_buffer_def)

text \<open>Shrinking keeps a prefix; \<^verbatim>\<open>resize\<close> within the capacity cannot fail.\<close>

lemma set_size_contents:
  "buf_inv b \<Longrightarrow> n \<le> buf_size b \<Longrightarrow> buf_inv (set_size n b) \<and> contents (set_size n b) = take n (contents b)"
  by (auto simp: set_size_def buf_inv_def contents_def)

lemma resize_contents:
  assumes "buf_inv b" "resize n b = (None, b')"
  shows "buf_inv b' \<and> buf_size b' = n \<and> take (min n (buf_size b)) (contents b') = take n (contents b) \<and>
    buf_read_pos b' \<le> n"
proof (cases "buf_capacity b < n")
  case True
  obtain r b1 where e: "reserve n b = (r, b1)" by fastforce
  note room = makes_roomD [OF makes_room_reserve assms(1) e]
  from True e assms(2) have b': "b' = b1\<lparr>buf_size := n, buf_read_pos := min (buf_read_pos b1) n\<rparr>" and r: "r = None"
    by (auto simp: resize_def split: option.splits)
  from room r b' show ?thesis
    by (auto simp: buf_inv_def contents_def min_def) (metis take_take min_def)+
next
  case False
  with assms show ?thesis by (auto simp: resize_def buf_inv_def contents_def min_def)
qed

lemma get_string_unread:
  assumes "buf_inv b" "unread b = str @ rest"
  shows "get_string (length str) b = Some (str, skip (length str) b)"
proof -
  have "length str \<le> buf_size b - buf_read_pos b"
    using assms(1) arg_cong [OF assms(2), of length] by (simp add: unread_def)
  then have "take (length str) (drop (buf_read_pos b) (buf_data b)) = take (length str) (unread b)"
    by (simp add: unread_def contents_def drop_take)
  then show ?thesis using assms by (simp add: get_string_def remaining_unread)
qed

lemma deserialize_serialize:
  assumes "buf_inv b" "deserialize input b = (True, b')"
  shows "serialize b' = input \<and> buf_read_pos b' = 0"
proof -
  have inv: "buf_inv (clear b)" using assms by (simp add: buf_inv_def clear_def)
  obtain r b1 where e: "buf_append input (clear b) = (r, b1)" by fastforce
  show ?thesis
  proof (cases "input = []")
    case True
    with assms show ?thesis by (auto simp: deserialize_def clear_def serialize_def)
  next
    case False
    with assms e have "r = None" "b' = b1" by (auto simp: deserialize_def)
    with emitsD(3,4) [OF emits_buf_append inv e] False show ?thesis
      by (cases "buf_size b1 = 0") (simp_all add: serialize_def contents_def clear_def)
  qed
qed

definition decimal_value :: "bytes \<Rightarrow> nat" where
  "decimal_value ds = foldl (\<lambda>acc d. 10 * acc + (unat d - 48)) 0 ds"

definition is_digit :: "byte \<Rightarrow> bool" where
  "is_digit d \<longleftrightarrow> 0x30 \<le> d \<and> d \<le> 0x39"

lemma digits_loop_acc: "digits_loop n acc = digits_loop n [] @ acc"
proof (induction n arbitrary: acc rule: less_induct)
  case (less n)
  show ?case
  proof (cases "n div 10 = 0")
    case True
    then show ?thesis by (subst (1 2) digits_loop.simps) simp
  next
    case False
    then have "n div 10 < n" by simp
    note IH = less [OF this]
    from False show ?thesis
      by (subst (1 2) digits_loop.simps)
        (simp add: Let_def IH [of "_ # acc"] IH [of "[_]"])
  qed
qed

lemma digits_loop_rec:
  "digits_loop n [] = (if n < 10 then [] else digits_loop (n div 10) []) @ [0x30 + of_nat (n mod 10)]"
  by (subst digits_loop.simps) (simp add: Let_def digits_loop_acc [of "n div 10" "[_]"])

lemma unat_digit: "d < 10 \<Longrightarrow> unat (0x30 + of_nat d :: byte) = 48 + d"
  by (simp add: unat_word_ariths unat_of_nat)

lemma decimal_value_snoc: "decimal_value (ds @ [d]) = 10 * decimal_value ds + (unat d - 48)"
  by (simp add: decimal_value_def)

lemma digits_loop_spec:
  "decimal_value (digits_loop n []) = n \<and> list_all is_digit (digits_loop n [])"
proof (induction n rule: less_induct)
  case (less n)
  define d :: byte where "d = 0x30 + of_nat (n mod 10)"
  have u: "unat d = 48 + n mod 10"
    unfolding d_def by (rule unat_digit) simp
  then have dig: "is_digit d"
    by (simp add: is_digit_def word_le_nat_alt)
  have rec: "digits_loop n [] = (if n < 10 then [] else digits_loop (n div 10) []) @ [d]"
    unfolding d_def by (rule digits_loop_rec)
  show ?case
  proof (cases "n < 10")
    case True
    then show ?thesis by (simp add: rec decimal_value_def u dig)
  next
    case False
    then have "n div 10 < n" by simp
    from less [OF this] False show ?thesis
      by (simp add: rec decimal_value_snoc u dig)
  qed
qed

lemma length_digits_loop: "0 < k \<Longrightarrow> n < 10 ^ k \<Longrightarrow> length (digits_loop n []) \<le> k"
proof (induction k arbitrary: n)
  case (Suc k)
  show ?case
  proof (cases "n < 10")
    case True
    then show ?thesis by (subst digits_loop_rec) simp
  next
    case False
    with Suc.prems have "0 < k" by (cases k) auto
    moreover have "n div 10 < 10 ^ k" using Suc.prems by (simp add: div_less_iff_less_mult mult.commute)
    ultimately have "length (digits_loop (n div 10) []) \<le> k" by (rule Suc.IH)
    with False show ?thesis by (subst digits_loop_rec) simp
  qed
qed simp


subsection \<open>Properties of the buffer\<close>

definition fresh_buffer :: mqtt_buffer where
  "fresh_buffer = new_buffer (\<lambda>n. Some (replicate n 0)) 0"

lemma fresh_buffer_ok:
  "buf_inv fresh_buffer" "alloc_total (buf_alloc fresh_buffer)" "buf_read_pos fresh_buffer = 0"
  "buf_size fresh_buffer = 0" "contents fresh_buffer = []" "unread fresh_buffer = []"
  by (simp_all add: fresh_buffer_def new_buffer_def buf_inv_def alloc_ok_def alloc_total_def contents_def
      unread_def when_op_def ok_op_def)

text \<open>
  Any sequence of integers put into the buffer, in either byte order and at each width,
  is read back in order by the matching reads, from the position where it starts; with an
  allocator that does not fail every put succeeds.
\<close>

theorem put_get_integers:
  assumes "buf_inv b" "buf_read_pos b \<le> buf_size b" "alloc_total (buf_alloc b)"
  shows "(\<exists>b'. seq_ops (map put_uint16_be ws) b = (None, b') \<and>
      u16_be.get_n (length ws) (skip (length (unread b)) b') = Some (ws, skip (2 * length ws + length (unread b)) b')) \<and>
    (\<exists>b'. seq_ops (map put_uint16_le ws) b = (None, b') \<and>
      u16_le.get_n (length ws) (skip (length (unread b)) b') = Some (ws, skip (2 * length ws + length (unread b)) b')) \<and>
    (\<exists>b'. seq_ops (map put_uint32_be xs) b = (None, b') \<and>
      u32_be.get_n (length xs) (skip (length (unread b)) b') = Some (xs, skip (4 * length xs + length (unread b)) b')) \<and>
    (\<exists>b'. seq_ops (map put_uint32_le xs) b = (None, b') \<and>
      u32_le.get_n (length xs) (skip (length (unread b)) b') = Some (xs, skip (4 * length xs + length (unread b)) b')) \<and>
    (\<exists>b'. seq_ops (map put_uint64_be ys) b = (None, b') \<and>
      u64_be.get_n (length ys) (skip (length (unread b)) b') = Some (ys, skip (8 * length ys + length (unread b)) b')) \<and>
    (\<exists>b'. seq_ops (map put_uint64_le ys) b = (None, b') \<and>
      u64_le.get_n (length ys) (skip (length (unread b)) b') = Some (ys, skip (8 * length ys + length (unread b)) b'))"
  by (intro conjI u16_be.put_get_total u16_le.put_get_total u32_be.put_get_total
    u32_le.put_get_total u64_be.put_get_total u64_le.put_get_total assms)

theorem put_get_integers_witness:
  "\<exists>b'. seq_ops (map put_uint16_be [0x1234, 7]) fresh_buffer = (None, b') \<and>
      u16_be.get_n 2 b' = Some ([0x1234, 7], skip 4 b')"
  using put_get_integers [of fresh_buffer "[0x1234, 7]"] fresh_buffer_ok by (auto simp: skip_def numeral_eq_Suc)

text \<open>
  Inserting a byte at a position inside the contents moves the bytes from that position on
  by one and keeps all others.
\<close>

theorem insert_byte_contents:
  assumes inv: "buf_inv b" and pos: "pos \<le> buf_size b" and ok: "insert_byte pos v b = (None, b')"
  shows "buf_inv b' \<and> contents b' = take pos (contents b) @ v # drop pos (contents b)"
proof -
  obtain r1 b1 where e: "ensure_capacity (buf_size b + 1) b = (r1, b1)" by fastforce
  note room = makes_roomD [OF makes_room_ensure_capacity inv e]
  define d where "d = (if pos < buf_size b1
    then blit (pos + 1) (take (buf_size b1 - pos) (drop pos (buf_data b1))) (buf_data b1)
    else buf_data b1)"
  have b': "b' = b1\<lparr>buf_data := d[pos := v], buf_size := buf_size b1 + 1\<rparr>" and r1: "r1 = None"
    using ok pos e by (cases r1; simp add: insert_byte_def d_def)+
  have size: "buf_size b1 < length (buf_data b1)" "pos \<le> buf_size b1"
    using room r1 pos by (simp_all add: buf_inv_def)
  have len: "length d = length (buf_data b1)"
    using size by (simp add: d_def)
  have "take (buf_size b1 + 1) (d[pos := v]) = take pos (contents b1) @ v # drop pos (contents b1)"
  proof (cases "pos < buf_size b1")
    case True
    then show ?thesis using size blit_insert by (simp add: d_def contents_def)
  next
    case False
    then show ?thesis using size by (simp add: d_def contents_def take_Suc_conv_app_nth)
  qed
  then have "contents b' = take pos (contents b1) @ v # drop pos (contents b1)"
    by (simp add: b' contents_def)
  moreover have "buf_inv b'"
    using room(1) size len by (simp add: b' buf_inv_def)
  ultimately show ?thesis using room(2) by simp
qed

theorem insert_byte_contents_witness:
  "contents (snd (insert_byte 0 0xAB fresh_buffer)) = [0xAB]"
proof -
  let ?b' = "snd (insert_byte 0 0xAB fresh_buffer)"
  have "fst (insert_byte 0 0xAB fresh_buffer) = None"
    by (simp add: insert_byte_def ensure_capacity_def reserve_def allocate_bytes_def fresh_buffer_def
        new_buffer_def Let_def when_op_def ok_op_def)
  then have "insert_byte 0 0xAB fresh_buffer = (None, ?b')" by (metis prod.collapse)
  from insert_byte_contents [OF fresh_buffer_ok(1) _ this] show ?thesis by (simp add: fresh_buffer_ok)
qed

lemma append_decimal_uint_total:
  assumes "buf_inv b" "alloc_total (buf_alloc b)"
  obtains b' ds where "append_decimal_uint v b = (None, b')" "contents b' = contents b @ ds"
    "list_all is_digit ds" "length ds \<le> 20" "decimal_value ds = unat v"
proof -
  have "unat v < 10 ^ 20" using unsigned_less [of v, where ?'a = nat] by simp
  then have "length (digits_loop (unat v) []) \<le> 20" by (intro length_digits_loop) simp_all
  moreover obtain b' where "append_decimal_uint v b = (None, b')" "contents b' = contents b @ digits_loop (unat v) []"
    using emits_success [OF emits_buf_append assms] by (auto simp: append_decimal_uint_def)
  ultimately show thesis using digits_loop_spec by (intro that) auto
qed

lemma unat_magnitude: "v <s 0 \<Longrightarrow> unat (- (v + 1) + 1 :: u64) = nat \<bar>sint v\<bar>"
proof -
  assume "v <s 0"
  then have neg: "sint v < 0" by (simp add: word_sless_alt)
  have "- (v + 1) + 1 = (of_int (- sint v) :: u64)" by simp
  moreover have "0 \<le> - sint v" "- sint v < 2 ^ 64" using neg sint_ge [of v] by simp_all
  ultimately have "uint (- (v + 1) + 1) = - sint v"
    by (simp only: uint_word_of_int_eq take_bit_int_eq_self) (simp add: take_bit_int_eq_self)
  then show ?thesis using neg by (simp add: unat_eq_nat_uint)
qed

lemma unat_nonneg: "\<not> v <s 0 \<Longrightarrow> unat (v :: u64) = nat \<bar>sint v\<bar>"
proof -
  assume "\<not> v <s 0"
  then have "0 \<le> sint v" by (simp add: word_sless_alt)
  moreover have "sint v < 2 ^ 64" using sint_lt [of v] by simp
  ultimately have "uint (of_int (sint v) :: u64) = sint v"
    by (simp only: uint_word_of_int_eq take_bit_int_eq_self) (simp add: take_bit_int_eq_self)
  then show ?thesis using \<open>0 \<le> sint v\<close> by (simp add: unat_eq_nat_uint)
qed

text \<open>
  The decimal writers append the decimal representation: digits only, whose value is the
  number, at most twenty for an unsigned one; a negative number gets a minus sign and its
  magnitude, for the smallest 64-bit integer too.
\<close>

theorem append_decimal_value:
  assumes "buf_inv b" "alloc_total (buf_alloc b)"
  shows "(\<exists>b' ds. append_decimal_uint v b = (None, b') \<and> contents b' = contents b @ ds \<and>
      list_all is_digit ds \<and> length ds \<le> 20 \<and> decimal_value ds = unat v) \<and>
    (\<exists>b' ds. append_decimal_int v b = (None, b') \<and>
      contents b' = contents b @ (if v <s 0 then [0x2D] else []) @ ds \<and>
      list_all is_digit ds \<and> decimal_value ds = nat \<bar>sint v\<bar>)"
proof
  show "\<exists>b' ds. append_decimal_uint v b = (None, b') \<and> contents b' = contents b @ ds \<and>
      list_all is_digit ds \<and> length ds \<le> 20 \<and> decimal_value ds = unat v"
    by (rule append_decimal_uint_total [OF assms, of v]) blast
  show "\<exists>b' ds. append_decimal_int v b = (None, b') \<and>
      contents b' = contents b @ (if v <s 0 then [0x2D] else []) @ ds \<and>
      list_all is_digit ds \<and> decimal_value ds = nat \<bar>sint v\<bar>"
  proof (cases "v <s 0")
    case True
    obtain b1 where b1: "append_byte 0x2D b = (None, b1)" "buf_inv b1" "contents b1 = contents b @ [0x2D]"
      "buf_alloc b1 = buf_alloc b"
      using emits_success [OF emits_buf_append assms] emitsD(2) [OF emits_buf_append assms(1)]
      by (metis append_byte_def)
    obtain b' ds where "append_decimal_uint (- (v + 1) + 1) b1 = (None, b')" "contents b' = contents b1 @ ds"
      "list_all is_digit ds" "decimal_value ds = unat (- (v + 1) + 1)"
      using append_decimal_uint_total [OF b1(2), of "- (v + 1) + 1"] assms(2) b1(4) by metis
    with True b1(1,3) unat_magnitude [OF True] show ?thesis by (simp add: append_decimal_int_def)
  next
    case False
    obtain b' ds where "append_decimal_uint v b = (None, b')" "contents b' = contents b @ ds"
      "list_all is_digit ds" "decimal_value ds = unat v"
      using append_decimal_uint_total [OF assms, of v] by metis
    with False unat_nonneg [OF False] show ?thesis by (simp add: append_decimal_int_def)
  qed
qed

theorem append_decimal_value_witness:
  "\<exists>b' ds. append_decimal_int (- 5) fresh_buffer = (None, b') \<and> contents b' = 0x2D # ds \<and>
     list_all is_digit ds \<and> decimal_value ds = 5"
  using append_decimal_value [OF fresh_buffer_ok(1,2), of "- 5"] by (simp add: fresh_buffer_ok word_sless_alt)

end
