(* ===== verification/Utf8.thy ===== *)
theory Utf8
  imports Prelude
begin

text \<open>
  UTF-8 as RFC 3629 defines it, independent of the code: the encoding of a code point, and
  the interface of a validator that consumes one character per iteration.  The broker has
  two such validators, one for MQTT strings and one for WebSocket text frames; both are
  instances, with different sets of accepted code points.
\<close>

definition scalar_value :: "nat \<Rightarrow> bool" where
  "scalar_value c \<longleftrightarrow> c < 0xD800 \<or> 0xE000 \<le> c \<and> c \<le> 0x10FFFF"

definition cont_byte :: "nat \<Rightarrow> byte" where
  "cont_byte n = of_nat (0x80 + n mod 64)"

definition utf8_encode :: "nat \<Rightarrow> bytes" where
  "utf8_encode c =
     (if c < 0x80 then [of_nat c]
      else if c < 0x800 then [of_nat (0xC0 + c div 64), cont_byte c]
      else if c < 0x10000 then [of_nat (0xE0 + c div 4096), cont_byte (c div 64), cont_byte c]
      else [of_nat (0xF0 + c div 262144), cont_byte (c div 4096), cont_byte (c div 64), cont_byte c])"

lemma utf8_encode_nonempty [simp]: "utf8_encode c \<noteq> []"
  by (simp add: utf8_encode_def)

locale utf8_scanner =
  fixes accepts :: "nat \<Rightarrow> bool"
    and step :: "bytes \<Rightarrow> bytes option"
    and valid :: "bytes \<Rightarrow> bool"
  assumes step_iff: "step bs = Some rest \<longleftrightarrow> (\<exists>c. accepts c \<and> bs = utf8_encode c @ rest)"
    and valid_Nil: "valid []"
    and valid_step: "bs \<noteq> [] \<Longrightarrow> valid bs \<longleftrightarrow> (\<exists>rest. step bs = Some rest \<and> valid rest)"
begin

lemma valid_concat: "list_all accepts cs \<Longrightarrow> valid (concat (map utf8_encode cs))"
  by (induction cs) (auto simp: valid_Nil valid_step step_iff)

lemma valid_decompose: "valid bs \<Longrightarrow> \<exists>cs. list_all accepts cs \<and> bs = concat (map utf8_encode cs)"
proof (induction bs rule: length_induct)
  case (1 bs)
  show ?case
  proof (cases "bs = []")
    case True
    then show ?thesis by (intro exI [of _ "[]"]) simp
  next
    case False
    with 1 obtain rest c where c: "accepts c" "bs = utf8_encode c @ rest" "valid rest"
      by (auto simp: valid_step step_iff)
    then have "length rest < length bs" by (cases "utf8_encode c") simp_all
    with 1 c(3) obtain cs where "list_all accepts cs" "rest = concat (map utf8_encode cs)"
      by blast
    with c show ?thesis by (intro exI [of _ "c # cs"]) simp
  qed
qed

theorem valid_iff: "valid bs \<longleftrightarrow> (\<exists>cs. list_all accepts cs \<and> bs = concat (map utf8_encode cs))"
  using valid_concat valid_decompose by blast

end


subsection \<open>Facts about single bytes\<close>

lemma high_bits_eq:
  "(b :: 'a::len word) AND NOT (mask k) = c AND NOT (mask k) \<longleftrightarrow> unat b div 2 ^ k = unat c div 2 ^ k"
proof -
  have "b AND NOT (mask k) = c AND NOT (mask k) \<longleftrightarrow> drop_bit k b = drop_bit k c"
  proof
    assume eq: "b AND NOT (mask k) = c AND NOT (mask k)"
    have "bit b (k + n) = bit c (k + n)" for n
      using arg_cong [OF eq, of "\<lambda>w. bit w (k + n)"] bit_imp_le_length [of b] bit_imp_le_length [of c]
      by (auto simp: bit_simps)
    then show "drop_bit k b = drop_bit k c" by (simp add: bit_eq_iff bit_simps)
  next
    assume eq: "drop_bit k b = drop_bit k c"
    have "bit b n = bit c n" if "k \<le> n" for n
      using arg_cong [OF eq, of "\<lambda>w. bit w (n - k)"] that by (simp add: bit_simps)
    then show "b AND NOT (mask k) = c AND NOT (mask k)" by (auto simp: bit_eq_iff bit_simps)
  qed
  also have "\<dots> \<longleftrightarrow> unat b div 2 ^ k = unat c div 2 ^ k"
    unfolding word_unat_eq_iff unat_drop_bit_eq by (simp add: drop_bit_eq_div)
  finally show ?thesis .
qed

lemma lead2_range: "(b :: byte) AND 0xE0 = 0xC0 \<longleftrightarrow> 0xC0 \<le> unat b \<and> unat b < 0xE0"
proof -
  have "NOT (mask 5) = (0xE0 :: byte)" "0xC0 AND 0xE0 = (0xC0 :: byte)"
    "unat (0xC0 :: byte) div 2 ^ 5 = 6"
    by code_simp+
  with high_bits_eq [of b 5 "0xC0"] have "b AND 0xE0 = 0xC0 \<longleftrightarrow> unat b div 2 ^ 5 = 6"
    by simp
  then show ?thesis by auto
qed

lemma lead3_range: "(b :: byte) AND 0xF0 = 0xE0 \<longleftrightarrow> 0xE0 \<le> unat b \<and> unat b < 0xF0"
proof -
  have "NOT (mask 4) = (0xF0 :: byte)" "0xE0 AND 0xF0 = (0xE0 :: byte)"
    "unat (0xE0 :: byte) div 2 ^ 4 = 14"
    by code_simp+
  with high_bits_eq [of b 4 "0xE0"] have "b AND 0xF0 = 0xE0 \<longleftrightarrow> unat b div 2 ^ 4 = 14"
    by simp
  then show ?thesis by auto
qed

lemma lead4_range: "(b :: byte) AND 0xF8 = 0xF0 \<longleftrightarrow> 0xF0 \<le> unat b \<and> unat b < 0xF8"
proof -
  have "NOT (mask 3) = (0xF8 :: byte)" "0xF0 AND 0xF8 = (0xF0 :: byte)"
    "unat (0xF0 :: byte) div 2 ^ 3 = 30"
    by code_simp+
  with high_bits_eq [of b 3 "0xF0"] have "b AND 0xF8 = 0xF0 \<longleftrightarrow> unat b div 2 ^ 3 = 30"
    by simp
  then show ?thesis by auto
qed

lemma cont_range: "(b :: byte) AND 0xC0 = 0x80 \<longleftrightarrow> 0x80 \<le> unat b \<and> unat b < 0xC0"
proof -
  have "NOT (mask 6) = (0xC0 :: byte)" "0x80 AND 0xC0 = (0x80 :: byte)"
    "unat (0x80 :: byte) div 2 ^ 6 = 2"
    by code_simp+
  with high_bits_eq [of b 6 "0x80"] have "b AND 0xC0 = 0x80 \<longleftrightarrow> unat b div 2 ^ 6 = 2"
    by simp
  then show ?thesis by auto
qed

lemma unat_and_mask: "unat (w AND mask k) = unat w mod 2 ^ k"
  unfolding take_bit_eq_mask [symmetric] unsigned_take_bit_eq by (rule take_bit_eq_mod)

text \<open>One step of \<^verbatim>\<open>(cp << 6) | (b & 0x3F)\<close>.\<close>

lemma unat_shift6:
  assumes "unat (c :: u32) < 2 ^ 26"
  shows "unat (push_bit 6 c OR ucast ((b :: byte) AND 0x3F)) = 64 * unat c + unat b mod 64"
proof -
  have "push_bit 6 c OR ucast (b AND 0x3F) = push_bit 6 c + (ucast (b AND 0x3F) :: u32)"
    by (rule disjunctive_add_eq_or [symmetric])
       (auto simp: bit_eq_iff bit_simps mask_3F)
  moreover have "unat (ucast (b AND 0x3F) :: u32) = unat b mod 64"
    by (simp add: unsigned_ucast_eq take_bit_nat_eq_self mask_3F unat_and_mask)
  ultimately show ?thesis
    using assms by (simp add: push_bit_eq_mult unat_word_ariths)
qed

lemma unat_cont_byte [simp]: "unat (cont_byte n) = 0x80 + n mod 64"
  unfolding cont_byte_def by (subst unat_of_nat) simp

lemma cont_byte_unat: "0x80 \<le> unat b \<Longrightarrow> unat b < 0xC0 \<Longrightarrow> cont_byte (unat b - 0x80) = b"
  by (simp add: cont_byte_def word_unat_eq_iff unat_of_nat take_bit_nat_eq_self)

lemma cont_byte_cont [simp]: "cont_byte d AND 0xC0 = 0x80"
  by (simp add: cont_range)


subsection \<open>A step by the range of its first byte\<close>

text \<open>Joining the digits of a code point, and cutting it.\<close>

lemma digits2:
  "p < 32 \<Longrightarrow> q < 64 \<Longrightarrow> 0x80 \<le> 64 * p + q \<Longrightarrow>
     utf8_encode (64 * p + q) = [of_nat (0xC0 + p), cont_byte q]"
  by (simp add: utf8_encode_def cont_byte_def)

lemma base64: "r < 64 \<Longrightarrow> (64 * x + r) div 64 = x" "r < 64 \<Longrightarrow> (64 * x + r) mod 64 = (r :: nat)"
  by simp_all

lemma digits3:
  assumes "p < 16" "q < 64" "r < 64" "0x800 \<le> 64 * (64 * p + q) + r"
  shows "utf8_encode (64 * (64 * p + q) + r) = [of_nat (0xE0 + p), cont_byte q, cont_byte r]"
proof -
  define x where "x = 64 * p + q"
  have x: "x div 64 = p" "x mod 64 = q" using assms by (simp_all add: x_def)
  have c: "(64 * x + r) div 64 = x" "(64 * x + r) mod 64 = r" "(64 * x + r) div 4096 = p"
    using assms(3) x div_mult2_eq [of "64 * x + r" 64 64] by simp_all
  have "0x800 \<le> 64 * x + r" "64 * x + r < 0x10000" using assms by (simp_all add: x_def)
  then have "utf8_encode (64 * x + r) = [of_nat (0xE0 + p), cont_byte q, cont_byte r]"
    using c x assms(2,3) by (simp add: utf8_encode_def cont_byte_def)
  then show ?thesis by (simp only: x_def)
qed

lemma digits4:
  assumes "p < 8" "q < 64" "r < 64" "s < 64" "0x10000 \<le> 64 * (64 * (64 * p + q) + r) + s"
  shows "utf8_encode (64 * (64 * (64 * p + q) + r) + s) =
           [of_nat (0xF0 + p), cont_byte q, cont_byte r, cont_byte s]"
proof -
  define x where "x = 64 * p + q"
  define y where "y = 64 * x + r"
  have x: "x div 64 = p" "x mod 64 = q" using assms by (simp_all add: x_def)
  have y: "y div 64 = x" "y mod 64 = r" using assms by (simp_all add: y_def)
  have c: "(64 * y + s) div 64 = y" "(64 * y + s) mod 64 = s" "(64 * y + s) div 4096 = x"
      "(64 * y + s) div 262144 = p"
    using assms(4) x y div_mult2_eq [of "64 * y + s" 64 64] div_mult2_eq [of "64 * y + s" 4096 64]
    by simp_all
  have "0x10000 \<le> 64 * y + s" using assms by (simp add: x_def y_def)
  then have "utf8_encode (64 * y + s) = [of_nat (0xF0 + p), cont_byte q, cont_byte r, cont_byte s]"
    using c x y assms(2,3,4) by (simp add: utf8_encode_def cont_byte_def)
  then show ?thesis by (simp only: x_def y_def)
qed

lemma byte_of_unat: "of_nat (k + (unat (b :: byte) - k)) = b" if "k \<le> unat b"
  using that by simp

lemma split_digits:
  fixes c :: nat
  shows "c < 0x800 \<Longrightarrow> \<exists>p < 32. \<exists>q < 64. c = 64 * p + q"
    and "c < 0x10000 \<Longrightarrow> \<exists>p < 16. \<exists>q < 64. \<exists>r < 64. c = 64 * (64 * p + q) + r"
    and "c < 0x200000 \<Longrightarrow> \<exists>p < 8. \<exists>q < 64. \<exists>r < 64. \<exists>s < 64. c = 64 * (64 * (64 * p + q) + r) + s"
proof -
  have d: "\<exists>x < n. \<exists>r < 64. m = 64 * x + r" if "m < 64 * n" for m n :: nat
    using that by (intro exI [of _ "m div 64"] exI [of _ "m mod 64"] conjI)
      (simp_all add: less_mult_imp_div_less mult.commute)
  show "c < 0x800 \<Longrightarrow> \<exists>p < 32. \<exists>q < 64. c = 64 * p + q" using d [of c 32] by simp
  show "\<exists>p < 16. \<exists>q < 64. \<exists>r < 64. c = 64 * (64 * p + q) + r" if c: "c < 0x10000"
  proof -
    obtain x r where x: "x < 1024" "r < 64" "c = 64 * x + r" using d [of c 1024] c by auto
    obtain p q where "p < 16" "q < 64" "x = 64 * p + q" using d [of x 16] x(1) by auto
    with x show ?thesis by blast
  qed
  show "\<exists>p < 8. \<exists>q < 64. \<exists>r < 64. \<exists>s < 64. c = 64 * (64 * (64 * p + q) + r) + s" if c: "c < 0x200000"
  proof -
    obtain y s where y: "y < 32768" "s < 64" "c = 64 * y + s" using d [of c 32768] c by auto
    obtain x r where x: "x < 512" "r < 64" "y = 64 * x + r" using d [of y 512] y(1) by auto
    obtain p q where "p < 8" "q < 64" "x = 64 * p + q" using d [of x 8] x(1) by auto
    with x y show ?thesis by blast
  qed
qed


text \<open>
  Both validators branch on the range of the first byte; a step that does so, and accepts
  exactly the continuations whose code point is long enough and accepted, is the step of a scanner.
\<close>

locale utf8_steps =
  fixes accepts :: "nat \<Rightarrow> bool"
    and step :: "bytes \<Rightarrow> bytes option"
    and valid :: "bytes \<Rightarrow> bool"
  assumes accepts_small: "c < 0x80 \<Longrightarrow> accepts c"
    and accepts_bound: "accepts c \<Longrightarrow> c < 0x200000"
    and step_0: "step [] = None"
    and step_1: "unat b < 0x80 \<Longrightarrow> step (b # data) = Some data"
    and step_bad: "0x80 \<le> unat b \<Longrightarrow> unat b < 0xC0 \<or> 0xF8 \<le> unat b \<Longrightarrow> step (b # data) = None"
    and step_2: "0xC0 \<le> unat b \<Longrightarrow> unat b < 0xE0 \<Longrightarrow> step (b # data) = Some rest \<longleftrightarrow>
      (\<exists>q < 64. data = cont_byte q # rest \<and> 0x80 \<le> 64 * (unat b - 0xC0) + q \<and> accepts (64 * (unat b - 0xC0) + q))"
    and step_3: "0xE0 \<le> unat b \<Longrightarrow> unat b < 0xF0 \<Longrightarrow> step (b # data) = Some rest \<longleftrightarrow>
      (\<exists>q < 64. \<exists>r < 64. data = cont_byte q # cont_byte r # rest \<and>
         0x800 \<le> 64 * (64 * (unat b - 0xE0) + q) + r \<and> accepts (64 * (64 * (unat b - 0xE0) + q) + r))"
    and step_4: "0xF0 \<le> unat b \<Longrightarrow> unat b < 0xF8 \<Longrightarrow> step (b # data) = Some rest \<longleftrightarrow>
      (\<exists>q < 64. \<exists>r < 64. \<exists>s < 64. data = cont_byte q # cont_byte r # cont_byte s # rest \<and>
         0x10000 \<le> 64 * (64 * (64 * (unat b - 0xF0) + q) + r) + s \<and>
         accepts (64 * (64 * (64 * (unat b - 0xF0) + q) + r) + s))"
    and empty_valid: "valid []"
    and step_valid: "bs \<noteq> [] \<Longrightarrow> valid bs \<longleftrightarrow> (\<exists>rest. step bs = Some rest \<and> valid rest)"
begin

lemma step_sound:
  assumes "step bs = Some rest"
  shows "\<exists>c. accepts c \<and> bs = utf8_encode c @ rest"
proof (cases bs)
  case Nil
  with assms show ?thesis by (simp add: step_0)
next
  case (Cons b data)
  with assms have st: "step (b # data) = Some rest" by simp
  have "unat b < 256" using unsigned_less [of b] by simp
  then consider "unat b < 0x80" | "0x80 \<le> unat b" "unat b < 0xC0 \<or> 0xF8 \<le> unat b"
    | "0xC0 \<le> unat b" "unat b < 0xE0" | "0xE0 \<le> unat b" "unat b < 0xF0"
    | "0xF0 \<le> unat b" "unat b < 0xF8" by linarith
  then show ?thesis
  proof cases
    case 1
    with st Cons show ?thesis
      by (intro exI [of _ "unat b"]) (simp add: step_1 utf8_encode_def accepts_small)
  next
    case 2
    with st show ?thesis using step_bad [OF 2] by simp
  next
    case 3
    with st step_2 [OF 3] obtain q where
      v: "q < 64" "data = cont_byte q # rest" "0x80 \<le> 64 * (unat b - 0xC0) + q"
      and ok: "accepts (64 * (unat b - 0xC0) + q)" by blast
    have "utf8_encode (64 * (unat b - 0xC0) + q) = [of_nat (0xC0 + (unat b - 0xC0)), cont_byte q]"
      using 3 v by (intro digits2) simp_all
    moreover have "of_nat (0xC0 + (unat b - 0xC0)) = b" using 3 by (intro byte_of_unat)
    ultimately have "bs = utf8_encode (64 * (unat b - 0xC0) + q) @ rest" using Cons v(2) by (simp only: append.simps)
    with ok show ?thesis by blast
  next
    case 4
    with st step_3 [OF 4] obtain q r where
      v: "q < 64" "r < 64" "data = cont_byte q # cont_byte r # rest" "0x800 \<le> 64 * (64 * (unat b - 0xE0) + q) + r"
      and ok: "accepts (64 * (64 * (unat b - 0xE0) + q) + r)" by blast
    have "utf8_encode (64 * (64 * (unat b - 0xE0) + q) + r) = [of_nat (0xE0 + (unat b - 0xE0)), cont_byte q, cont_byte r]"
      using 4 v by (intro digits3) simp_all
    moreover have "of_nat (0xE0 + (unat b - 0xE0)) = b" using 4 by (intro byte_of_unat)
    ultimately have "bs = utf8_encode (64 * (64 * (unat b - 0xE0) + q) + r) @ rest" using Cons v(3) by (simp only: append.simps)
    with ok show ?thesis by blast
  next
    case 5
    with st step_4 [OF 5] obtain q r s where
      v: "q < 64" "r < 64" "s < 64" "data = cont_byte q # cont_byte r # cont_byte s # rest"
        "0x10000 \<le> 64 * (64 * (64 * (unat b - 0xF0) + q) + r) + s"
      and ok: "accepts (64 * (64 * (64 * (unat b - 0xF0) + q) + r) + s)" by blast
    have "utf8_encode (64 * (64 * (64 * (unat b - 0xF0) + q) + r) + s) = [of_nat (0xF0 + (unat b - 0xF0)), cont_byte q, cont_byte r, cont_byte s]"
      using 5 v by (intro digits4) simp_all
    moreover have "of_nat (0xF0 + (unat b - 0xF0)) = b" using 5 by (intro byte_of_unat)
    ultimately have "bs = utf8_encode (64 * (64 * (64 * (unat b - 0xF0) + q) + r) + s) @ rest" using Cons v(4) by (simp only: append.simps)
    with ok show ?thesis by blast
  qed
qed

lemma step_complete:
  assumes "accepts c"
  shows "step (utf8_encode c @ rest) = Some rest"
proof -
  consider "c < 0x80" | "0x80 \<le> c" "c < 0x800" | "0x800 \<le> c" "c < 0x10000"
    | "0x10000 \<le> c" "c < 0x200000"
    using accepts_bound [OF assms] by linarith
  then show ?thesis
  proof cases
    case 1
    then show ?thesis by (simp add: utf8_encode_def step_1 unat_of_nat take_bit_nat_eq_self)
  next
    case 2
    then obtain p q where c: "p < 32" "q < 64" "c = 64 * p + q" using split_digits(1) by blast
    then have "unat (of_nat (0xC0 + p) :: byte) = 0xC0 + p" by (subst unat_of_nat) simp
    with c 2 assms have "step (of_nat (0xC0 + p) # cont_byte q # rest) = Some rest"
      by (intro step_2 [THEN iffD2] exI [of _ q] conjI) simp_all
    then show ?thesis using c 2 by (simp only: digits2 append.simps)
  next
    case 3
    then obtain p q r where c: "p < 16" "q < 64" "r < 64" "c = 64 * (64 * p + q) + r"
      using split_digits(2) by blast
    then have "unat (of_nat (0xE0 + p) :: byte) = 0xE0 + p" by (subst unat_of_nat) simp
    with c 3 assms have "step (of_nat (0xE0 + p) # cont_byte q # cont_byte r # rest) = Some rest"
      by (intro step_3 [THEN iffD2] exI [of _ q] exI [of _ r] conjI) simp_all
    then show ?thesis using c 3 by (simp only: digits3 append.simps)
  next
    case 4
    then obtain p q r s where c: "p < 8" "q < 64" "r < 64" "s < 64" "c = 64 * (64 * (64 * p + q) + r) + s"
      using split_digits(3) by blast
    then have "unat (of_nat (0xF0 + p) :: byte) = 0xF0 + p" by (subst unat_of_nat) simp
    with c 4 assms have "step (of_nat (0xF0 + p) # cont_byte q # cont_byte r # cont_byte s # rest) = Some rest"
      by (intro step_4 [THEN iffD2] exI [of _ q] exI [of _ r] exI [of _ s] conjI) simp_all
    then show ?thesis using c 4 by (simp only: digits4 append.simps)
  qed
qed

end

sublocale utf8_steps \<subseteq> utf8_scanner accepts step valid
proof unfold_locales
  fix bs rest
  show "step bs = Some rest \<longleftrightarrow> (\<exists>c. accepts c \<and> bs = utf8_encode c @ rest)"
    using step_sound step_complete by blast
qed (use empty_valid step_valid in auto)

end
