(* ===== verification/Mqtt_Strings.thy ===== *)
theory Mqtt_Strings
  imports Mqtt_Buffer Utf8
begin

text \<open>
  \<^verbatim>\<open>src/common/mqtt_string_utils.{h,cpp}\<close>: length-prefixed UTF-8 strings and binary data,
  their validation, and the wrappers of \<^verbatim>\<open>MQTTParser\<close> that translate the error codes.
  The string helpers have error codes of their own (\<open>str_err\<close>); a failing buffer passes its
  code through them unchanged (\<open>STR_BUFFER\<close>), and \<open>STR_FAULT\<close> marks undefined behaviour
  while reading, which is not a return code and passes through every caller.
\<close>

datatype str_err =
    MQ_STRING_ERR_INVALID_LENGTH
  | MQ_STRING_ERR_INVALID_UTF8
  | MQ_STRING_ERR_BUFFER_TOO_SHORT
  | MQ_STRING_ERR_STRING_TOO_LONG
  | MQ_STRING_ERR_INVALID_CONTROL_CHARS
  | STR_BUFFER mq_err
  | STR_FAULT mq_err

definition MQTT_MAX_STRING_LENGTH :: nat where
  "MQTT_MAX_STRING_LENGTH = 65535"

definition MQTT_MAX_BINARY_LENGTH :: nat where
  "MQTT_MAX_BINARY_LENGTH = 65535"


subsection \<open>Validation\<close>

text \<open>Start byte of a sequence: number of continuation bytes and the bits of the code point.\<close>

definition utf8_lead :: "byte \<Rightarrow> (nat \<times> u32) option" where
  "utf8_lead b =
     (if b AND 0xE0 = 0xC0 then Some (1, ucast (b AND 0x1F))
      else if b AND 0xF0 = 0xE0 then Some (2, ucast (b AND 0x0F))
      else if b AND 0xF8 = 0xF0 then Some (3, ucast (b AND 0x07))
      else None)"

fun utf8_continue :: "nat \<Rightarrow> u32 \<Rightarrow> bytes \<Rightarrow> (u32 \<times> bytes) option" where
  "utf8_continue 0 code_point data = Some (code_point, data)"
| "utf8_continue (Suc n) code_point [] = None"
| "utf8_continue (Suc n) code_point (b # data) =
     (if b AND 0xC0 \<noteq> 0x80 then None
      else utf8_continue n (push_bit 6 code_point OR ucast (b AND 0x3F)) data)"

text \<open>The body of the \<^verbatim>\<open>while\<close> loop: what is left after one character, or rejection.\<close>

fun utf8_step :: "bytes \<Rightarrow> bytes option" where
  "utf8_step [] = None"
| "utf8_step (b # data) =
     (if b < 0x80 then Some data
      else case utf8_lead b of
        None \<Rightarrow> None
      | Some (n, cp) \<Rightarrow>
          if length data < n then None
          else case utf8_continue n cp data of
            None \<Rightarrow> None
          | Some (cp', rest) \<Rightarrow>
              if n = 1 \<and> cp' < 0x80 then None
              else if n = 2 \<and> cp' < 0x800 then None
              else if n = 3 \<and> cp' < 0x10000 then None
              else if (0xD800 \<le> cp' \<and> cp' \<le> 0xDFFF) \<or> cp' > 0x10FFFF then None
              else Some rest)"

lemma utf8_continue_length: "utf8_continue n cp data = Some (cp', rest) \<Longrightarrow> length rest \<le> length data"
  by (induction n cp data rule: utf8_continue.induct) (auto split: if_splits)

lemma utf8_step_length: "utf8_step bs = Some rest \<Longrightarrow> length rest < length bs"
proof (cases bs)
  case (Cons b data)
  moreover assume "utf8_step bs = Some rest"
  ultimately have "length rest \<le> length data"
    using utf8_continue_length by (fastforce split: if_splits option.splits prod.splits)
  with Cons show ?thesis by simp
qed simp

function is_valid_utf8 :: "bytes \<Rightarrow> bool" where
  "is_valid_utf8 bs =
     (if bs = [] then True
      else case utf8_step bs of None \<Rightarrow> False | Some rest \<Rightarrow> is_valid_utf8 rest)"
  by auto
termination by (relation "measure length") (auto dest: utf8_step_length)

declare is_valid_utf8.simps [simp del] utf8_step.simps(2) [simp del]

fun has_control_characters :: "bytes \<Rightarrow> bool" where
  "has_control_characters [] = False"
| "has_control_characters (b # bs) =
     (if b \<le> 0x1F then True
      else if b = 0x7F then True
      else if b = 0xC2 \<and> (case bs of [] \<Rightarrow> False | n # _ \<Rightarrow> 0x80 \<le> n \<and> n \<le> 0x9F) then True
      else has_control_characters bs)"

definition validate_mqtt_string :: "bytes \<Rightarrow> str_err option" where
  "validate_mqtt_string data =
     (if length data > MQTT_MAX_STRING_LENGTH then Some MQ_STRING_ERR_STRING_TOO_LONG
      else if data = [] then None
      else if \<not> is_valid_utf8 data then Some MQ_STRING_ERR_INVALID_UTF8
      else if has_control_characters data then Some MQ_STRING_ERR_INVALID_CONTROL_CHARS
      else None)"


subsection \<open>Length-prefixed strings and binary data\<close>

definition parse_string_impl :: "bytes \<Rightarrow> nat \<Rightarrow> str_err + bytes \<times> nat" where
  "parse_string_impl buffer len =
     (if len < 2 then Inl MQ_STRING_ERR_BUFFER_TOO_SHORT
      else bindE (map_err STR_FAULT (rd16 buffer 0)) (\<lambda>n.
        let str_length = unat n in
        if len < 2 + str_length then Inl MQ_STRING_ERR_BUFFER_TOO_SHORT
        else bindE (map_err STR_FAULT (rd_range buffer 2 str_length)) (\<lambda>str.
          case validate_mqtt_string str of
            Some e \<Rightarrow> Inl e
          | None \<Rightarrow> Inr (str, 2 + str_length))))"

definition parse_binary_data_impl :: "bytes \<Rightarrow> nat \<Rightarrow> str_err + bytes \<times> nat" where
  "parse_binary_data_impl buffer len =
     (if len < 2 then Inl MQ_STRING_ERR_BUFFER_TOO_SHORT
      else bindE (map_err STR_FAULT (rd16 buffer 0)) (\<lambda>n.
        let data_length = unat n in
        if len < 2 + data_length then Inl MQ_STRING_ERR_BUFFER_TOO_SHORT
        else bindE (map_err STR_FAULT (rd_range buffer 2 data_length)) (\<lambda>data.
          Inr (data, 2 + data_length))))"

definition with_prefix :: "bytes \<Rightarrow> mqtt_buffer \<Rightarrow> str_err option \<times> mqtt_buffer" where
  "with_prefix str b =
     (let len = of_nat (length str) :: u16 in
      case seq_ops [push_back (byte_at 1 len), push_back (byte_at 0 len), buf_append str] b of
        (r, b') \<Rightarrow> (map_option STR_BUFFER r, b'))"

definition serialize_string_impl :: "bytes \<Rightarrow> mqtt_buffer \<Rightarrow> str_err option \<times> mqtt_buffer" where
  "serialize_string_impl str b =
     (if length str > MQTT_MAX_STRING_LENGTH then (Some MQ_STRING_ERR_STRING_TOO_LONG, b)
      else case validate_mqtt_string str of
        Some e \<Rightarrow> (Some e, b)
      | None \<Rightarrow> with_prefix str b)"

definition serialize_binary_data_impl :: "bytes \<Rightarrow> mqtt_buffer \<Rightarrow> str_err option \<times> mqtt_buffer" where
  "serialize_binary_data_impl data b =
     (if length data > MQTT_MAX_BINARY_LENGTH then (Some MQ_STRING_ERR_STRING_TOO_LONG, b)
      else with_prefix data b)"

text \<open>The wrappers of \<^verbatim>\<open>MQTTParser\<close>.\<close>

fun map_string_util_error :: "str_err \<Rightarrow> mq_err" where
  "map_string_util_error MQ_STRING_ERR_BUFFER_TOO_SHORT = MQ_ERR_PACKET_INCOMPLETE"
| "map_string_util_error MQ_STRING_ERR_INVALID_UTF8 = MQ_ERR_PACKET_INVALID"
| "map_string_util_error MQ_STRING_ERR_INVALID_CONTROL_CHARS = MQ_ERR_PACKET_INVALID"
| "map_string_util_error MQ_STRING_ERR_STRING_TOO_LONG = MQ_ERR_PACKET_INVALID"
| "map_string_util_error MQ_STRING_ERR_INVALID_LENGTH = MQ_ERR_PACKET_INVALID"
| "map_string_util_error (STR_BUFFER _) = MQ_ERR_PACKET_INVALID"
| "map_string_util_error (STR_FAULT e) = e"

definition parse_mqtt_string :: "bytes \<Rightarrow> nat \<Rightarrow> (bytes \<times> nat) result" where
  "parse_mqtt_string buffer len = map_err map_string_util_error (parse_string_impl buffer len)"

definition parse_binary_data :: "bytes \<Rightarrow> nat \<Rightarrow> (bytes \<times> nat) result" where
  "parse_binary_data buffer len = map_err map_string_util_error (parse_binary_data_impl buffer len)"

definition parse_mqtt_binary_data :: "bytes \<Rightarrow> nat \<Rightarrow> (bytes \<times> nat) result" where
  "parse_mqtt_binary_data buffer len = bindE (rd_range buffer 0 len) (\<lambda>data. Inr (data, len))"

definition map_ser_error :: "(mqtt_buffer \<Rightarrow> str_err option \<times> mqtt_buffer) \<Rightarrow> bop" where
  "map_ser_error f b = (case f b of (r, b') \<Rightarrow> (map_option map_string_util_error r, b'))"

definition serialize_mqtt_string :: "bytes \<Rightarrow> bop" where
  "serialize_mqtt_string str = map_ser_error (serialize_string_impl str)"

definition serialize_binary_data :: "bytes \<Rightarrow> bop" where
  "serialize_binary_data data = map_ser_error (serialize_binary_data_impl data)"


subsection \<open>The validator accepts exactly UTF-8\<close>

lemma unat_lead2: "unat (ucast ((b :: byte) AND 0x1F) :: u32) = unat b mod 32"
  by (simp add: unsigned_ucast_eq take_bit_nat_eq_self unat_and_mask mask_1F)

lemma unat_lead3: "unat (ucast ((b :: byte) AND 0x0F) :: u32) = unat b mod 16"
  by (simp add: unsigned_ucast_eq take_bit_nat_eq_self unat_and_mask mask_0F)

lemma unat_lead4: "unat (ucast ((b :: byte) AND 0x07) :: u32) = unat b mod 8"
  by (simp add: unsigned_ucast_eq take_bit_nat_eq_self unat_and_mask mask_07)

text \<open>The continuation loop in \<^typ>\<open>nat\<close>: base-64 digits appended to the code point.\<close>

lemma utf8_continue_iff:
  "(unat cp + 1) * 64 ^ n \<le> 2 ^ 32 \<Longrightarrow>
   utf8_continue n cp data = Some (cp', rest) \<longleftrightarrow>
     (\<exists>ds. length ds = n \<and> data = map cont_byte ds @ rest \<and> list_all (\<lambda>d. d < 64) ds \<and>
        unat cp' = foldl (\<lambda>c d. 64 * c + d) (unat cp) ds)"
proof (induction n cp data rule: utf8_continue.induct)
  case (3 n cp b data)
  show ?case
  proof (cases "b AND 0xC0 = 0x80")
    case False
    then show ?thesis by (auto simp: Cons_eq_append_conv Cons_eq_map_conv length_Suc_conv)
  next
    case True
    then have b: "0x80 \<le> unat b" "unat b < 0xC0" by (simp_all add: cont_range)
    let ?cp = "push_bit 6 cp OR ucast (b AND 0x3F) :: u32"
    have "(unat cp + 1) * 64 \<le> (unat cp + 1) * 64 * 64 ^ n" by simp
    also have "\<dots> \<le> 2 ^ 32" using "3.prems" by (simp add: algebra_simps)
    finally have small: "unat cp < 2 ^ 26" by simp
    have m: "unat b mod 64 = unat b - 0x80" using b by (simp add: mod_nat_eqI)
    have cp1: "unat ?cp = 64 * unat cp + (unat b - 0x80)"
      using unat_shift6 [OF small, of b] m by simp
    have "(unat ?cp + 1) * 64 ^ n \<le> (unat cp + 1) * 64 * 64 ^ n"
      unfolding cp1 using b by (intro mult_right_mono) simp_all
    also have "\<dots> \<le> 2 ^ 32" using "3.prems" by (simp add: algebra_simps)
    finally have "(unat ?cp + 1) * 64 ^ n \<le> 2 ^ 32" .
    note IH = "3.IH" [OF _ this]
    have "(\<exists>ds. length ds = Suc n \<and> b # data = map cont_byte ds @ rest \<and> list_all (\<lambda>d. d < 64) ds \<and>
          unat cp' = foldl (\<lambda>c d. 64 * c + d) (unat cp) ds) \<longleftrightarrow>
        (\<exists>ds. length ds = n \<and> data = map cont_byte ds @ rest \<and> list_all (\<lambda>d. d < 64) ds \<and>
          unat cp' = foldl (\<lambda>c d. 64 * c + d) (unat ?cp) ds)" (is "?L \<longleftrightarrow> ?R")
    proof
      assume ?L
      then obtain d ds where "length ds = n" "b = cont_byte d" "data = map cont_byte ds @ rest"
        "d < 64" "list_all (\<lambda>d. d < 64) ds" "unat cp' = foldl (\<lambda>c d. 64 * c + d) (64 * unat cp + d) ds"
        by (auto simp: length_Suc_conv)
      then show ?R using cp1 by auto
    next
      assume ?R
      then obtain ds where "length ds = n" "data = map cont_byte ds @ rest"
        "list_all (\<lambda>d. d < 64) ds" "unat cp' = foldl (\<lambda>c d. 64 * c + d) (unat ?cp) ds" by blast
      then show ?L using b cp1 by (intro exI [of _ "(unat b - 0x80) # ds"]) (simp add: cont_byte_unat)
    qed
    with IH True show ?thesis by simp
  qed
qed (auto simp: word_unat_eq_iff)


lemma ex_length1: "(\<exists>ds. length ds = 1 \<and> P ds) \<longleftrightarrow> (\<exists>q. P [q])"
  by (auto simp: length_Suc_conv)

lemma ex_length2: "(\<exists>ds. length ds = 2 \<and> P ds) \<longleftrightarrow> (\<exists>q r. P [q, r])"
  by (auto simp: length_Suc_conv numeral_eq_Suc)

lemma ex_length3: "(\<exists>ds. length ds = 3 \<and> P ds) \<longleftrightarrow> (\<exists>q r s. P [q, r, s])"
  by (simp add: length_Suc_conv numeral_eq_Suc) blast

text \<open>One iteration, by the range of the start byte.\<close>

lemma utf8_step_1: "unat b < 0x80 \<Longrightarrow> utf8_step (b # data) = Some data"
  by (simp add: word_less_nat_alt utf8_step.simps(2))

definition code_point_ok :: "nat \<Rightarrow> nat \<Rightarrow> bool" where
  "code_point_ok n c \<longleftrightarrow> (n = 1 \<longrightarrow> 0x80 \<le> c) \<and> (n = 2 \<longrightarrow> 0x800 \<le> c) \<and> (n = 3 \<longrightarrow> 0x10000 \<le> c) \<and>
     scalar_value c"

lemma foldl_base64_bound:
  "list_all (\<lambda>d. d < 64) ds \<Longrightarrow> foldl (\<lambda>c d. 64 * c + d) (c :: nat) ds < (c + 1) * 64 ^ length ds"
proof (induction ds arbitrary: c)
  case (Cons d ds)
  then have "foldl (\<lambda>c d. 64 * c + d) (64 * c + d) ds < (64 * c + d + 1) * 64 ^ length ds" by simp
  also have "\<dots> \<le> (64 * c + 64) * 64 ^ length ds" using Cons.prems by (intro mult_right_mono) simp_all
  finally show ?case by (simp add: algebra_simps)
qed simp

lemma utf8_step_multi:
  assumes hi: "0x80 \<le> unat b" and lead: "utf8_lead b = Some (n, cp)"
    and fits: "(unat cp + 1) * 64 ^ n \<le> 2 ^ 32"
  shows "utf8_step (b # data) = Some rest \<longleftrightarrow>
    (\<exists>ds. length ds = n \<and> data = map cont_byte ds @ rest \<and> list_all (\<lambda>d. d < 64) ds \<and>
       code_point_ok n (foldl (\<lambda>c d. 64 * c + d) (unat cp) ds))" (is "_ \<longleftrightarrow> ?R")
proof -
  have "utf8_step (b # data) = Some rest \<longleftrightarrow>
    (\<exists>cp'. n \<le> length data \<and> utf8_continue n cp data = Some (cp', rest) \<and> code_point_ok n (unat cp'))"
    using hi by (auto simp: lead utf8_step.simps(2) word_less_nat_alt word_le_nat_alt code_point_ok_def scalar_value_def
        split: option.splits if_splits)
  also have "\<dots> \<longleftrightarrow> ?R"
  proof
    assume ?R
    then obtain ds where ds: "length ds = n" "data = map cont_byte ds @ rest" "list_all (\<lambda>d. d < 64) ds"
      "code_point_ok n (foldl (\<lambda>c d. 64 * c + d) (unat cp) ds)" by blast
    let ?c = "foldl (\<lambda>c d. 64 * c + d) (unat cp) ds"
    have "?c < 2 ^ 32" using foldl_base64_bound [OF ds(3), of "unat cp"] ds(1) fits by simp
    then have "unat (of_nat ?c :: u32) = ?c" by (simp add: unat_of_nat take_bit_nat_eq_self)
    with ds show "\<exists>cp'. n \<le> length data \<and> utf8_continue n cp data = Some (cp', rest) \<and> code_point_ok n (unat cp')"
      using utf8_continue_iff [OF fits] by (intro exI [of _ "of_nat ?c"]) auto
  qed (auto simp: utf8_continue_iff [OF fits])
  finally show ?thesis .
qed

lemma utf8_step_2:
  assumes "0xC0 \<le> unat b" "unat b < 0xE0"
  shows "utf8_step (b # data) = Some rest \<longleftrightarrow>
    (\<exists>q < 64. data = cont_byte q # rest \<and> code_point_ok 1 (64 * (unat b - 0xC0) + q))"
proof -
  have m: "unat (ucast (b AND 0x1F) :: u32) = unat b - 0xC0"
    using assms by (simp add: unat_lead2 mod_nat_eqI)
  have lead: "utf8_lead b = Some (1, ucast (b AND 0x1F))"
    using assms by (simp add: utf8_lead_def lead2_range)
  show ?thesis
    using assms by (subst utf8_step_multi [OF _ lead]) (auto simp: m ex_length1 [unfolded One_nat_def])
qed

lemma utf8_step_3:
  assumes "0xE0 \<le> unat b" "unat b < 0xF0"
  shows "utf8_step (b # data) = Some rest \<longleftrightarrow>
    (\<exists>q < 64. \<exists>r < 64. data = cont_byte q # cont_byte r # rest \<and>
       code_point_ok 2 (64 * (64 * (unat b - 0xE0) + q) + r))"
proof -
  have m: "unat (ucast (b AND 0x0F) :: u32) = unat b - 0xE0"
    using assms by (simp add: unat_lead3 mod_nat_eqI)
  have lead: "utf8_lead b = Some (2, ucast (b AND 0x0F))"
    using assms by (simp add: utf8_lead_def lead2_range lead3_range)
  show ?thesis
    using assms by (subst utf8_step_multi [OF _ lead]) (auto simp: m ex_length2 [unfolded One_nat_def])
qed

lemma utf8_step_4:
  assumes "0xF0 \<le> unat b" "unat b < 0xF8"
  shows "utf8_step (b # data) = Some rest \<longleftrightarrow>
    (\<exists>q < 64. \<exists>r < 64. \<exists>s < 64. data = cont_byte q # cont_byte r # cont_byte s # rest \<and>
       code_point_ok 3 (64 * (64 * (64 * (unat b - 0xF0) + q) + r) + s))"
proof -
  have m: "unat (ucast (b AND 0x07) :: u32) = unat b - 0xF0"
    using assms by (simp add: unat_lead4 mod_nat_eqI)
  have lead: "utf8_lead b = Some (3, ucast (b AND 0x07))"
    using assms by (simp add: utf8_lead_def lead2_range lead3_range lead4_range)
  show ?thesis
    using assms by (subst utf8_step_multi [OF _ lead]) (auto simp: m ex_length3 [unfolded One_nat_def])
qed

lemma utf8_step_bad:
  assumes "0x80 \<le> unat b" "unat b < 0xC0 \<or> 0xF8 \<le> unat b"
  shows "utf8_step (b # data) = None"
proof -
  have "utf8_lead b = None"
    using assms by (auto simp: utf8_lead_def lead2_range lead3_range lead4_range)
  then show ?thesis using assms by (simp add: word_less_nat_alt utf8_step.simps(2))
qed

interpretation mqtt_utf8: utf8_steps scalar_value utf8_step is_valid_utf8
proof unfold_locales
  show "c < 0x200000" if "scalar_value c" for c using that unfolding scalar_value_def by linarith
  show "is_valid_utf8 bs \<longleftrightarrow> (\<exists>rest. utf8_step bs = Some rest \<and> is_valid_utf8 rest)" if "bs \<noteq> []" for bs
    using that by (subst is_valid_utf8.simps) (simp split: option.splits)
qed (simp_all add: utf8_step_1 utf8_step_2 utf8_step_3 utf8_step_4 utf8_step_bad code_point_ok_def scalar_value_def is_valid_utf8.simps)


subsection \<open>Control characters\<close>

definition control_char :: "nat \<Rightarrow> bool" where
  "control_char c \<longleftrightarrow> c \<le> 0x1F \<or> 0x7F \<le> c \<and> c \<le> 0x9F"

lemma has_control_char_encode:
  assumes "scalar_value c"
  shows "has_control_characters (utf8_encode c @ rest) \<longleftrightarrow> control_char c \<or> has_control_characters rest"
proof -
  consider "c < 0x80" | "0x80 \<le> c" "c < 0x800" | "0x800 \<le> c" "c < 0x10000"
    | "0x10000 \<le> c" "c < 0x200000"
    using assms unfolding scalar_value_def by linarith
  then show ?thesis
  proof cases
    case 1
    then have "unat (of_nat c :: byte) = c" by (subst unat_of_nat) simp
    with 1 show ?thesis
      by (auto simp: utf8_encode_def control_char_def word_le_nat_alt word_unat_eq_iff)
  next
    case 2
    then have b: "unat (of_nat (0xC0 + c div 64) :: byte) = 0xC0 + c div 64" by (subst unat_of_nat) simp
    obtain p q where c: "p < 32" "q < 64" "c = 64 * p + q" using split_digits(1) 2(2) by blast
    then have "c div 64 = p" "c mod 64 = q" by simp_all
    moreover have "64 * p + q \<le> 0x9F \<longleftrightarrow> p = 2 \<and> q \<le> 0x1F" if "0x80 \<le> 64 * p + q"
      using that c(2) by presburger
    ultimately have "control_char c \<longleftrightarrow> 0xC0 + c div 64 = 0xC2 \<and> 0x80 + c mod 64 \<le> 0x9F"
      using 2 c by (simp add: control_char_def)
    with 2 b show ?thesis
      by (auto simp: utf8_encode_def word_le_nat_alt word_unat_eq_iff simp del: of_nat_add)
  next
    case 3
    then have "unat (of_nat (0xE0 + c div 4096) :: byte) = 0xE0 + c div 4096" by (subst unat_of_nat) simp
    with 3 show ?thesis
      by (auto simp: utf8_encode_def control_char_def word_le_nat_alt word_unat_eq_iff simp del: of_nat_add)
  next
    case 4
    then have "unat (of_nat (0xF0 + c div 262144) :: byte) = 0xF0 + c div 262144" by (subst unat_of_nat) simp
    with 4 show ?thesis
      by (auto simp: utf8_encode_def control_char_def word_le_nat_alt word_unat_eq_iff simp del: of_nat_add)
  qed
qed

lemma has_control_characters_concat:
  "list_all scalar_value cs \<Longrightarrow>
     has_control_characters (concat (map utf8_encode cs)) \<longleftrightarrow> list_ex control_char cs"
  by (induction cs) (auto simp: has_control_char_encode)

text \<open>What an MQTT string is, stated on code points.\<close>

definition mqtt_text :: "nat list \<Rightarrow> bool" where
  "mqtt_text cs \<longleftrightarrow> list_all (\<lambda>c. scalar_value c \<and> \<not> control_char c) cs"

lemma mqtt_text_alt: "mqtt_text cs \<longleftrightarrow> list_all scalar_value cs \<and> \<not> list_ex control_char cs"
  by (auto simp: mqtt_text_def list_all_iff list_ex_iff)

lemma validate_mqtt_string_ok:
  "validate_mqtt_string bs = None \<longleftrightarrow>
     length bs \<le> MQTT_MAX_STRING_LENGTH \<and> (\<exists>cs. mqtt_text cs \<and> bs = concat (map utf8_encode cs))"
proof -
  have "is_valid_utf8 bs \<and> \<not> has_control_characters bs \<longleftrightarrow>
      (\<exists>cs. mqtt_text cs \<and> bs = concat (map utf8_encode cs))"
    unfolding mqtt_utf8.valid_iff mqtt_text_alt
    using has_control_characters_concat by blast
  moreover have "is_valid_utf8 []" by (rule mqtt_utf8.valid_Nil)
  ultimately show ?thesis by (auto simp: validate_mqtt_string_def)
qed



subsection \<open>Parsing and serializing strings\<close>

definition str_ok :: "bytes \<Rightarrow> bool" where
  "str_ok str \<longleftrightarrow> validate_mqtt_string str = None"

definition enc_string :: "bytes \<Rightarrow> bytes" where
  "enc_string str = be_bytes 2 (of_nat (length str) :: u16) @ str"

lemma length_enc_string [simp]: "length (enc_string str) = 2 + length str"
  by (simp add: enc_string_def)

lemma str_ok_length: "str_ok str \<Longrightarrow> length str \<le> 65535"
  by (auto simp: str_ok_def validate_mqtt_string_def MQTT_MAX_STRING_LENGTH_def split: if_splits)

lemma str_ok_Nil [simp]: "str_ok []"
  by (simp add: str_ok_def validate_mqtt_string_def)

lemma unat_length16 [simp]: "length xs \<le> 65535 \<Longrightarrow> unat (of_nat (length xs) :: u16) = length xs"
  by (simp add: unat_of_nat take_bit_nat_eq_self)

lemma emits_map_ser_error:
  assumes f: "\<And>b. f b = (case g b of (r, b') \<Rightarrow> (map_option h r, b'))" and g: "emits g bs"
  shows "emits (map_ser_error f) bs"
  unfolding emits_def
proof (intro allI impI)
  fix b r b'
  assume inv: "buf_inv b" and eq: "map_ser_error f b = (r, b')"
  obtain r1 b1 where e: "g b = (r1, b1)" by fastforce
  with eq f [of b] have "b' = b1" "r = None \<longleftrightarrow> r1 = None"
    by (auto simp: map_ser_error_def)
  with emitsD [OF g inv e]
  show "buf_inv b' \<and> buf_alloc b' = buf_alloc b \<and> buf_read_pos b' = buf_read_pos b \<and>
     (r = None \<and> contents b' = contents b @ bs \<or>
      r \<noteq> None \<and> \<not> alloc_total (buf_alloc b) \<and>
        (\<exists>p. prefix p bs \<and> contents b' = contents b @ p))" by blast
qed

lemma emits_with_prefix: "emits (map_ser_error (with_prefix str)) (enc_string str)"
proof (rule emits_map_ser_error)
  let ?n = "of_nat (length str) :: u16"
  show "emits (seq_ops [push_back (byte_at 1 ?n), push_back (byte_at 0 ?n), buf_append str]) (enc_string str)"
    by (rule emits_eq, (rule emits_seq_Cons emits_seq_Nil emit_intros)+)
      (simp add: enc_string_def be_bytes_2)
qed (simp add: with_prefix_def Let_def)

lemma emits_string [emit_intros]: "str_ok str \<Longrightarrow> emits (serialize_mqtt_string str) (enc_string str)"
proof -
  assume ok: "str_ok str"
  then have "serialize_string_impl str = with_prefix str"
    using str_ok_length [OF ok]
    by (simp add: serialize_string_impl_def str_ok_def MQTT_MAX_STRING_LENGTH_def fun_eq_iff)
  then show ?thesis by (simp add: serialize_mqtt_string_def emits_with_prefix)
qed

lemma emits_binary [emit_intros]:
  "length data \<le> 65535 \<Longrightarrow> emits (serialize_binary_data data) (enc_string data)"
proof -
  assume "length data \<le> 65535"
  then have "serialize_binary_data_impl data = with_prefix data"
    by (simp add: serialize_binary_data_impl_def MQTT_MAX_BINARY_LENGTH_def fun_eq_iff)
  then show ?thesis by (simp add: serialize_binary_data_def emits_with_prefix)
qed

text \<open>A string the serializer refuses leaves the buffer as it was.\<close>

lemma serialize_mqtt_string_reject:
  "\<not> str_ok str \<Longrightarrow> serialize_mqtt_string str b = (Some MQ_ERR_PACKET_INVALID, b)"
  by (auto simp: serialize_mqtt_string_def map_ser_error_def serialize_string_impl_def str_ok_def
      validate_mqtt_string_def split: if_splits)

lemma rd16_enc_string [simp]:
  "rd16 (enc_string str @ rest) 0 = Inr (of_nat (length str))"
  using rd16_be_bytes [of 0 "[]"] by (simp add: enc_string_def)

lemma rd_range_enc_string [simp]:
  "rd_range (enc_string str @ rest) 2 (length str) = Inr str"
  by (simp add: enc_string_def)

lemma parse_mqtt_string_enc [simp]:
  "str_ok str \<Longrightarrow> 2 + length str \<le> len \<Longrightarrow>
     parse_mqtt_string (enc_string str @ rest) len = Inr (str, 2 + length str)"
  using str_ok_length [of str]
  by (simp add: parse_mqtt_string_def parse_string_impl_def str_ok_def)

lemma parse_binary_data_enc [simp]:
  "length data \<le> 65535 \<Longrightarrow> 2 + length data \<le> len \<Longrightarrow>
     parse_binary_data (enc_string data @ rest) len = Inr (data, 2 + length data)"
  by (simp add: parse_binary_data_def parse_binary_data_impl_def)

lemma parse_mqtt_string_Inr:
  assumes "parse_mqtt_string buffer len = Inr (str, n)"
  shows "str_ok str" "n = 2 + length str" "n \<le> len" "n \<le> length buffer"
    "take n buffer = enc_string str"
proof -
  from assms obtain w where w: "rd16 buffer 0 = Inr w" "rd_range buffer 2 (unat w) = Inr str"
    "n = 2 + unat w" "n \<le> len" "str_ok str" "2 \<le> len"
    by (auto simp: parse_mqtt_string_def parse_string_impl_def bindE_eq_Inr Let_def str_ok_def
        split: if_splits option.splits)
  show "str_ok str" "n \<le> len" using w by simp_all
  have len: "1 < length buffer" using w rd16_eq_Inr by fastforce
  have body: "2 + unat w \<le> length buffer \<and> str = take (unat w) (drop 2 buffer)"
    using w(2) len by (auto simp: rd_range_def split: if_splits)
  then have l: "length str = unat w" by auto
  show "n = 2 + length str" "n \<le> length buffer" using w body l by simp_all
  obtain x y rest where b: "buffer = x # y # rest" using len by (cases buffer; cases "tl buffer") auto
  then have "w = be_word [x, y]" using w(1) rd16_in [of 0 buffer] len by simp
  then have "be_bytes 2 w = take 2 buffer" using b be_bytes_be_word [of "[x, y]" 2, where ?'a = 16] by simp
  moreover have "of_nat (length str) = w" using l by simp
  ultimately show "take n buffer = enc_string str"
    using body w(3) take_add [of 2 "unat w" buffer] by (simp add: enc_string_def)
qed

text \<open>
  C28.  \<^verbatim>\<open>validate_mqtt_string\<close> accepts exactly the strings of at most 65535 bytes that are
  the UTF-8 encoding of a sequence of Unicode scalar values without control characters:
  overlong forms, surrogates, truncated sequences and values above U+10FFFF are refused.
\<close>

theorem validate_mqtt_string_characterised:
  "validate_mqtt_string bs = None \<longleftrightarrow>
     length bs \<le> 65535 \<and> (\<exists>cs. list_all scalar_value cs \<and> \<not> list_ex control_char cs \<and> bs = concat (map utf8_encode cs))"
  unfolding validate_mqtt_string_ok mqtt_text_alt MQTT_MAX_STRING_LENGTH_def by auto

text \<open>
  C34.  An MQTT string that validates is written as its two-byte length and its bytes, and
  parses back to itself with that many bytes consumed; one that does not validate is refused
  with the buffer unchanged.
\<close>

theorem mqtt_string_roundtrip:
  assumes "buf_inv b" "alloc_total (buf_alloc b)"
  shows "(validate_mqtt_string str = None \<longrightarrow>
      (\<exists>b'. serialize_mqtt_string str b = (None, b') \<and>
        parse_mqtt_string (drop (buf_size b) (contents b') @ rest) (2 + length str + length rest) =
          Inr (str, 2 + length str))) \<and>
    (validate_mqtt_string str \<noteq> None \<longrightarrow> serialize_mqtt_string str b = (Some MQ_ERR_PACKET_INVALID, b))"
proof (intro conjI impI)
  assume "validate_mqtt_string str = None"
  then have ok: "str_ok str" by (simp add: str_ok_def)
  obtain b' where "serialize_mqtt_string str b = (None, b')" "contents b' = contents b @ enc_string str"
    using emits_success [OF emits_string [OF ok] assms] by blast
  with ok assms(1) show "\<exists>b'. serialize_mqtt_string str b = (None, b') \<and>
      parse_mqtt_string (drop (buf_size b) (contents b') @ rest) (2 + length str + length rest) =
        Inr (str, 2 + length str)" by simp
qed (simp add: serialize_mqtt_string_reject str_ok_def)

theorem mqtt_string_roundtrip_witness:
  "\<exists>b'. serialize_mqtt_string [0x61, 0x2F] fresh_buffer = (None, b') \<and>
     parse_mqtt_string (contents b') 4 = Inr ([0x61, 0x2F], 4)"
proof -
  have "validate_mqtt_string [0x61, 0x2F] = None"
    by (simp add: validate_mqtt_string_def MQTT_MAX_STRING_LENGTH_def is_valid_utf8.simps utf8_step.simps)
  then show ?thesis
    using mqtt_string_roundtrip [OF fresh_buffer_ok(1,2), of "[0x61, 0x2F]" "[]"] by (simp add: fresh_buffer_ok)
qed

end
