(* ===== verification/Mqtt_Varint.thy ===== *)
theory Mqtt_Varint
  imports Mqtt_Buffer Utf8
begin

text \<open>
  The variable byte integer of MQTT: \<^verbatim>\<open>parse_remaining_length\<close> and
  \<^verbatim>\<open>serialize_remaining_length\<close> of \<^verbatim>\<open>src/protocol/mqtt_parser.cpp\<close>.  The main facts are the
  round trip for every value below \<open>2 ^ 28\<close> and that the parser accepts nothing larger.
\<close>

text \<open>
  The parser's loop; the arguments are its local variables.  \<^verbatim>\<open>remaining_length\<close> and
  \<^verbatim>\<open>multiplier\<close> are 32-bit and wrap.
\<close>

function parse_rl_loop :: "bytes \<Rightarrow> nat \<Rightarrow> u32 \<Rightarrow> nat \<Rightarrow> u32 \<Rightarrow> (u32 \<times> nat) result" where
  "parse_rl_loop buffer len remaining_length bytes_read multiplier =
     (if len \<le> bytes_read then Inl MQ_ERR_PACKET_INCOMPLETE
      else if 4 \<le> bytes_read then Inl MQ_ERR_PACKET_INVALID
      else bindE (rd buffer bytes_read) (\<lambda>b.
        let remaining_length' = remaining_length + ucast (b AND 0x7F) * multiplier in
        if multiplier > 128 * 128 * 128 then Inl MQ_ERR_PACKET_INVALID
        else if b AND 0x80 = 0 then Inr (remaining_length', bytes_read + 1)
        else parse_rl_loop buffer len remaining_length' (bytes_read + 1) (multiplier * 128)))"
  by pat_completeness auto
termination by (relation "measure (\<lambda>(_, _, _, n, _). 4 - n)") auto

declare parse_rl_loop.simps [simp del]

definition parse_remaining_length :: "bytes \<Rightarrow> nat \<Rightarrow> (u32 \<times> nat) result" where
  "parse_remaining_length buffer len = parse_rl_loop buffer len 0 0 1"

function serialize_remaining_length :: "u32 \<Rightarrow> bop" where
  "serialize_remaining_length remaining_length =
     (let b = ucast (remaining_length mod 128);
          rest = remaining_length div 128
      in then_op (push_back (if rest > 0 then b OR 0x80 else b))
           (if rest > 0 then serialize_remaining_length rest else ok_op))"
  by auto
termination
  by (relation "measure unat") (auto simp: word_less_nat_alt unat_div)

declare serialize_remaining_length.simps [simp del]


subsection \<open>The encoding\<close>

fun varint :: "nat \<Rightarrow> bytes" where
  "varint n = (if n < 128 then [of_nat n] else of_nat (128 + n mod 128) # varint (n div 128))"

declare varint.simps [simp del]

lemma varint_nonempty [simp]: "varint n \<noteq> []"
  by (subst varint.simps) simp

lemma length_varint_pos [simp]: "0 < length (varint n)"
  by simp

lemma length_varint_le: "n < 128 ^ Suc k \<Longrightarrow> length (varint n) \<le> Suc k"
proof (induction k arbitrary: n)
  case (Suc k)
  then have "n div 128 < 128 ^ Suc k" by (simp add: div_less_iff_less_mult mult.commute)
  with Suc.IH show ?case by (subst varint.simps) auto
qed (subst varint.simps, simp)

lemma length_varint_ge: "128 ^ k \<le> n \<Longrightarrow> Suc k \<le> length (varint n)"
proof (induction k arbitrary: n)
  case (Suc k)
  then have "128 ^ k \<le> n div 128" by (simp add: less_eq_div_iff_mult_less_eq mult.commute)
  moreover have "\<not> n < 128" using Suc.prems by (auto simp: not_less intro: order_trans [rotated])
  ultimately show ?case using Suc.IH by (subst varint.simps) auto
qed (simp add: Suc_leI)

lemma low7: "(of_nat n :: byte) AND 0x7F = of_nat (n mod 128)"
  by (simp add: mask_7F word_unat_eq_iff unat_and_mask unat_of_nat take_bit_eq_mod mod_mod_cancel)

lemma high_bit: "(b :: byte) AND 0x80 = 0 \<longleftrightarrow> unat b < 128"
proof -
  have "(0x80 :: byte) = NOT (mask 7)" by code_simp
  then have "b AND 0x80 = 0 \<longleftrightarrow> b AND NOT (mask 7) = 0 AND NOT (mask 7)" by simp
  also have "\<dots> \<longleftrightarrow> unat b div 2 ^ 7 = 0" by (subst high_bits_eq) simp
  finally show ?thesis by (simp add: div_eq_0_iff)
qed

lemma emits_remaining_length [emit_intros]: "emits (serialize_remaining_length n) (varint (unat n))"
proof (induction n rule: serialize_remaining_length.induct)
  case (1 n)
  have low: "ucast (n mod 128) = (of_nat (unat n mod 128) :: byte)"
    by (simp add: word_unat_eq_iff unat_mod unsigned_ucast_eq unat_of_nat take_bit_nat_eq_self)
  have high: "(of_nat (unat n mod 128) :: byte) OR 0x80 = of_nat (128 + unat n mod 128)"
  proof -
    have "(of_nat (unat n mod 128) :: byte) AND 0x80 = 0"
      by (simp add: high_bit unat_of_nat take_bit_eq_mod mod_mod_cancel less_le_trans [OF mod_less_divisor])
    then show ?thesis by (simp add: disjunctive_add_eq_or [symmetric] add.commute)
  qed
  have gt: "n div 128 > 0 \<longleftrightarrow> \<not> unat n < 128"
    by (simp add: word_less_nat_alt unat_div div_greater_zero_iff not_less)
  show ?case
  proof (cases "unat n < 128")
    case True
    have "emits (then_op (push_back (of_nat (unat n mod 128))) ok_op) ([of_nat (unat n mod 128)] @ [])"
      by (intro emits_then emit_intros)
    with True gt low show ?thesis
      by (subst serialize_remaining_length.simps, subst varint.simps) simp
  next
    case False
    then have "n div 128 > 0" using gt by simp
    note IH = 1 [OF refl refl this]
    have "emits (then_op (push_back (of_nat (128 + unat n mod 128))) (serialize_remaining_length (n div 128)))
        ([of_nat (128 + unat n mod 128)] @ varint (unat (n div 128)))"
      by (intro emits_then emit_intros IH)
    with False gt low high show ?thesis
      by (subst serialize_remaining_length.simps, subst varint.simps) (simp add: unat_div)
  qed
qed


subsection \<open>Parsing it\<close>

lemma parse_rl_loop_varint:
  assumes "bytes_read + length (varint n) \<le> 4" "bytes_read + length (varint n) \<le> len"
    "length pre = bytes_read"
  shows "parse_rl_loop (pre @ varint n @ rest) len rl bytes_read (128 ^ bytes_read) =
    Inr (rl + of_nat n * 128 ^ bytes_read, bytes_read + length (varint n))"
  using assms
proof (induction n arbitrary: pre bytes_read rl rule: varint.induct)
  case (1 n)
  have k: "bytes_read < 4" "bytes_read < len" using 1 length_varint_pos [of n] by linarith+
  then consider "bytes_read = 0" | "bytes_read = 1" | "bytes_read = 2" | "bytes_read = 3" by linarith
  then have small: "\<not> (128 :: u32) ^ bytes_read > 128 * 128 * 128"
    by cases (simp_all add: word_less_nat_alt)
  show ?case
  proof (cases "n < 128")
    case True
    then have v: "varint n = [of_nat n]" by (subst varint.simps) simp
    have "unat (of_nat n :: byte) < 128" using True by (simp add: unat_of_nat take_bit_nat_eq_self)
    then show ?thesis
      using 1(4) k small True
      by (subst parse_rl_loop.simps) (simp add: v low7 high_bit Let_def unsigned_of_nat take_bit_nat_eq_self)
  next
    case False
    then have v: "varint n = of_nat (128 + n mod 128) # varint (n div 128)" by (subst varint.simps) simp
    let ?b = "of_nat (128 + n mod 128) :: byte"
    have "\<not> unat ?b < 128" by (subst unat_of_nat) simp
    moreover have "(ucast (?b AND 0x7F) :: u32) = of_nat (n mod 128)"
      unfolding low7 by (simp add: word_unat_eq_iff unsigned_ucast_eq unat_of_nat take_bit_eq_mod mod_mod_cancel)
    moreover have "(of_nat n :: u32) = of_nat (n mod 128) + of_nat (n div 128) * 128"
      by (metis mod_div_mult_eq of_nat_add of_nat_mult of_nat_numeral)
    moreover have "parse_rl_loop ((pre @ [?b]) @ varint (n div 128) @ rest) len
        (rl + of_nat (n mod 128) * 128 ^ bytes_read) (bytes_read + 1) (128 ^ (bytes_read + 1)) =
      Inr (rl + of_nat (n mod 128) * 128 ^ bytes_read + of_nat (n div 128) * 128 ^ (bytes_read + 1),
           bytes_read + 1 + length (varint (n div 128)))"
      using 1 False v by (intro "1.IH") simp_all
    ultimately show ?thesis
      using 1(4) k small
      by (subst parse_rl_loop.simps) (simp add: v high_bit Let_def algebra_simps del: of_nat_add)
  qed
qed

lemma parse_remaining_length_varint [simp]:
  "length (varint n) \<le> 4 \<Longrightarrow> length (varint n) \<le> len \<Longrightarrow>
     parse_remaining_length (varint n @ rest) len = Inr (of_nat n, length (varint n))"
  using parse_rl_loop_varint [of 0 n len "[]" rest 0] by (simp add: parse_remaining_length_def)

lemma parse_rl_loop_Inr:
  "parse_rl_loop buffer len rl k m = Inr (n, k') \<Longrightarrow>
     k < k' \<and> k' \<le> 4 \<and> k' \<le> len \<and> k' \<le> length buffer"
proof (induction buffer len rl k m rule: parse_rl_loop.induct)
  case (1 buffer len rl k m)
  from "1.prems" obtain b where b: "k < len" "k < 4" "k < length buffer" "rd buffer k = Inr b"
    "\<not> 128 * 128 * 128 < m"
    by (subst (asm) parse_rl_loop.simps) (auto simp: bindE_eq_Inr Let_def rd_eq_Inr split: if_splits)
  show ?case
  proof (cases "b AND 0x80 = 0")
    case True
    with "1.prems" b show ?thesis by (subst (asm) parse_rl_loop.simps) (auto simp: Let_def)
  next
    case False
    with "1.prems" b have "parse_rl_loop buffer len (rl + ucast (b AND 0x7F) * m) (k + 1) (m * 128) = Inr (n, k')"
      by (subst (asm) parse_rl_loop.simps) (auto simp: Let_def)
    from "1.IH" [OF _ _ b(4) refl b(5) False this] b show ?thesis by simp
  qed
qed

lemma parse_remaining_length_Inr:
  "parse_remaining_length buffer len = Inr (n, k) \<Longrightarrow> 0 < k \<and> k \<le> 4 \<and> k \<le> len \<and> k \<le> length buffer"
  unfolding parse_remaining_length_def by (drule parse_rl_loop_Inr) simp

lemma no_ub_parse_rl_loop:
  "len \<le> length buffer \<Longrightarrow> no_ub (parse_rl_loop buffer len rl k m)"
proof (induction buffer len rl k m rule: parse_rl_loop.induct)
  case (1 buffer len rl k m)
  show ?case
    by (subst parse_rl_loop.simps)
      (use 1 in \<open>auto intro!: no_ub_bindE simp: is_ub_def Let_def rd_def no_ub_def split: if_splits\<close>)
qed

lemma no_ub_parse_remaining_length: "len \<le> length buffer \<Longrightarrow> no_ub (parse_remaining_length buffer len)"
  by (simp add: parse_remaining_length_def no_ub_parse_rl_loop)

text \<open>
  C33.  Every remaining length of the protocol, up to 268435455, is written in one to four
  bytes, and the parser reads it back from them, whatever follows, consuming exactly those
  bytes.
\<close>

theorem remaining_length_roundtrip:
  assumes "buf_inv b" "alloc_total (buf_alloc b)" "n \<le> 268435455"
  shows "\<exists>b' enc. serialize_remaining_length (of_nat n) b = (None, b') \<and> contents b' = contents b @ enc \<and>
    1 \<le> length enc \<and> length enc \<le> 4 \<and>
    (\<forall>rest. parse_remaining_length (enc @ rest) (length enc + length rest) = Inr (of_nat n, length enc))"
proof -
  have n: "unat (of_nat n :: u32) = n" using assms(3) by (simp add: unat_of_nat take_bit_nat_eq_self)
  have "length (varint n) \<le> Suc 3" using assms(3) by (intro length_varint_le) simp
  then have "length (varint n) \<le> 4" by simp
  then show ?thesis
    using emits_success [OF emits_remaining_length [of "of_nat n"] assms(1,2)] n length_varint_pos [of n]
    by (metis One_nat_def Suc_le_eq parse_remaining_length_varint le_add1)
qed

theorem remaining_length_roundtrip_witness:
  "\<exists>b' enc. serialize_remaining_length 321 fresh_buffer = (None, b') \<and> contents b' = enc \<and>
    length enc \<le> 4 \<and> parse_remaining_length enc (length enc) = Inr (321, length enc)"
proof -
  obtain b' enc where "serialize_remaining_length 321 fresh_buffer = (None, b')" "contents b' = enc" "length enc \<le> 4"
    and p: "\<forall>rest. parse_remaining_length (enc @ rest) (length enc + length rest) = Inr (321, length enc)"
    using remaining_length_roundtrip [OF fresh_buffer_ok(1,2), of 321] by (auto simp: fresh_buffer_ok)
  then show ?thesis using p [rule_format, of "[]"] by simp
qed

end
