(* ===== verification/Mqtt_Properties.thy ===== *)
theory Mqtt_Properties
  imports Mqtt_Strings Mqtt_Varint
begin

text \<open>
  The \<^verbatim>\<open>Properties\<close> struct of \<^verbatim>\<open>src/protocol/mqtt_packet.h\<close> and the two functions that read
  and write it, \<^verbatim>\<open>parse_properties\<close> and \<^verbatim>\<open>serialize_properties\<close> of
  \<^verbatim>\<open>src/protocol/mqtt_parser.cpp\<close>.  The serializer makes two passes, one that adds up the
  length and one that writes.  Between the bytes and the struct the proofs use a list of
  items: the serializer writes the items of the struct, the parser applies the items it
  reads, and for a struct in canonical form that gives the struct back.
\<close>

datatype property_type =
    PayloadFormatIndicator | MessageExpiryInterval | ContentType | ResponseTopic
  | CorrelationData | SubscriptionIdentifier | SessionExpiryInterval
  | AssignedClientIdentifier | ServerKeepAlive | AuthenticationMethod | AuthenticationData
  | RequestProblemInformation | WillDelayInterval | RequestResponseInformation
  | ResponseInformation | ServerReference | ReasonString | ReceiveMaximum
  | TopicAliasMaximum | TopicAlias | MaximumQoS | RetainAvailable | UserProperty
  | MaximumPacketSize | WildcardSubscriptionAvailable | SubscriptionIdentifierAvailable
  | SharedSubscriptionAvailable

fun property_code :: "property_type \<Rightarrow> byte" where
  "property_code PayloadFormatIndicator = 0x01"
| "property_code MessageExpiryInterval = 0x02"
| "property_code ContentType = 0x03"
| "property_code ResponseTopic = 0x08"
| "property_code CorrelationData = 0x09"
| "property_code SubscriptionIdentifier = 0x0B"
| "property_code SessionExpiryInterval = 0x11"
| "property_code AssignedClientIdentifier = 0x12"
| "property_code ServerKeepAlive = 0x13"
| "property_code AuthenticationMethod = 0x15"
| "property_code AuthenticationData = 0x16"
| "property_code RequestProblemInformation = 0x17"
| "property_code WillDelayInterval = 0x18"
| "property_code RequestResponseInformation = 0x19"
| "property_code ResponseInformation = 0x1A"
| "property_code ServerReference = 0x1C"
| "property_code ReasonString = 0x1F"
| "property_code ReceiveMaximum = 0x21"
| "property_code TopicAliasMaximum = 0x22"
| "property_code TopicAlias = 0x23"
| "property_code MaximumQoS = 0x24"
| "property_code RetainAvailable = 0x25"
| "property_code UserProperty = 0x26"
| "property_code MaximumPacketSize = 0x27"
| "property_code WildcardSubscriptionAvailable = 0x28"
| "property_code SubscriptionIdentifierAvailable = 0x29"
| "property_code SharedSubscriptionAvailable = 0x2A"

definition property_types :: "property_type list" where
  "property_types =
     [PayloadFormatIndicator, MessageExpiryInterval, ContentType, ResponseTopic, CorrelationData,
      SubscriptionIdentifier, SessionExpiryInterval, AssignedClientIdentifier, ServerKeepAlive,
      AuthenticationMethod, AuthenticationData, RequestProblemInformation, WillDelayInterval,
      RequestResponseInformation, ResponseInformation, ServerReference, ReasonString,
      ReceiveMaximum, TopicAliasMaximum, TopicAlias, MaximumQoS, RetainAvailable, UserProperty,
      MaximumPacketSize, WildcardSubscriptionAvailable, SubscriptionIdentifierAvailable,
      SharedSubscriptionAvailable]"

text \<open>\<^verbatim>\<open>static_cast<PropertyType>\<close> of a byte; \<^term>\<open>None\<close> is the \<^verbatim>\<open>default\<close> branch of the switch.\<close>

definition property_of_code :: "byte \<Rightarrow> property_type option" where
  "property_of_code b = map_of (map (\<lambda>t. (property_code t, t)) property_types) b"

record properties =
  session_expiry_interval :: u32
  has_session_expiry_interval :: bool
  receive_maximum :: u16
  has_receive_maximum :: bool
  maximum_packet_size :: u32
  has_maximum_packet_size :: bool
  topic_alias_maximum :: u16
  topic_alias :: u16
  has_topic_alias :: bool
  request_response_information :: bool
  request_problem_information :: bool
  user_properties :: "(bytes \<times> bytes) list"
  authentication_method :: bytes
  authentication_data :: bytes
  assigned_client_identifier :: bytes
  server_keep_alive :: u16
  response_information :: bytes
  server_reference :: bytes
  reason_string :: bytes
  payload_format_indicator :: byte
  message_expiry_interval :: u32
  has_message_expiry_interval :: bool
  content_type :: bytes
  response_topic :: bytes
  correlation_data :: bytes
  subscription_identifier :: u32
  will_delay_interval :: u32
  maximum_qos :: byte
  has_maximum_qos :: bool
  retain_available :: bool
  wildcard_subscription_available :: bool
  subscription_identifier_available :: bool
  shared_subscription_available :: bool

text \<open>The default member initialisers.\<close>

definition default_properties :: properties where
  "default_properties = \<lparr>
     session_expiry_interval = 0, has_session_expiry_interval = False,
     receive_maximum = 0, has_receive_maximum = False,
     maximum_packet_size = 0, has_maximum_packet_size = False,
     topic_alias_maximum = 0, topic_alias = 0, has_topic_alias = False,
     request_response_information = False, request_problem_information = False,
     user_properties = [], authentication_method = [], authentication_data = [],
     assigned_client_identifier = [], server_keep_alive = 0, response_information = [],
     server_reference = [], reason_string = [], payload_format_indicator = 0,
     message_expiry_interval = 0, has_message_expiry_interval = False, content_type = [],
     response_topic = [], correlation_data = [], subscription_identifier = 0,
     will_delay_interval = 0, maximum_qos = 0, has_maximum_qos = False,
     retain_available = True, wildcard_subscription_available = True,
     subscription_identifier_available = True, shared_subscription_available = True \<rparr>"


subsection \<open>Parsing\<close>

text \<open>
  Each case of the switch reads its value at \<^verbatim>\<open>bytes_read\<close> and advances it.  The
  fixed-width cases read without comparing with \<^verbatim>\<open>length\<close>; the string cases pass
  \<^verbatim>\<open>length - bytes_read\<close>, which wraps if an earlier case has moved past the end.
\<close>

definition prop_byte :: "bytes \<Rightarrow> nat \<Rightarrow> (byte \<Rightarrow> properties) \<Rightarrow> (properties \<times> nat) result" where
  "prop_byte buffer pos set_value = bindE (rd buffer pos) (\<lambda>v. Inr (set_value v, pos + 1))"

definition prop_u16 :: "bytes \<Rightarrow> nat \<Rightarrow> (u16 \<Rightarrow> properties) \<Rightarrow> (properties \<times> nat) result" where
  "prop_u16 buffer pos set_value = bindE (rd16 buffer pos) (\<lambda>v. Inr (set_value v, pos + 2))"

definition prop_u32 :: "bytes \<Rightarrow> nat \<Rightarrow> (u32 \<Rightarrow> properties) \<Rightarrow> (properties \<times> nat) result" where
  "prop_u32 buffer pos set_value = bindE (rd32 buffer pos) (\<lambda>v. Inr (set_value v, pos + 4))"

definition prop_string ::
  "bytes \<Rightarrow> nat \<Rightarrow> nat \<Rightarrow> (bytes \<Rightarrow> properties) \<Rightarrow> (properties \<times> nat) result" where
  "prop_string buffer len pos set_value =
     bindE (parse_mqtt_string (drop pos buffer) (sz_sub len pos)) (\<lambda>(v, local_read).
       Inr (set_value v, pos + local_read))"

definition prop_binary ::
  "bytes \<Rightarrow> nat \<Rightarrow> nat \<Rightarrow> (bytes \<Rightarrow> properties) \<Rightarrow> (properties \<times> nat) result" where
  "prop_binary buffer len pos set_value =
     bindE (parse_binary_data (drop pos buffer) (sz_sub len pos)) (\<lambda>(v, local_read).
       Inr (set_value v, pos + local_read))"

text \<open>The loop of the Subscription Identifier case: most significant group first, no bound.\<close>

function parse_subid :: "bytes \<Rightarrow> nat \<Rightarrow> u32 \<Rightarrow> (u32 \<times> nat) result" where
  "parse_subid buffer pos subid_value =
     bindE (rd buffer pos) (\<lambda>b.
       let v = push_bit 7 subid_value OR ucast (b AND 0x7F) in
       if b AND 0x80 \<noteq> 0 then parse_subid buffer (pos + 1) v else Inr (v, pos + 1))"
  by pat_completeness auto
termination
  by (relation "measure (\<lambda>(buffer, pos, _). length buffer - pos)") (auto simp: rd_eq_Inr)

declare parse_subid.simps [simp del]

definition parse_property ::
  "bytes \<Rightarrow> nat \<Rightarrow> nat \<Rightarrow> properties \<Rightarrow> byte \<Rightarrow> (properties \<times> nat) result" where
  "parse_property buffer len pos p code =
     (case property_of_code code of
        None \<Rightarrow> Inl MQ_ERR_PACKET_INVALID
      | Some t \<Rightarrow>
     (case t of
        PayloadFormatIndicator \<Rightarrow> prop_byte buffer pos (\<lambda>v. p\<lparr>payload_format_indicator := v\<rparr>)
      | MessageExpiryInterval \<Rightarrow> prop_u32 buffer pos
          (\<lambda>v. p\<lparr>has_message_expiry_interval := True, message_expiry_interval := v\<rparr>)
      | ContentType \<Rightarrow> prop_string buffer len pos (\<lambda>v. p\<lparr>content_type := v\<rparr>)
      | ResponseTopic \<Rightarrow> prop_string buffer len pos (\<lambda>v. p\<lparr>response_topic := v\<rparr>)
      | CorrelationData \<Rightarrow> prop_binary buffer len pos (\<lambda>v. p\<lparr>correlation_data := v\<rparr>)
      | SubscriptionIdentifier \<Rightarrow> bindE (parse_subid buffer pos 0)
          (\<lambda>(v, pos'). Inr (p\<lparr>subscription_identifier := v\<rparr>, pos'))
      | SessionExpiryInterval \<Rightarrow> prop_u32 buffer pos
          (\<lambda>v. p\<lparr>has_session_expiry_interval := True, session_expiry_interval := v\<rparr>)
      | AssignedClientIdentifier \<Rightarrow> prop_string buffer len pos (\<lambda>v. p\<lparr>assigned_client_identifier := v\<rparr>)
      | ServerKeepAlive \<Rightarrow> prop_u16 buffer pos (\<lambda>v. p\<lparr>server_keep_alive := v\<rparr>)
      | AuthenticationMethod \<Rightarrow> prop_string buffer len pos (\<lambda>v. p\<lparr>authentication_method := v\<rparr>)
      | AuthenticationData \<Rightarrow> prop_binary buffer len pos (\<lambda>v. p\<lparr>authentication_data := v\<rparr>)
      | RequestProblemInformation \<Rightarrow> prop_byte buffer pos (\<lambda>v. p\<lparr>request_problem_information := v \<noteq> 0\<rparr>)
      | WillDelayInterval \<Rightarrow> prop_u32 buffer pos (\<lambda>v. p\<lparr>will_delay_interval := v\<rparr>)
      | RequestResponseInformation \<Rightarrow> prop_byte buffer pos (\<lambda>v. p\<lparr>request_response_information := v \<noteq> 0\<rparr>)
      | ResponseInformation \<Rightarrow> prop_string buffer len pos (\<lambda>v. p\<lparr>response_information := v\<rparr>)
      | ServerReference \<Rightarrow> prop_string buffer len pos (\<lambda>v. p\<lparr>server_reference := v\<rparr>)
      | ReasonString \<Rightarrow> prop_string buffer len pos (\<lambda>v. p\<lparr>reason_string := v\<rparr>)
      | ReceiveMaximum \<Rightarrow> prop_u16 buffer pos
          (\<lambda>v. p\<lparr>has_receive_maximum := True, receive_maximum := v\<rparr>)
      | TopicAliasMaximum \<Rightarrow> prop_u16 buffer pos (\<lambda>v. p\<lparr>topic_alias_maximum := v\<rparr>)
      | TopicAlias \<Rightarrow>
          if has_topic_alias p then Inl MQ_ERR_PROTOCOL
          else prop_u16 buffer pos (\<lambda>v. p\<lparr>has_topic_alias := True, topic_alias := v\<rparr>)
      | MaximumQoS \<Rightarrow> prop_byte buffer pos (\<lambda>v. p\<lparr>maximum_qos := v, has_maximum_qos := True\<rparr>)
      | RetainAvailable \<Rightarrow> prop_byte buffer pos (\<lambda>v. p\<lparr>retain_available := v \<noteq> 0\<rparr>)
      | UserProperty \<Rightarrow>
          bindE (parse_mqtt_string (drop pos buffer) (sz_sub len pos)) (\<lambda>(key, n1).
          bindE (parse_mqtt_string (drop (pos + n1) buffer) (sz_sub len (pos + n1))) (\<lambda>(val, n2).
            Inr (p\<lparr>user_properties := user_properties p @ [(key, val)]\<rparr>, pos + n1 + n2)))
      | MaximumPacketSize \<Rightarrow> prop_u32 buffer pos
          (\<lambda>v. p\<lparr>has_maximum_packet_size := True, maximum_packet_size := v\<rparr>)
      | WildcardSubscriptionAvailable \<Rightarrow> prop_byte buffer pos
          (\<lambda>v. p\<lparr>wildcard_subscription_available := v \<noteq> 0\<rparr>)
      | SubscriptionIdentifierAvailable \<Rightarrow> prop_byte buffer pos
          (\<lambda>v. p\<lparr>subscription_identifier_available := v \<noteq> 0\<rparr>)
      | SharedSubscriptionAvailable \<Rightarrow> prop_byte buffer pos
          (\<lambda>v. p\<lparr>shared_subscription_available := v \<noteq> 0\<rparr>)))"

lemma parse_subid_pos: "parse_subid buffer pos v = Inr (v', pos') \<Longrightarrow> pos < pos'"
proof (induction buffer pos v rule: parse_subid.induct)
  case (1 buffer pos v)
  from "1.prems" show ?case
    by (subst (asm) parse_subid.simps)
      (auto simp: bindE_eq_Inr Let_def split: if_splits dest!: "1.IH" [OF _ refl])
qed

lemma prop_pos:
  "prop_byte buffer pos f = Inr (p', pos') \<Longrightarrow> pos \<le> pos'"
  "prop_u16 buffer pos g = Inr (p', pos') \<Longrightarrow> pos \<le> pos'"
  "prop_u32 buffer pos h = Inr (p', pos') \<Longrightarrow> pos \<le> pos'"
  "prop_string buffer len pos k = Inr (p', pos') \<Longrightarrow> pos \<le> pos'"
  "prop_binary buffer len pos l = Inr (p', pos') \<Longrightarrow> pos \<le> pos'"
  by (auto simp: prop_byte_def prop_u16_def prop_u32_def prop_string_def prop_binary_def bindE_eq_Inr)

lemma parse_property_pos:
  "parse_property buffer len pos p code = Inr (p', pos') \<Longrightarrow> pos \<le> pos'"
  by (auto simp: parse_property_def bindE_eq_Inr split: option.splits property_type.splits if_splits
      dest: prop_pos parse_subid_pos)

function parse_properties_loop ::
  "bytes \<Rightarrow> nat \<Rightarrow> nat \<Rightarrow> nat \<Rightarrow> properties \<Rightarrow> (properties \<times> nat) result" where
  "parse_properties_loop buffer len properties_end bytes_read p =
     (if bytes_read < properties_end then
        if len \<le> bytes_read then Inl MQ_ERR_PACKET_INVALID
        else bindE (rd buffer bytes_read) (\<lambda>code.
          bindE (parse_property buffer len (bytes_read + 1) p code) (\<lambda>(p', bytes_read').
            parse_properties_loop buffer len properties_end bytes_read' p'))
      else Inr (p, bytes_read))"
  by pat_completeness auto
termination
  by (relation "measure (\<lambda>(_, _, properties_end, bytes_read, _). properties_end - bytes_read)")
    (auto dest!: parse_property_pos)

declare parse_properties_loop.simps [simp del]

definition parse_properties :: "bytes \<Rightarrow> nat \<Rightarrow> properties \<Rightarrow> (properties \<times> nat) result" where
  "parse_properties buffer len p =
     bindE (parse_remaining_length buffer len) (\<lambda>(properties_length, bytes_read).
       parse_properties_loop buffer len (bytes_read + unat properties_length) bytes_read p)"


subsection \<open>Serializing\<close>

lemma drop_bit7_less: "drop_bit 7 (v :: u32) \<noteq> 0 \<Longrightarrow> unat (drop_bit 7 v) < unat v"
proof -
  assume nz: "drop_bit 7 v \<noteq> 0"
  then have "v \<noteq> 0" by (cases "v = 0") simp_all
  then have "0 < unat v" by (simp add: unat_gt_0)
  then show ?thesis unfolding unat_drop_bit_eq by (simp add: drop_bit_eq_div)
qed

text \<open>The loop that counts the bytes of the Subscription Identifier.\<close>

function subid_length :: "u32 \<Rightarrow> nat" where
  "subid_length v = (let v' = drop_bit 7 v in if v' \<noteq> 0 then 1 + subid_length v' else 1)"
  by auto
termination
  by (relation "measure unat") (auto simp only: in_measure wf_measure intro: drop_bit7_less)

declare subid_length.simps [simp del]

text \<open>First pass.\<close>

definition string_property_length :: "bytes \<Rightarrow> nat" where
  "string_property_length str = (if str \<noteq> [] then 1 + 2 + length str else 0)"

definition properties_total_length :: "properties \<Rightarrow> nat" where
  "properties_total_length p =
     (if payload_format_indicator p \<noteq> 0 then 1 + 1 else 0)
   + (if message_expiry_interval p \<noteq> 0 \<or> has_message_expiry_interval p then 1 + 4 else 0)
   + string_property_length (content_type p)
   + string_property_length (response_topic p)
   + string_property_length (correlation_data p)
   + (if subscription_identifier p \<noteq> 0 then 1 + subid_length (subscription_identifier p) else 0)
   + (if session_expiry_interval p \<noteq> 0 \<or> has_session_expiry_interval p then 1 + 4 else 0)
   + string_property_length (assigned_client_identifier p)
   + (if server_keep_alive p \<noteq> 0 then 1 + 2 else 0)
   + string_property_length (authentication_method p)
   + string_property_length (authentication_data p)
   + (if request_problem_information p then 1 + 1 else 0)
   + (if will_delay_interval p \<noteq> 0 then 1 + 4 else 0)
   + (if request_response_information p then 1 + 1 else 0)
   + string_property_length (response_information p)
   + string_property_length (server_reference p)
   + string_property_length (reason_string p)
   + (if receive_maximum p \<noteq> 0 then 1 + 2 else 0)
   + (if topic_alias_maximum p \<noteq> 0 then 1 + 2 else 0)
   + (if topic_alias p \<noteq> 0 then 1 + 2 else 0)
   + (if maximum_qos p \<noteq> 0 \<or> has_maximum_qos p then 1 + 1 else 0)
   + (if \<not> retain_available p then 1 + 1 else 0)
   + sum_list (map (\<lambda>(k, v). 1 + (2 + length k) + (2 + length v)) (user_properties p))
   + (if maximum_packet_size p \<noteq> 0 then 1 + 4 else 0)
   + (if \<not> wildcard_subscription_available p then 1 + 1 else 0)
   + (if \<not> subscription_identifier_available p then 1 + 1 else 0)
   + (if \<not> shared_subscription_available p then 1 + 1 else 0)"

text \<open>Second pass.  The Subscription Identifier is written least significant group first.\<close>

function serialize_subid :: "u32 \<Rightarrow> bop" where
  "serialize_subid v =
     (let b = ucast (v AND 0x7F); v' = drop_bit 7 v
      in then_op (push_back (if v' \<noteq> 0 then b OR 0x80 else b))
           (if v' \<noteq> 0 then serialize_subid v' else ok_op))"
  by auto
termination
  by (relation "measure unat") (auto simp only: in_measure wf_measure intro: drop_bit7_less)

declare serialize_subid.simps [simp del]

definition push_type :: "property_type \<Rightarrow> bop" where
  "push_type t = push_back (property_code t)"

definition push_u16 :: "u16 \<Rightarrow> bop" where
  "push_u16 v = seq_ops [push_back (byte_at 1 v), push_back (byte_at 0 v)]"

definition push_u32 :: "u32 \<Rightarrow> bop" where
  "push_u32 v = seq_ops [push_back (byte_at 3 v), push_back (byte_at 2 v), push_back (byte_at 1 v),
                         push_back (byte_at 0 v)]"

definition serialize_properties_1 :: "properties \<Rightarrow> bop" where
  "serialize_properties_1 p = seq_ops
     [when_op (payload_format_indicator p \<noteq> 0)
        (seq_ops [push_type PayloadFormatIndicator, push_back (payload_format_indicator p)]),
      when_op (message_expiry_interval p \<noteq> 0 \<or> has_message_expiry_interval p)
        (seq_ops [push_type MessageExpiryInterval, push_u32 (message_expiry_interval p)]),
      when_op (content_type p \<noteq> [])
        (seq_ops [push_type ContentType, serialize_mqtt_string (content_type p)]),
      when_op (response_topic p \<noteq> [])
        (seq_ops [push_type ResponseTopic, serialize_mqtt_string (response_topic p)]),
      when_op (correlation_data p \<noteq> [])
        (seq_ops [push_type CorrelationData, serialize_binary_data (correlation_data p)]),
      when_op (subscription_identifier p \<noteq> 0)
        (seq_ops [push_type SubscriptionIdentifier, serialize_subid (subscription_identifier p)]),
      when_op (session_expiry_interval p \<noteq> 0 \<or> has_session_expiry_interval p)
        (seq_ops [push_type SessionExpiryInterval, push_u32 (session_expiry_interval p)])]"

definition serialize_properties_2 :: "properties \<Rightarrow> bop" where
  "serialize_properties_2 p = seq_ops
     [when_op (assigned_client_identifier p \<noteq> [])
        (seq_ops [push_type AssignedClientIdentifier,
                  serialize_mqtt_string (assigned_client_identifier p)]),
      when_op (server_keep_alive p \<noteq> 0)
        (seq_ops [push_type ServerKeepAlive, push_u16 (server_keep_alive p)]),
      when_op (authentication_method p \<noteq> [])
        (seq_ops [push_type AuthenticationMethod, serialize_mqtt_string (authentication_method p)]),
      when_op (authentication_data p \<noteq> [])
        (seq_ops [push_type AuthenticationData, serialize_binary_data (authentication_data p)]),
      when_op (request_problem_information p)
        (seq_ops [push_type RequestProblemInformation, push_back 1]),
      when_op (will_delay_interval p \<noteq> 0)
        (seq_ops [push_type WillDelayInterval, push_u32 (will_delay_interval p)]),
      when_op (request_response_information p)
        (seq_ops [push_type RequestResponseInformation, push_back 1]),
      when_op (response_information p \<noteq> [])
        (seq_ops [push_type ResponseInformation, serialize_mqtt_string (response_information p)]),
      when_op (server_reference p \<noteq> [])
        (seq_ops [push_type ServerReference, serialize_mqtt_string (server_reference p)]),
      when_op (reason_string p \<noteq> [])
        (seq_ops [push_type ReasonString, serialize_mqtt_string (reason_string p)])]"

definition serialize_properties_3 :: "properties \<Rightarrow> bop" where
  "serialize_properties_3 p = seq_ops
     [when_op (receive_maximum p \<noteq> 0)
        (seq_ops [push_type ReceiveMaximum, push_u16 (receive_maximum p)]),
      when_op (topic_alias_maximum p \<noteq> 0)
        (seq_ops [push_type TopicAliasMaximum, push_u16 (topic_alias_maximum p)]),
      when_op (topic_alias p \<noteq> 0)
        (seq_ops [push_type TopicAlias, push_u16 (topic_alias p)]),
      when_op (maximum_qos p \<noteq> 0 \<or> has_maximum_qos p)
        (seq_ops [push_type MaximumQoS, push_back (maximum_qos p)]),
      when_op (\<not> retain_available p) (seq_ops [push_type RetainAvailable, push_back 0]),
      seq_ops (map (\<lambda>(k, v). seq_ops [push_type UserProperty, serialize_mqtt_string k,
                                       serialize_mqtt_string v]) (user_properties p)),
      when_op (maximum_packet_size p \<noteq> 0)
        (seq_ops [push_type MaximumPacketSize, push_u32 (maximum_packet_size p)]),
      when_op (\<not> wildcard_subscription_available p)
        (seq_ops [push_type WildcardSubscriptionAvailable, push_back 0]),
      when_op (\<not> subscription_identifier_available p)
        (seq_ops [push_type SubscriptionIdentifierAvailable, push_back 0]),
      when_op (\<not> shared_subscription_available p)
        (seq_ops [push_type SharedSubscriptionAvailable, push_back 0])]"

definition serialize_properties :: "properties \<Rightarrow> bop" where
  "serialize_properties p = seq_ops
     [serialize_remaining_length (of_nat (properties_total_length p)),
      serialize_properties_1 p, serialize_properties_2 p, serialize_properties_3 p]"


subsection \<open>Items\<close>

datatype item =
    IPayloadFormatIndicator byte
  | IMessageExpiryInterval u32
  | IContentType bytes
  | IResponseTopic bytes
  | ICorrelationData bytes
  | ISubscriptionIdentifier u32
  | ISessionExpiryInterval u32
  | IAssignedClientIdentifier bytes
  | IServerKeepAlive u16
  | IAuthenticationMethod bytes
  | IAuthenticationData bytes
  | IRequestProblemInformation byte
  | IWillDelayInterval u32
  | IRequestResponseInformation byte
  | IResponseInformation bytes
  | IServerReference bytes
  | IReasonString bytes
  | IReceiveMaximum u16
  | ITopicAliasMaximum u16
  | ITopicAlias u16
  | IMaximumQoS byte
  | IRetainAvailable byte
  | IUserProperty bytes bytes
  | IMaximumPacketSize u32
  | IWildcardSubscriptionAvailable byte
  | ISubscriptionIdentifierAvailable byte
  | ISharedSubscriptionAvailable byte

fun item_type :: "item \<Rightarrow> property_type" where
  "item_type (IPayloadFormatIndicator v) = PayloadFormatIndicator"
| "item_type (IMessageExpiryInterval v) = MessageExpiryInterval"
| "item_type (IContentType v) = ContentType"
| "item_type (IResponseTopic v) = ResponseTopic"
| "item_type (ICorrelationData v) = CorrelationData"
| "item_type (ISubscriptionIdentifier v) = SubscriptionIdentifier"
| "item_type (ISessionExpiryInterval v) = SessionExpiryInterval"
| "item_type (IAssignedClientIdentifier v) = AssignedClientIdentifier"
| "item_type (IServerKeepAlive v) = ServerKeepAlive"
| "item_type (IAuthenticationMethod v) = AuthenticationMethod"
| "item_type (IAuthenticationData v) = AuthenticationData"
| "item_type (IRequestProblemInformation v) = RequestProblemInformation"
| "item_type (IWillDelayInterval v) = WillDelayInterval"
| "item_type (IRequestResponseInformation v) = RequestResponseInformation"
| "item_type (IResponseInformation v) = ResponseInformation"
| "item_type (IServerReference v) = ServerReference"
| "item_type (IReasonString v) = ReasonString"
| "item_type (IReceiveMaximum v) = ReceiveMaximum"
| "item_type (ITopicAliasMaximum v) = TopicAliasMaximum"
| "item_type (ITopicAlias v) = TopicAlias"
| "item_type (IMaximumQoS v) = MaximumQoS"
| "item_type (IRetainAvailable v) = RetainAvailable"
| "item_type (IUserProperty k v) = UserProperty"
| "item_type (IMaximumPacketSize v) = MaximumPacketSize"
| "item_type (IWildcardSubscriptionAvailable v) = WildcardSubscriptionAvailable"
| "item_type (ISubscriptionIdentifierAvailable v) = SubscriptionIdentifierAvailable"
| "item_type (ISharedSubscriptionAvailable v) = SharedSubscriptionAvailable"

fun enc_value :: "item \<Rightarrow> bytes" where
  "enc_value (IPayloadFormatIndicator v) = [v]"
| "enc_value (IMessageExpiryInterval v) = be_bytes 4 v"
| "enc_value (IContentType v) = enc_string v"
| "enc_value (IResponseTopic v) = enc_string v"
| "enc_value (ICorrelationData v) = enc_string v"
| "enc_value (ISubscriptionIdentifier v) = varint (unat v)"
| "enc_value (ISessionExpiryInterval v) = be_bytes 4 v"
| "enc_value (IAssignedClientIdentifier v) = enc_string v"
| "enc_value (IServerKeepAlive v) = be_bytes 2 v"
| "enc_value (IAuthenticationMethod v) = enc_string v"
| "enc_value (IAuthenticationData v) = enc_string v"
| "enc_value (IRequestProblemInformation v) = [v]"
| "enc_value (IWillDelayInterval v) = be_bytes 4 v"
| "enc_value (IRequestResponseInformation v) = [v]"
| "enc_value (IResponseInformation v) = enc_string v"
| "enc_value (IServerReference v) = enc_string v"
| "enc_value (IReasonString v) = enc_string v"
| "enc_value (IReceiveMaximum v) = be_bytes 2 v"
| "enc_value (ITopicAliasMaximum v) = be_bytes 2 v"
| "enc_value (ITopicAlias v) = be_bytes 2 v"
| "enc_value (IMaximumQoS v) = [v]"
| "enc_value (IRetainAvailable v) = [v]"
| "enc_value (IUserProperty k v) = enc_string k @ enc_string v"
| "enc_value (IMaximumPacketSize v) = be_bytes 4 v"
| "enc_value (IWildcardSubscriptionAvailable v) = [v]"
| "enc_value (ISubscriptionIdentifierAvailable v) = [v]"
| "enc_value (ISharedSubscriptionAvailable v) = [v]"

definition enc_item :: "item \<Rightarrow> bytes" where
  "enc_item it = property_code (item_type it) # enc_value it"

definition enc_items :: "item list \<Rightarrow> bytes" where
  "enc_items its = concat (map enc_item its)"

lemma enc_items_simps [simp]:
  "enc_items [] = []"
  "enc_items (it # its) = enc_item it @ enc_items its"
  "enc_items (xs @ ys) = enc_items xs @ enc_items ys"
  by (simp_all add: enc_items_def)

definition opt :: "bool \<Rightarrow> 'a \<Rightarrow> 'a list" where
  "opt c x = (if c then [x] else [])"

definition items_1 :: "properties \<Rightarrow> item list" where
  "items_1 p =
     opt (payload_format_indicator p \<noteq> 0) (IPayloadFormatIndicator (payload_format_indicator p))
   @ opt (message_expiry_interval p \<noteq> 0 \<or> has_message_expiry_interval p)
       (IMessageExpiryInterval (message_expiry_interval p))
   @ opt (content_type p \<noteq> []) (IContentType (content_type p))
   @ opt (response_topic p \<noteq> []) (IResponseTopic (response_topic p))
   @ opt (correlation_data p \<noteq> []) (ICorrelationData (correlation_data p))
   @ opt (subscription_identifier p \<noteq> 0) (ISubscriptionIdentifier (subscription_identifier p))
   @ opt (session_expiry_interval p \<noteq> 0 \<or> has_session_expiry_interval p)
       (ISessionExpiryInterval (session_expiry_interval p))"

definition items_2 :: "properties \<Rightarrow> item list" where
  "items_2 p =
     opt (assigned_client_identifier p \<noteq> []) (IAssignedClientIdentifier (assigned_client_identifier p))
   @ opt (server_keep_alive p \<noteq> 0) (IServerKeepAlive (server_keep_alive p))
   @ opt (authentication_method p \<noteq> []) (IAuthenticationMethod (authentication_method p))
   @ opt (authentication_data p \<noteq> []) (IAuthenticationData (authentication_data p))
   @ opt (request_problem_information p) (IRequestProblemInformation 1)
   @ opt (will_delay_interval p \<noteq> 0) (IWillDelayInterval (will_delay_interval p))
   @ opt (request_response_information p) (IRequestResponseInformation 1)
   @ opt (response_information p \<noteq> []) (IResponseInformation (response_information p))
   @ opt (server_reference p \<noteq> []) (IServerReference (server_reference p))
   @ opt (reason_string p \<noteq> []) (IReasonString (reason_string p))"

definition items_3 :: "properties \<Rightarrow> item list" where
  "items_3 p =
     opt (receive_maximum p \<noteq> 0) (IReceiveMaximum (receive_maximum p))
   @ opt (topic_alias_maximum p \<noteq> 0) (ITopicAliasMaximum (topic_alias_maximum p))
   @ opt (topic_alias p \<noteq> 0) (ITopicAlias (topic_alias p))
   @ opt (maximum_qos p \<noteq> 0 \<or> has_maximum_qos p) (IMaximumQoS (maximum_qos p))
   @ opt (\<not> retain_available p) (IRetainAvailable 0)
   @ map (\<lambda>(k, v). IUserProperty k v) (user_properties p)
   @ opt (maximum_packet_size p \<noteq> 0) (IMaximumPacketSize (maximum_packet_size p))
   @ opt (\<not> wildcard_subscription_available p) (IWildcardSubscriptionAvailable 0)
   @ opt (\<not> subscription_identifier_available p) (ISubscriptionIdentifierAvailable 0)
   @ opt (\<not> shared_subscription_available p) (ISharedSubscriptionAvailable 0)"

definition items :: "properties \<Rightarrow> item list" where
  "items p = items_1 p @ items_2 p @ items_3 p"

text \<open>The first pass computes the length of what the second pass writes.\<close>

lemma subid_length: "subid_length v = length (varint (unat v))"
proof (induction v rule: subid_length.induct)
  case (1 v)
  have eq: "unat (drop_bit 7 v) = unat v div 128" unfolding unat_drop_bit_eq by (simp add: drop_bit_eq_div)
  have nz: "drop_bit 7 v \<noteq> 0 \<longleftrightarrow> \<not> unat v < 128"
    unfolding unat_eq_0 [symmetric] eq by (simp add: div_eq_0_iff)
  show ?case
    using 1 [OF refl]
    by (subst subid_length.simps, subst varint.simps) (simp add: Let_def nz eq)
qed

lemma serialize_subid: "serialize_subid v = serialize_remaining_length v"
proof (induction v rule: serialize_subid.induct)
  case (1 v)
  have d: "drop_bit 7 v = v div 128" by (simp add: drop_bit_eq_div)
  have m: "v AND 0x7F = v mod 128" by (simp add: mask_7F take_bit_eq_mask [symmetric] take_bit_eq_mod)
  have z: "v div 128 \<noteq> 0 \<longleftrightarrow> 0 < v div 128" by (simp add: word_neq_0_conv)
  show ?case
    using 1 [OF refl refl]
    by (subst serialize_subid.simps, subst serialize_remaining_length.simps) (simp add: d m z Let_def)
qed

lemma length_enc_opt:
  "length (enc_items (opt c (IPayloadFormatIndicator b))) = (if c then 1 + 1 else 0)"
  "length (enc_items (opt c (IMessageExpiryInterval u))) = (if c then 1 + 4 else 0)"
  "length (enc_items (opt (str \<noteq> []) (IContentType str))) = string_property_length str"
  "length (enc_items (opt (str \<noteq> []) (IResponseTopic str))) = string_property_length str"
  "length (enc_items (opt (str \<noteq> []) (ICorrelationData str))) = string_property_length str"
  "length (enc_items (opt c (ISubscriptionIdentifier u))) = (if c then 1 + subid_length u else 0)"
  "length (enc_items (opt c (ISessionExpiryInterval u))) = (if c then 1 + 4 else 0)"
  "length (enc_items (opt (str \<noteq> []) (IAssignedClientIdentifier str))) = string_property_length str"
  "length (enc_items (opt c (IServerKeepAlive w))) = (if c then 1 + 2 else 0)"
  "length (enc_items (opt (str \<noteq> []) (IAuthenticationMethod str))) = string_property_length str"
  "length (enc_items (opt (str \<noteq> []) (IAuthenticationData str))) = string_property_length str"
  "length (enc_items (opt c (IRequestProblemInformation b))) = (if c then 1 + 1 else 0)"
  "length (enc_items (opt c (IWillDelayInterval u))) = (if c then 1 + 4 else 0)"
  "length (enc_items (opt c (IRequestResponseInformation b))) = (if c then 1 + 1 else 0)"
  "length (enc_items (opt (str \<noteq> []) (IResponseInformation str))) = string_property_length str"
  "length (enc_items (opt (str \<noteq> []) (IServerReference str))) = string_property_length str"
  "length (enc_items (opt (str \<noteq> []) (IReasonString str))) = string_property_length str"
  "length (enc_items (opt c (IReceiveMaximum w))) = (if c then 1 + 2 else 0)"
  "length (enc_items (opt c (ITopicAliasMaximum w))) = (if c then 1 + 2 else 0)"
  "length (enc_items (opt c (ITopicAlias w))) = (if c then 1 + 2 else 0)"
  "length (enc_items (opt c (IMaximumQoS b))) = (if c then 1 + 1 else 0)"
  "length (enc_items (opt c (IRetainAvailable b))) = (if c then 1 + 1 else 0)"
  "length (enc_items (opt c (IMaximumPacketSize u))) = (if c then 1 + 4 else 0)"
  "length (enc_items (opt c (IWildcardSubscriptionAvailable b))) = (if c then 1 + 1 else 0)"
  "length (enc_items (opt c (ISubscriptionIdentifierAvailable b))) = (if c then 1 + 1 else 0)"
  "length (enc_items (opt c (ISharedSubscriptionAvailable b))) = (if c then 1 + 1 else 0)"
  by (simp_all add: opt_def string_property_length_def subid_length enc_item_def)

lemma length_enc_users:
  "length (enc_items (map (\<lambda>(k, v). IUserProperty k v) ups)) =
     sum_list (map (\<lambda>(k, v). 1 + (2 + length k) + (2 + length v)) ups)"
  by (induction ups) (auto simp: enc_item_def)

lemma properties_total_length: "properties_total_length p = length (enc_items (items p))"
  by (simp add: properties_total_length_def items_def items_1_def items_2_def items_3_def
      length_enc_opt length_enc_users add.assoc split del: if_split)

text \<open>What the second pass writes.\<close>

definition strings_ok :: "properties \<Rightarrow> bool" where
  "strings_ok p \<longleftrightarrow> list_all str_ok
     [content_type p, response_topic p, assigned_client_identifier p, authentication_method p,
      response_information p, server_reference p, reason_string p] \<and>
     list_all (\<lambda>(k, v). str_ok k \<and> str_ok v) (user_properties p) \<and>
     length (correlation_data p) \<le> 65535 \<and> length (authentication_data p) \<le> 65535"

lemma emits_push_type: "emits (push_type t) [property_code t]"
  by (simp add: push_type_def emits_push_back)

lemma emits_push_u16 [emit_intros]: "emits (push_u16 v) (be_bytes 2 v)"
  unfolding push_u16_def
  by (rule emits_eq, (rule emits_seq_Cons emits_seq_Nil emits_push_back)+) (simp add: be_bytes_2)

lemma emits_push_u32 [emit_intros]: "emits (push_u32 v) (be_bytes 4 v)"
  unfolding push_u32_def
  by (rule emits_eq, (rule emits_seq_Cons emits_seq_Nil emits_push_back)+) (simp add: be_bytes_4)

lemma emits_subid [emit_intros]: "emits (serialize_subid v) (varint (unat v))"
  by (simp add: serialize_subid emits_remaining_length)

lemma emits_item:
  "t = item_type it \<Longrightarrow> (c \<Longrightarrow> emits f (enc_value it)) \<Longrightarrow>
     emits (when_op c (seq_ops [push_type t, f])) (enc_items (opt c it))"
  using emits_seq_Cons [OF emits_push_type emits_seq_Cons [OF _ emits_seq_Nil], of f "enc_value it" t]
  by (auto simp: when_op_def opt_def emits_ok enc_item_def)

lemma emits_seq_items:
  "emits f (enc_items xs) \<Longrightarrow> emits (seq_ops fs) (enc_items ys) \<Longrightarrow>
     emits (seq_ops (f # fs)) (enc_items (xs @ ys))"
  by (simp add: emits_seq_Cons)

lemma emits_seq_last: "emits f (enc_items xs) \<Longrightarrow> emits (seq_ops [f]) (enc_items xs)"
  using emits_seq_Cons [OF _ emits_seq_Nil, of f "enc_items xs"] by simp

lemma emits_properties_1: "strings_ok p \<Longrightarrow> emits (serialize_properties_1 p) (enc_items (items_1 p))"
  unfolding serialize_properties_1_def items_1_def
  by (intro emits_seq_items emits_seq_last emits_item) (auto intro: emit_intros simp: strings_ok_def)

lemma emits_properties_2: "strings_ok p \<Longrightarrow> emits (serialize_properties_2 p) (enc_items (items_2 p))"
  unfolding serialize_properties_2_def items_2_def
  by (intro emits_seq_items emits_seq_last emits_item) (auto intro: emit_intros simp: strings_ok_def)

lemma emits_users:
  "list_all (\<lambda>(k, v). str_ok k \<and> str_ok v) ups \<Longrightarrow>
   emits (seq_ops (map (\<lambda>(k, v). seq_ops [push_type UserProperty, serialize_mqtt_string k,
                                          serialize_mqtt_string v]) ups))
     (enc_items (map (\<lambda>(k, v). IUserProperty k v) ups))"
proof (induction ups)
  case Nil
  show ?case by (simp add: emits_seq_Nil)
next
  case (Cons kv ups)
  obtain k v where kv: "kv = (k, v)" by fastforce
  have "emits (seq_ops [push_type UserProperty, serialize_mqtt_string k, serialize_mqtt_string v])
      ([property_code UserProperty] @ enc_string k @ enc_string v @ [])"
    using Cons.prems kv by (intro emits_seq_Cons emits_seq_Nil emits_push_type emits_string) simp_all
  from emits_seq_Cons [OF this Cons.IH] Cons.prems kv show ?case by (simp add: enc_item_def)
qed

lemma emits_properties_3: "strings_ok p \<Longrightarrow> emits (serialize_properties_3 p) (enc_items (items_3 p))"
  unfolding serialize_properties_3_def items_3_def
  by (intro emits_seq_items emits_seq_last emits_item emits_users)
    (auto intro: emit_intros simp: strings_ok_def)

definition enc_properties :: "properties \<Rightarrow> bytes" where
  "enc_properties p = varint (length (enc_items (items p))) @ enc_items (items p)"

definition props_len_ok :: "properties \<Rightarrow> bool" where
  "props_len_ok p \<longleftrightarrow> length (enc_items (items p)) < 2 ^ 28"

lemma emits_properties [emit_intros]:
  assumes "strings_ok p" "props_len_ok p"
  shows "emits (serialize_properties p) (enc_properties p)"
proof -
  have "unat (of_nat (properties_total_length p) :: u32) = length (enc_items (items p))"
    using assms(2) by (simp add: props_len_ok_def properties_total_length unat_of_nat take_bit_nat_eq_self)
  then have "emits (serialize_remaining_length (of_nat (properties_total_length p)))
      (varint (length (enc_items (items p))))"
    using emits_remaining_length [of "of_nat (properties_total_length p)"] by simp
  then show ?thesis
    unfolding serialize_properties_def enc_properties_def items_def enc_items_simps(3)
    by (intro emits_seq_Cons emits_properties_1 emits_properties_2 assms)
      (simp_all add: emits_seq_last emits_properties_3 assms)
qed


subsection \<open>Parsing items\<close>

lemma property_of_code [simp]: "property_of_code (property_code t) = Some t"
  by (cases t) (simp_all add: property_of_code_def property_types_def)

text \<open>What reading an item does to the struct.\<close>

fun apply_item :: "item \<Rightarrow> properties \<Rightarrow> properties" where
  "apply_item (IPayloadFormatIndicator v) p = p\<lparr>payload_format_indicator := v\<rparr>"
| "apply_item (IMessageExpiryInterval v) p = p\<lparr>has_message_expiry_interval := True, message_expiry_interval := v\<rparr>"
| "apply_item (IContentType v) p = p\<lparr>content_type := v\<rparr>"
| "apply_item (IResponseTopic v) p = p\<lparr>response_topic := v\<rparr>"
| "apply_item (ICorrelationData v) p = p\<lparr>correlation_data := v\<rparr>"
| "apply_item (ISubscriptionIdentifier v) p = p\<lparr>subscription_identifier := v\<rparr>"
| "apply_item (ISessionExpiryInterval v) p = p\<lparr>has_session_expiry_interval := True, session_expiry_interval := v\<rparr>"
| "apply_item (IAssignedClientIdentifier v) p = p\<lparr>assigned_client_identifier := v\<rparr>"
| "apply_item (IServerKeepAlive v) p = p\<lparr>server_keep_alive := v\<rparr>"
| "apply_item (IAuthenticationMethod v) p = p\<lparr>authentication_method := v\<rparr>"
| "apply_item (IAuthenticationData v) p = p\<lparr>authentication_data := v\<rparr>"
| "apply_item (IRequestProblemInformation v) p = p\<lparr>request_problem_information := v \<noteq> 0\<rparr>"
| "apply_item (IWillDelayInterval v) p = p\<lparr>will_delay_interval := v\<rparr>"
| "apply_item (IRequestResponseInformation v) p = p\<lparr>request_response_information := v \<noteq> 0\<rparr>"
| "apply_item (IResponseInformation v) p = p\<lparr>response_information := v\<rparr>"
| "apply_item (IServerReference v) p = p\<lparr>server_reference := v\<rparr>"
| "apply_item (IReasonString v) p = p\<lparr>reason_string := v\<rparr>"
| "apply_item (IReceiveMaximum v) p = p\<lparr>has_receive_maximum := True, receive_maximum := v\<rparr>"
| "apply_item (ITopicAliasMaximum v) p = p\<lparr>topic_alias_maximum := v\<rparr>"
| "apply_item (ITopicAlias v) p = p\<lparr>has_topic_alias := True, topic_alias := v\<rparr>"
| "apply_item (IMaximumQoS v) p = p\<lparr>maximum_qos := v, has_maximum_qos := True\<rparr>"
| "apply_item (IRetainAvailable v) p = p\<lparr>retain_available := v \<noteq> 0\<rparr>"
| "apply_item (IUserProperty k v) p = p\<lparr>user_properties := user_properties p @ [(k, v)]\<rparr>"
| "apply_item (IMaximumPacketSize v) p = p\<lparr>has_maximum_packet_size := True, maximum_packet_size := v\<rparr>"
| "apply_item (IWildcardSubscriptionAvailable v) p = p\<lparr>wildcard_subscription_available := v \<noteq> 0\<rparr>"
| "apply_item (ISubscriptionIdentifierAvailable v) p = p\<lparr>subscription_identifier_available := v \<noteq> 0\<rparr>"
| "apply_item (ISharedSubscriptionAvailable v) p = p\<lparr>shared_subscription_available := v \<noteq> 0\<rparr>"


fun item_ok :: "properties \<Rightarrow> item \<Rightarrow> bool" where
  "item_ok p (IContentType v) = str_ok v"
| "item_ok p (IResponseTopic v) = str_ok v"
| "item_ok p (ICorrelationData v) = (length v \<le> 65535)"
| "item_ok p (ISubscriptionIdentifier v) = (v < 128)"
| "item_ok p (IAssignedClientIdentifier v) = str_ok v"
| "item_ok p (IAuthenticationMethod v) = str_ok v"
| "item_ok p (IAuthenticationData v) = (length v \<le> 65535)"
| "item_ok p (IResponseInformation v) = str_ok v"
| "item_ok p (IServerReference v) = str_ok v"
| "item_ok p (IReasonString v) = str_ok v"
| "item_ok p (ITopicAlias v) = (\<not> has_topic_alias p)"
| "item_ok p (IUserProperty k v) = (str_ok k \<and> str_ok v)"
| "item_ok p it = True"

lemma parse_subid_small:
  assumes "v < 128" "pos = length pre"
  shows "parse_subid (pre @ varint (unat v) @ rest) pos 0 = Inr (v, pos + 1)"
proof -
  define n where "n = unat v"
  have n: "n < 128" "v = of_nat n" using assms by (simp_all add: n_def word_less_nat_alt)
  have "(of_nat n :: byte) AND 0x80 = 0"
    using n by (simp add: high_bit unat_of_nat take_bit_nat_eq_self)
  moreover have "(ucast ((of_nat n :: byte) AND 0x7F) :: u32) = of_nat n"
    using n(1) by (simp add: low7 word_unat_eq_iff unsigned_ucast_eq unat_of_nat take_bit_nat_eq_self)
  moreover have "varint n = [of_nat n]" using n by (subst varint.simps) simp
  ultimately show ?thesis
    using assms(2) n by (fold n_def) (subst parse_subid.simps, simp add: Let_def)
qed

lemma prop_enc:
  assumes "pos = length pre"
  shows "prop_byte (pre @ v # rest) pos f = Inr (f v, pos + 1)"
    "prop_u16 (pre @ be_bytes 2 w @ rest) pos g = Inr (g w, pos + 2)"
    "prop_u32 (pre @ be_bytes 4 u @ rest) pos h = Inr (h u, pos + 4)"
    "str_ok str \<Longrightarrow> pos + 2 + length str \<le> len \<Longrightarrow>
      prop_string (pre @ enc_string str @ rest) len pos k = Inr (k str, pos + (2 + length str))"
    "length str \<le> 65535 \<Longrightarrow> pos + 2 + length str \<le> len \<Longrightarrow>
      prop_binary (pre @ enc_string str @ rest) len pos k = Inr (k str, pos + (2 + length str))"
  using assms by (simp_all add: prop_byte_def prop_u16_def prop_u32_def prop_string_def prop_binary_def)

lemma parse_property_item:
  assumes "item_ok p it" "pos = length pre" "pos + length (enc_value it) \<le> len"
  shows "parse_property (pre @ enc_value it @ rest) len pos p (property_code (item_type it)) =
    Inr (apply_item it p, pos + length (enc_value it))"
proof (cases it)
  case (ISubscriptionIdentifier v)
  with assms have "unat v < 128" by (simp add: word_less_nat_alt)
  then have "length (varint (unat v)) = 1" by (subst varint.simps) simp
  with ISubscriptionIdentifier assms show ?thesis
    unfolding parse_property_def property_of_code by (simp add: parse_subid_small)
next
  case (IUserProperty k v)
  have "drop (length pre + (2 + length k)) (pre @ enc_string k @ enc_string v @ rest) = enc_string v @ rest"
    by (simp add: drop_append)
  with IUserProperty assms show ?thesis
    unfolding parse_property_def property_of_code by simp
qed (use assms in \<open>simp_all add: parse_property_def prop_enc del: property_code.simps\<close>)

fun items_ok :: "properties \<Rightarrow> item list \<Rightarrow> bool" where
  "items_ok p [] = True"
| "items_ok p (it # its) = (item_ok p it \<and> items_ok (apply_item it p) its)"

lemma parse_properties_loop_items:
  assumes "items_ok p its" "pos = length pre" "properties_end = pos + length (enc_items its)"
    "properties_end \<le> len"
  shows "parse_properties_loop (pre @ enc_items its @ rest) len properties_end pos p =
    Inr (fold apply_item its p, properties_end)"
  using assms
proof (induction its arbitrary: p pre pos)
  case Nil
  then show ?case by (subst parse_properties_loop.simps) simp
next
  case (Cons it its)
  let ?code = "property_code (item_type it)"
  have "parse_property ((pre @ [?code]) @ enc_value it @ (enc_items its @ rest)) len (pos + 1) p ?code =
      Inr (apply_item it p, pos + 1 + length (enc_value it))"
    using Cons.prems by (intro parse_property_item) (simp_all add: enc_item_def)
  moreover have "parse_properties_loop ((pre @ enc_item it) @ enc_items its @ rest) len properties_end
      (pos + 1 + length (enc_value it)) (apply_item it p) =
      Inr (fold apply_item its (apply_item it p), properties_end)"
    using Cons.prems by (intro Cons.IH) (simp_all add: enc_item_def)
  ultimately show ?case
    using Cons.prems by (subst parse_properties_loop.simps) (simp add: enc_item_def)
qed


lemma parse_properties_items:
  assumes "items_ok p its" "length (enc_items its) < 2 ^ 28"
    "length (varint (length (enc_items its))) + length (enc_items its) \<le> len"
  shows "parse_properties (varint (length (enc_items its)) @ enc_items its @ rest) len p =
    Inr (fold apply_item its p, length (varint (length (enc_items its))) + length (enc_items its))"
proof -
  let ?n = "length (enc_items its)"
  have v: "length (varint ?n) \<le> 4" using length_varint_le [of ?n 3] assms(2) by simp
  have "unat (of_nat ?n :: u32) = ?n" using assms(2) by (simp add: unat_of_nat take_bit_nat_eq_self)
  then show ?thesis
    using assms v parse_properties_loop_items [OF assms(1) refl refl, of "varint ?n" len rest]
    by (simp add: parse_properties_def)
qed


subsection \<open>Canonical form\<close>

text \<open>
  A struct the serializer can express: the presence flags agree with the values the
  serializer tests, the Subscription Identifier fits one group.
\<close>

definition canonical :: "properties \<Rightarrow> bool" where
  "canonical p \<longleftrightarrow>
     (message_expiry_interval p \<noteq> 0 \<longrightarrow> has_message_expiry_interval p) \<and>
     (session_expiry_interval p \<noteq> 0 \<longrightarrow> has_session_expiry_interval p) \<and>
     (has_receive_maximum p \<longleftrightarrow> receive_maximum p \<noteq> 0) \<and>
     (has_maximum_packet_size p \<longleftrightarrow> maximum_packet_size p \<noteq> 0) \<and>
     (has_topic_alias p \<longleftrightarrow> topic_alias p \<noteq> 0) \<and>
     (maximum_qos p \<noteq> 0 \<longrightarrow> has_maximum_qos p) \<and>
     subscription_identifier p < 128"

definition pick :: "bool \<Rightarrow> 'a \<Rightarrow> 'a \<Rightarrow> 'a" where
  "pick c x y = (if c then x else y)"

lemma fold_apply_opt:
  "fold apply_item (opt c (IPayloadFormatIndicator v8)) q =
     q\<lparr>payload_format_indicator := pick c (v8) (payload_format_indicator q)\<rparr>"
  "fold apply_item (opt c (IMessageExpiryInterval v32)) q =
     q\<lparr>has_message_expiry_interval := c \<or> has_message_expiry_interval q,
       message_expiry_interval := pick c (v32) (message_expiry_interval q)\<rparr>"
  "fold apply_item (opt c (IContentType str)) q = q\<lparr>content_type := pick c (str) (content_type q)\<rparr>"
  "fold apply_item (opt c (IResponseTopic str)) q = q\<lparr>response_topic := pick c (str) (response_topic q)\<rparr>"
  "fold apply_item (opt c (ICorrelationData str)) q = q\<lparr>correlation_data := pick c (str) (correlation_data q)\<rparr>"
  "fold apply_item (opt c (ISubscriptionIdentifier v32)) q =
     q\<lparr>subscription_identifier := pick c (v32) (subscription_identifier q)\<rparr>"
  "fold apply_item (opt c (ISessionExpiryInterval v32)) q =
     q\<lparr>has_session_expiry_interval := c \<or> has_session_expiry_interval q,
       session_expiry_interval := pick c (v32) (session_expiry_interval q)\<rparr>"
  "fold apply_item (opt c (IAssignedClientIdentifier str)) q =
     q\<lparr>assigned_client_identifier := pick c (str) (assigned_client_identifier q)\<rparr>"
  "fold apply_item (opt c (IServerKeepAlive v16)) q =
     q\<lparr>server_keep_alive := pick c (v16) (server_keep_alive q)\<rparr>"
  "fold apply_item (opt c (IAuthenticationMethod str)) q =
     q\<lparr>authentication_method := pick c (str) (authentication_method q)\<rparr>"
  "fold apply_item (opt c (IAuthenticationData str)) q =
     q\<lparr>authentication_data := pick c (str) (authentication_data q)\<rparr>"
  "fold apply_item (opt c (IRequestProblemInformation v8)) q =
     q\<lparr>request_problem_information := pick c (v8 \<noteq> 0) (request_problem_information q)\<rparr>"
  "fold apply_item (opt c (IWillDelayInterval v32)) q =
     q\<lparr>will_delay_interval := pick c (v32) (will_delay_interval q)\<rparr>"
  "fold apply_item (opt c (IRequestResponseInformation v8)) q =
     q\<lparr>request_response_information := pick c (v8 \<noteq> 0) (request_response_information q)\<rparr>"
  "fold apply_item (opt c (IResponseInformation str)) q =
     q\<lparr>response_information := pick c (str) (response_information q)\<rparr>"
  "fold apply_item (opt c (IServerReference str)) q =
     q\<lparr>server_reference := pick c (str) (server_reference q)\<rparr>"
  "fold apply_item (opt c (IReasonString str)) q = q\<lparr>reason_string := pick c (str) (reason_string q)\<rparr>"
  by (cases c; simp add: opt_def pick_def)+

lemma fold_apply_opt':
  "fold apply_item (opt c (IReceiveMaximum v16)) q =
     q\<lparr>has_receive_maximum := c \<or> has_receive_maximum q,
       receive_maximum := pick c (v16) (receive_maximum q)\<rparr>"
  "fold apply_item (opt c (ITopicAliasMaximum v16)) q =
     q\<lparr>topic_alias_maximum := pick c (v16) (topic_alias_maximum q)\<rparr>"
  "fold apply_item (opt c (ITopicAlias v16)) q =
     q\<lparr>has_topic_alias := c \<or> has_topic_alias q, topic_alias := pick c (v16) (topic_alias q)\<rparr>"
  "fold apply_item (opt c (IMaximumQoS v8)) q =
     q\<lparr>maximum_qos := pick c (v8) (maximum_qos q), has_maximum_qos := c \<or> has_maximum_qos q\<rparr>"
  "fold apply_item (opt c (IRetainAvailable v8)) q =
     q\<lparr>retain_available := pick c (v8 \<noteq> 0) (retain_available q)\<rparr>"
  "fold apply_item (map (\<lambda>(k, v). IUserProperty k v) ups) q =
     q\<lparr>user_properties := user_properties q @ ups\<rparr>"
  "fold apply_item (opt c (IMaximumPacketSize v32)) q =
     q\<lparr>has_maximum_packet_size := c \<or> has_maximum_packet_size q,
       maximum_packet_size := pick c (v32) (maximum_packet_size q)\<rparr>"
  "fold apply_item (opt c (IWildcardSubscriptionAvailable v8)) q =
     q\<lparr>wildcard_subscription_available := pick c (v8 \<noteq> 0) (wildcard_subscription_available q)\<rparr>"
  "fold apply_item (opt c (ISubscriptionIdentifierAvailable v8)) q =
     q\<lparr>subscription_identifier_available := pick c (v8 \<noteq> 0) (subscription_identifier_available q)\<rparr>"
  "fold apply_item (opt c (ISharedSubscriptionAvailable v8)) q =
     q\<lparr>shared_subscription_available := pick c (v8 \<noteq> 0) (shared_subscription_available q)\<rparr>"
  by ((cases c; simp add: opt_def pick_def)+, induction ups arbitrary: q, (auto)[2], (cases c; simp add: opt_def pick_def)+)

lemma fold_items: "canonical p \<Longrightarrow> fold apply_item (items p) default_properties = p"
  by (rule properties.equality)
    (simp_all add: items_def items_1_def items_2_def items_3_def fold_apply_opt fold_apply_opt'
      default_properties_def, auto simp: pick_def canonical_def)

lemma items_ok_append: "items_ok p (xs @ ys) \<longleftrightarrow> items_ok p xs \<and> items_ok (fold apply_item xs p) ys"
  by (induction xs arbitrary: p) auto

lemma items_ok_opt: "items_ok p (opt c it) \<longleftrightarrow> (c \<longrightarrow> item_ok p it)"
  by (simp add: opt_def)

lemma items_ok_users:
  "items_ok p (map (\<lambda>(k, v). IUserProperty k v) ups) \<longleftrightarrow> list_all (\<lambda>(k, v). str_ok k \<and> str_ok v) ups"
  by (induction ups arbitrary: p) auto

lemma items_ok_items: "strings_ok p \<Longrightarrow> canonical p \<Longrightarrow> items_ok default_properties (items p)"
  by (simp add: items_def items_1_def items_2_def items_3_def items_ok_append items_ok_opt items_ok_users
      fold_apply_opt fold_apply_opt' strings_ok_def canonical_def)
    (simp add: default_properties_def)

definition props_ok :: "properties \<Rightarrow> bool" where
  "props_ok p \<longleftrightarrow> strings_ok p \<and> canonical p \<and> props_len_ok p"

lemma parse_properties_enc:
  assumes "props_ok p" "length (enc_properties p) \<le> len"
  shows "parse_properties (enc_properties p @ rest) len default_properties =
    Inr (p, length (enc_properties p))"
  using assms parse_properties_items [of default_properties "items p" len rest]
  by (simp add: props_ok_def enc_properties_def items_ok_items props_len_ok_def fold_items)

lemma default_props_ok [simp]: "props_ok default_properties"
  by (simp add: props_ok_def strings_ok_def canonical_def props_len_ok_def items_def items_1_def items_2_def
      items_3_def opt_def default_properties_def)

lemma enc_default_properties: "enc_properties default_properties = [0]"
  by (simp add: enc_properties_def items_def items_1_def items_2_def
      items_3_def opt_def default_properties_def varint.simps)

text \<open>
  C20.  A property set with valid strings, whose fields are the ones a parser can produce and
  whose Subscription Identifier is below 128, is written as a block that parses back to it,
  whatever follows.
\<close>

theorem properties_roundtrip:
  assumes "buf_inv b" "alloc_total (buf_alloc b)" "props_ok p"
  shows "\<exists>b'. serialize_properties p b = (None, b') \<and>
    (let block = drop (buf_size b) (contents b') in
     parse_properties (block @ rest) (length block + length rest) default_properties = Inr (p, length block))"
proof -
  have "strings_ok p" "props_len_ok p" using assms(3) by (simp_all add: props_ok_def)
  then obtain b' where "serialize_properties p b = (None, b')" "contents b' = contents b @ enc_properties p"
    using emits_success [OF emits_properties assms(1,2)] by blast
  with assms show ?thesis by (simp add: parse_properties_enc)
qed

theorem properties_roundtrip_witness:
  "\<exists>b'. serialize_properties (default_properties\<lparr>topic_alias := 7, has_topic_alias := True\<rparr>) fresh_buffer = (None, b') \<and>
     parse_properties (contents b') (length (contents b')) default_properties =
       Inr (default_properties\<lparr>topic_alias := 7, has_topic_alias := True\<rparr>, length (contents b'))"
proof -
  let ?p = "default_properties\<lparr>topic_alias := 7, has_topic_alias := True\<rparr>"
  have "props_ok ?p"
    by (simp add: props_ok_def strings_ok_def canonical_def props_len_ok_def items_def items_1_def items_2_def
        items_3_def opt_def default_properties_def enc_item_def)
  from properties_roundtrip [OF fresh_buffer_ok(1,2) this, of "[]"] show ?thesis
    by (simp add: fresh_buffer_ok Let_def)
qed

lemma parse_subid_two:
  "x < 128 \<Longrightarrow> y < 128 \<Longrightarrow>
     parse_subid (of_nat (128 + x) # of_nat y # rest) 0 0 = Inr (of_nat (128 * x + y), 2)"
proof -
  assume xy: "x < 128" "y < 128"
  have b: "(of_nat (128 + x) :: byte) AND 0x80 \<noteq> 0" "(of_nat y :: byte) AND 0x80 = 0"
    using xy by (simp_all add: high_bit unat_of_nat take_bit_nat_eq_self unat_word_ariths)
  have g: "ucast ((of_nat (128 + x) :: byte) AND 0x7F) = (of_nat x :: u32)"
    "ucast ((of_nat y :: byte) AND 0x7F) = (of_nat y :: u32)"
    using xy unfolding low7 by (simp_all add: unsigned_of_nat take_bit_nat_eq_self)
  have "push_bit 7 (of_nat x) OR ucast ((of_nat y :: byte) AND 0x7F) =
      push_bit 7 (of_nat x) + (ucast ((of_nat y :: byte) AND 0x7F) :: u32)"
    by (rule disjunctive_add_eq_or [symmetric]) (auto simp: bit_eq_iff bit_simps mask_7F)
  then have "push_bit 7 (of_nat x) OR of_nat y = (of_nat (128 * x + y) :: u32)"
    unfolding g by (simp add: push_bit_eq_mult)
  with b g show ?thesis
    by (simp add: parse_subid.simps [of _ 0] parse_subid.simps [of _ "Suc 0"] Let_def)
qed

text \<open>
  C38.  A Subscription Identifier of two bytes comes back with its two groups of seven bits
  exchanged: the writer emits the least significant group first, the reader takes the first
  group as the most significant one.
\<close>

theorem subscription_identifier_swapped:
  assumes "128 \<le> n" "n < 16384"
  shows "parse_subid (varint n @ rest) 0 0 = Inr (of_nat (128 * (n mod 128) + n div 128), 2)"
proof -
  have "n div 128 < 128" using assms(2) by (simp add: div_less_iff_less_mult)
  moreover from this have "varint n = [of_nat (128 + n mod 128), of_nat (n div 128)]"
    using assms(1) by (simp add: varint.simps)
  ultimately show ?thesis using parse_subid_two [of "n mod 128" "n div 128" rest] by simp
qed

theorem subscription_identifier_swapped_witness:
  "parse_subid (varint 200) 0 0 = Inr (9217, 2)"
  using subscription_identifier_swapped [of 200 "[]"] by simp

end
