(* ===== verification/Mqtt_Packet.thy ===== *)
theory Mqtt_Packet
  imports Mqtt_Properties
begin

text \<open>
  The packet structs of \<^verbatim>\<open>src/protocol/mqtt_packet.h\<close>.  A reason code is the byte of the
  enum; a bit field has the width it has in the struct.  \<^verbatim>\<open>packet_id\<close> of a PUBLISH is not
  initialised by the constructor, so it is an option.  \<^verbatim>\<open>Packet::remaining_length\<close> is never
  written by the parser nor read by the serializer and is left out.
\<close>

type_synonym reason_code = byte

definition Success :: reason_code where "Success = 0x00"
definition GrantedQoS1 :: reason_code where "GrantedQoS1 = 0x01"
definition GrantedQoS2 :: reason_code where "GrantedQoS2 = 0x02"
definition UnsupportedProtocolVersion :: reason_code where "UnsupportedProtocolVersion = 0x84"
definition ClientIdentifierNotValid :: reason_code where "ClientIdentifierNotValid = 0x85"
definition BadUserNameOrPassword :: reason_code where "BadUserNameOrPassword = 0x86"
definition NotAuthorized :: reason_code where "NotAuthorized = 0x87"
definition ServerUnavailable :: reason_code where "ServerUnavailable = 0x88"
definition ServerBusy :: reason_code where "ServerBusy = 0x89"
definition Banned :: reason_code where "Banned = 0x8A"
definition ConnectionRateExceeded :: reason_code where "ConnectionRateExceeded = 0x9F"

record connect_flags =
  clean_start :: bool
  will_flag :: bool
  will_qos :: "2 word"
  will_retain :: bool
  password_flag :: bool
  username_flag :: bool
  reserved_flag :: bool

record connect_packet =
  protocol_name :: bytes
  protocol_version :: byte
  connect_flags :: connect_flags
  keep_alive :: u16
  client_id :: bytes
  will_topic :: bytes
  will_payload :: bytes
  username :: bytes
  password :: bytes
  connect_properties :: properties
  will_properties :: properties

record publish_packet =
  dup_flag :: bool
  publish_qos :: byte
  retain_flag :: bool
  topic_name :: bytes
  packet_id :: "u16 option"
  publish_properties :: properties
  publish_payload :: bytes

record subscription_options =
  option_qos :: byte
  no_local :: bool
  retain_as_published :: bool
  retain_handling :: byte

definition encode_options :: "subscription_options \<Rightarrow> byte" where
  "encode_options opts =
     (option_qos opts AND 0x03) OR (if no_local opts then 0x04 else 0) OR
     (if retain_as_published opts then 0x08 else 0) OR
     push_bit 4 (retain_handling opts AND 0x03)"

record topic_subscription =
  topic_filter :: bytes
  sub_options :: subscription_options

datatype packet =
    ConnectPacket connect_packet
  | ConnAckPacket bool reason_code properties
  | PublishPacket publish_packet
  | PubAckPacket u16 reason_code properties
  | PubRecPacket u16 reason_code properties
  | PubRelPacket u16 reason_code properties
  | PubCompPacket u16 reason_code properties
  | SubscribePacket u16 "topic_subscription list" properties
  | SubAckPacket u16 "reason_code list" properties
  | UnsubscribePacket u16 "bytes list" properties
  | UnsubAckPacket u16 "reason_code list" properties
  | PingReqPacket
  | PingRespPacket
  | DisconnectPacket reason_code properties
  | AuthPacket reason_code properties

text \<open>The two filter predicates; the bytes of \<^verbatim>\<open>$share/\<close>, \<^verbatim>\<open>+\<close> and \<^verbatim>\<open>#\<close> are written out.\<close>

definition share_prefix :: bytes where
  "share_prefix = [0x24, 0x73, 0x68, 0x61, 0x72, 0x65, 0x2F]"

definition is_shared_subscription_filter :: "bytes \<Rightarrow> bool" where
  "is_shared_subscription_filter f \<longleftrightarrow> 7 \<le> length f \<and> take 7 f = share_prefix"

definition topic_filter_has_wildcard :: "bytes \<Rightarrow> bool" where
  "topic_filter_has_wildcard f \<longleftrightarrow> 0x2B \<in> set f \<or> 0x23 \<in> set f"

text \<open>Decoding of the options byte of a SUBSCRIBE, and the legacy return codes.\<close>

definition decode_subscription_options :: "byte \<Rightarrow> bool \<Rightarrow> subscription_options result" where
  "decode_subscription_options raw legacy =
     (if (if legacy then raw AND 0xFC \<noteq> 0
          else raw AND 0xC0 \<noteq> 0 \<or> drop_bit 4 raw AND 0x03 = 3)
      then Inl MQ_ERR_PACKET_INVALID
      else Inr \<lparr>option_qos = raw AND 0x03,
                no_local = (\<not> legacy \<and> raw AND 0x04 \<noteq> 0),
                retain_as_published = (\<not> legacy \<and> raw AND 0x08 \<noteq> 0),
                retain_handling = (if legacy then 0 else drop_bit 4 raw AND 0x03)\<rparr>)"

definition map_reason_code_to_legacy_connack :: "reason_code \<Rightarrow> byte" where
  "map_reason_code_to_legacy_connack rc =
     (if rc = Success then 0x00
      else if rc = UnsupportedProtocolVersion then 0x01
      else if rc = ClientIdentifierNotValid then 0x02
      else if rc = ServerUnavailable \<or> rc = ServerBusy \<or> rc = ConnectionRateExceeded then 0x03
      else if rc = BadUserNameOrPassword then 0x04
      else if rc = NotAuthorized \<or> rc = Banned then 0x05
      else 0x05)"

definition map_reason_code_to_legacy_suback :: "reason_code \<Rightarrow> byte" where
  "map_reason_code_to_legacy_suback rc =
     (if rc = Success then 0x00
      else if rc = GrantedQoS1 then 0x01
      else if rc = GrantedQoS2 then 0x02
      else 0x80)"

end
