(* ===== verification/Mqtt_Parser.thy ===== *)
theory Mqtt_Parser
  imports Mqtt_Packet
begin

text \<open>
  The parsing half of \<^verbatim>\<open>MQTTParser\<close> (\<^verbatim>\<open>src/protocol/mqtt_parser.cpp\<close>): one definition per
  \<^verbatim>\<open>parse_*\<close> method, with the position \<^verbatim>\<open>pos\<close> and the length \<^verbatim>\<open>length\<close> the method was
  given.  Memory for the packet object comes from the connection's allocator;
  \<open>packet_memory\<close> says whether that allocation succeeds.  Some methods test the result and
  some use it directly.  \<open>container_memory\<close> says whether the call completes without a string
  or vector of the packet throwing \<^verbatim>\<open>std::bad_alloc\<close>, which \<^verbatim>\<open>parse_packet\<close> catches.
  \<open>temp_alloc i\<close> is the allocator as the \<open>i\<close>-th temporary buffer of a serializer sees it.
\<close>

record parser =
  protocol_version_hint :: byte
  packet_memory :: bool
  container_memory :: bool
  temp_alloc :: "nat \<Rightarrow> alloc"

definition is_legacy_protocol_hint :: "parser \<Rightarrow> bool" where
  "is_legacy_protocol_hint ps \<longleftrightarrow> protocol_version_hint ps < 5"

text \<open>\<^verbatim>\<open>begin_packet\<close> with and without the null test at the call.\<close>

definition begin_checked :: "parser \<Rightarrow> 'a result \<Rightarrow> 'a result" where
  "begin_checked ps k = (if packet_memory ps then k else Inl MQ_ERR_MEMORY_ALLOC)"

definition begin_unchecked :: "parser \<Rightarrow> 'a result \<Rightarrow> 'a result" where
  "begin_unchecked ps k = (if packet_memory ps then k else Inl UB_NULL_DEREFERENCE)"

text \<open>Skipping the type byte and the remaining length: the length and the position after it.\<close>

definition skip_header :: "bytes \<Rightarrow> nat \<Rightarrow> (u32 \<times> nat) result" where
  "skip_header buffer len =
     as_err MQ_ERR_PACKET_INVALID
       (bindE (parse_remaining_length (drop 1 buffer) (sz_sub len 1)) (\<lambda>(remaining_length, n).
          Inr (remaining_length, 1 + n)))"

definition string_at :: "bytes \<Rightarrow> nat \<Rightarrow> nat \<Rightarrow> (bytes \<times> nat) result" where
  "string_at buffer len pos =
     bindE (parse_mqtt_string (drop pos buffer) (sz_sub len pos)) (\<lambda>(str, n). Inr (str, pos + n))"

definition properties_at :: "bytes \<Rightarrow> nat \<Rightarrow> nat \<Rightarrow> (properties \<times> nat) result" where
  "properties_at buffer len pos =
     bindE (parse_properties (drop pos buffer) (sz_sub len pos) default_properties) (\<lambda>(p, n).
       Inr (p, pos + n))"

text \<open>The properties of CONNECT and PUBLISH: a protocol error is reported as such.\<close>

definition keep_protocol_err :: "'a result \<Rightarrow> 'a result" where
  "keep_protocol_err = map_err (\<lambda>e. if is_ub e then e
     else if e = MQ_ERR_PROTOCOL then MQ_ERR_PROTOCOL else MQ_ERR_PACKET_INVALID)"


subsection \<open>CONNECT\<close>

definition decode_connect_flags :: "byte \<Rightarrow> connect_flags" where
  "decode_connect_flags f =
     \<lparr>clean_start = (drop_bit 1 f AND 1 \<noteq> 0), will_flag = (drop_bit 2 f AND 1 \<noteq> 0),
      will_qos = ucast (drop_bit 3 f AND 3), will_retain = (drop_bit 5 f AND 1 \<noteq> 0),
      password_flag = (drop_bit 6 f AND 1 \<noteq> 0), username_flag = (drop_bit 7 f AND 1 \<noteq> 0),
      reserved_flag = (f AND 1 \<noteq> 0)\<rparr>"

definition opt_string_at :: "bool \<Rightarrow> bytes \<Rightarrow> nat \<Rightarrow> nat \<Rightarrow> (bytes \<times> nat) result" where
  "opt_string_at c buffer len pos =
     (if c then as_err MQ_ERR_PACKET_INVALID (string_at buffer len pos) else Inr ([], pos))"

text \<open>From the client identifier to the end of the payload.\<close>

definition parse_connect_payload ::
  "bytes \<Rightarrow> nat \<Rightarrow> nat \<Rightarrow> bool \<Rightarrow> connect_packet \<Rightarrow> packet result" where
  "parse_connect_payload buffer len pos is_v5 c =
     bindE (as_err MQ_ERR_CONNECT_CLIENT_ID (string_at buffer len pos)) (\<lambda>(cid, pos).
     let fl = connect_flags c in
     bindE (if will_flag fl \<and> is_v5
            then as_err MQ_ERR_PACKET_INVALID (properties_at buffer len pos)
            else Inr (default_properties, pos)) (\<lambda>(wprops, pos).
     bindE (opt_string_at (will_flag fl) buffer len pos) (\<lambda>(wtopic, pos).
     bindE (opt_string_at (will_flag fl) buffer len pos) (\<lambda>(wpayload, pos).
     bindE (opt_string_at (username_flag fl) buffer len pos) (\<lambda>(user, pos).
     bindE (opt_string_at (password_flag fl) buffer len pos) (\<lambda>(pass, pos).
       if pos > len then Inl MQ_ERR_PACKET_INCOMPLETE
       else Inr (ConnectPacket (c\<lparr>client_id := cid, will_properties := wprops, will_topic := wtopic,
                                  will_payload := wpayload, username := user, password := pass\<rparr>))))))))"

definition parse_connect :: "parser \<Rightarrow> bytes \<Rightarrow> nat \<Rightarrow> packet result" where
  "parse_connect ps buffer len =
     (if len < 10 then Inl MQ_ERR_PACKET_INCOMPLETE
      else begin_checked ps (
        bindE (skip_header buffer len) (\<lambda>(remaining_length, pos).
        bindE (as_err MQ_ERR_PACKET_INVALID (string_at buffer len pos)) (\<lambda>(name, pos).
        if pos + 1 > len then Inl MQ_ERR_PACKET_INCOMPLETE
        else bindE (rd buffer pos) (\<lambda>version.
        let pos = pos + 1 in
        if pos + 1 > len then Inl MQ_ERR_PACKET_INCOMPLETE
        else bindE (rd buffer pos) (\<lambda>f.
        let pos = pos + 1; fl = decode_connect_flags f in
        if reserved_flag fl then Inl MQ_ERR_PACKET_INVALID
        else if pos + 2 > len then Inl MQ_ERR_PACKET_INCOMPLETE
        else bindE (rd16 buffer pos) (\<lambda>ka.
        let pos = pos + 2; is_v5 = (version = 5); is_legacy = (version = 3 \<or> version = 4) in
        if \<not> is_v5 \<and> \<not> is_legacy then Inl MQ_ERR_CONNECT_PROTOCOL
        else bindE (if is_v5 then keep_protocol_err (properties_at buffer len pos)
                    else Inr (default_properties, pos)) (\<lambda>(props, pos).
          parse_connect_payload buffer len pos is_v5
            \<lparr>protocol_name = name, protocol_version = version, connect_flags = fl, keep_alive = ka,
             client_id = [], will_topic = [], will_payload = [], username = [], password = [],
             connect_properties = props, will_properties = default_properties\<rparr>)))))))) "


subsection \<open>PUBLISH\<close>

definition parse_publish :: "parser \<Rightarrow> bytes \<Rightarrow> nat \<Rightarrow> packet result" where
  "parse_publish ps buffer len =
     (if len < 2 then Inl MQ_ERR_PACKET_INCOMPLETE
      else begin_checked ps (
        bindE (rd buffer 0) (\<lambda>b.
        let raw_qos = drop_bit 1 b AND 0x03;
            q = (if raw_qos > 2 then 2 else raw_qos)
        in bindE (skip_header buffer len) (\<lambda>(remaining_length, header_size).
        bindE (as_err MQ_ERR_PUBLISH_TOPIC (string_at buffer len header_size)) (\<lambda>(topic, pos).
        bindE (if q > 0 then
                 (if pos + 2 > len then Inl MQ_ERR_PACKET_INCOMPLETE
                  else bindE (rd16 buffer pos) (\<lambda>pid. Inr (Some pid, pos + 2)))
               else Inr (None, pos)) (\<lambda>(pid, pos).
        bindE (if \<not> is_legacy_protocol_hint ps then keep_protocol_err (properties_at buffer len pos)
               else Inr (default_properties, pos)) (\<lambda>(props, pos).
        let payload_length = sz_sub (unat remaining_length) (pos - header_size) in
        bindE (parse_mqtt_binary_data (drop pos buffer) payload_length) (\<lambda>(data, _).
          Inr (PublishPacket
            \<lparr>dup_flag = (drop_bit 3 b AND 1 \<noteq> 0), publish_qos = q, retain_flag = (b AND 1 \<noteq> 0),
             topic_name = topic, packet_id = pid, publish_properties = props,
             publish_payload = data\<rparr>)))))))))"


subsection \<open>SUBSCRIBE and UNSUBSCRIBE\<close>

lemma string_at_pos:
  assumes "string_at buffer len pos = Inr (str, pos')"
  shows "pos < pos'"
  using assms parse_mqtt_string_Inr(2)
  by (fastforce simp: string_at_def bindE_eq_Inr)

function subscriptions_loop ::
  "parser \<Rightarrow> bytes \<Rightarrow> nat \<Rightarrow> nat \<Rightarrow> topic_subscription list \<Rightarrow> topic_subscription list result" where
  "subscriptions_loop ps buffer payload_end pos subs =
     (if pos < payload_end then
        bindE (as_err MQ_ERR_SUBSCRIBE_TOPIC (string_at buffer payload_end pos)) (\<lambda>(filt, pos').
          if pos' + 1 > payload_end then Inl MQ_ERR_PACKET_INCOMPLETE
          else bindE (rd buffer pos') (\<lambda>raw.
            bindE (decode_subscription_options raw (is_legacy_protocol_hint ps)) (\<lambda>opts.
              subscriptions_loop ps buffer payload_end (pos' + 1)
                (subs @ [\<lparr>topic_filter = filt, sub_options = opts\<rparr>]))))
      else Inr subs)"
  by pat_completeness auto
termination
  by (relation "measure (\<lambda>(_, _, payload_end, pos, _). payload_end - pos)") (auto dest!: string_at_pos)

declare subscriptions_loop.simps [simp del]

definition parse_subscribe :: "parser \<Rightarrow> bytes \<Rightarrow> nat \<Rightarrow> packet result" where
  "parse_subscribe ps buffer len =
     (if len < 5 then Inl MQ_ERR_PACKET_INCOMPLETE
      else begin_checked ps (
        bindE (skip_header buffer len) (\<lambda>(remaining_length, pos).
        let payload_end = pos + unat remaining_length in
        if pos + 2 > len then Inl MQ_ERR_PACKET_INCOMPLETE
        else bindE (rd16 buffer pos) (\<lambda>pid.
        let pos = pos + 2 in
        bindE (if \<not> is_legacy_protocol_hint ps
               then as_err MQ_ERR_PACKET_INVALID (properties_at buffer payload_end pos)
               else Inr (default_properties, pos)) (\<lambda>(props, pos).
        bindE (subscriptions_loop ps buffer payload_end pos []) (\<lambda>subs.
          Inr (SubscribePacket pid subs props)))))))"

function filters_loop :: "bytes \<Rightarrow> nat \<Rightarrow> nat \<Rightarrow> bytes list \<Rightarrow> bytes list result" where
  "filters_loop buffer payload_end pos filters =
     (if pos < payload_end then
        bindE (as_err MQ_ERR_PACKET_INVALID (string_at buffer payload_end pos)) (\<lambda>(filt, pos').
          filters_loop buffer payload_end pos' (filters @ [filt]))
      else Inr filters)"
  by pat_completeness auto
termination
  by (relation "measure (\<lambda>(_, payload_end, pos, _). payload_end - pos)") (auto dest!: string_at_pos)

declare filters_loop.simps [simp del]

definition parse_unsubscribe :: "parser \<Rightarrow> bytes \<Rightarrow> nat \<Rightarrow> packet result" where
  "parse_unsubscribe ps buffer len =
     (if len < 5 then Inl MQ_ERR_PACKET_INCOMPLETE
      else begin_checked ps (
        bindE (skip_header buffer len) (\<lambda>(remaining_length, pos).
        let payload_end = pos + unat remaining_length in
        if pos + 2 > len then Inl MQ_ERR_PACKET_INCOMPLETE
        else bindE (rd16 buffer pos) (\<lambda>pid.
        let pos = pos + 2 in
        bindE (if \<not> is_legacy_protocol_hint ps
               then as_err MQ_ERR_PACKET_INVALID (properties_at buffer payload_end pos)
               else Inr (default_properties, pos)) (\<lambda>(props, pos).
        bindE (filters_loop buffer payload_end pos []) (\<lambda>filters.
          Inr (UnsubscribePacket pid filters props)))))))"


subsection \<open>CONNACK\<close>

text \<open>\<^verbatim>\<open>remaining_length - 2\<close> is computed in 32 bits and wraps for a length of 0 or 1.\<close>

definition parse_connack :: "parser \<Rightarrow> bytes \<Rightarrow> nat \<Rightarrow> packet result" where
  "parse_connack ps buffer len =
     (if len < 4 then Inl MQ_ERR_PACKET_INVALID
      else begin_unchecked ps (
        bindE (skip_header buffer len) (\<lambda>(remaining_length, pos).
        if pos + unat remaining_length > len then Inl MQ_ERR_PACKET_INCOMPLETE
        else if pos + 2 > len then Inl MQ_ERR_PACKET_INCOMPLETE
        else bindE (rd buffer pos) (\<lambda>ack_flags.
        if ack_flags AND 0xFE \<noteq> 0 then Inl MQ_ERR_PACKET_INVALID
        else bindE (rd buffer (pos + 1)) (\<lambda>rc.
        let pos = pos + 2; present = (ack_flags AND 0x01 \<noteq> 0) in
        if is_legacy_protocol_hint ps then
          (if remaining_length \<noteq> 2 then Inl MQ_ERR_PACKET_INVALID
           else Inr (ConnAckPacket present rc default_properties))
        else
          let properties_length = unat (remaining_length - 2) in
          if properties_length > 0 then
            bindE (parse_properties (drop pos buffer) properties_length default_properties) (\<lambda>(props, n).
              if n \<noteq> properties_length then Inl MQ_ERR_PACKET_INVALID
              else Inr (ConnAckPacket present rc props))
          else Inr (ConnAckPacket present rc default_properties))))))"


subsection \<open>PUBACK, PUBREC, PUBREL, PUBCOMP\<close>

text \<open>What follows the packet identifier, the same in the four methods.\<close>

definition ack_tail ::
  "(u16 \<Rightarrow> reason_code \<Rightarrow> properties \<Rightarrow> packet) \<Rightarrow> u16 \<Rightarrow> bytes \<Rightarrow> nat \<Rightarrow> nat \<Rightarrow> packet result" where
  "ack_tail mk pid buffer payload_end pos =
     (if pos < payload_end then
        bindE (rd buffer pos) (\<lambda>rc.
          if pos + 1 < payload_end then
            bindE (properties_at buffer payload_end (pos + 1)) (\<lambda>(props, _). Inr (mk pid rc props))
          else Inr (mk pid rc default_properties))
      else Inr (mk pid Success default_properties))"

definition parse_puback :: "parser \<Rightarrow> bytes \<Rightarrow> nat \<Rightarrow> packet result" where
  "parse_puback ps buffer len =
     (if len < 4 then Inl MQ_ERR_PACKET_INVALID
      else begin_unchecked ps (
        bindE (skip_header buffer len) (\<lambda>(remaining_length, pos).
        let payload_end = pos + unat remaining_length in
        if payload_end > len then Inl MQ_ERR_PACKET_INCOMPLETE
        else if pos + 2 > payload_end then Inl MQ_ERR_PACKET_INVALID
        else bindE (rd16 buffer pos) (\<lambda>pid.
        if is_legacy_protocol_hint ps then
          (if remaining_length \<noteq> 2 then Inl MQ_ERR_PACKET_INVALID
           else Inr (PubAckPacket pid Success default_properties))
        else ack_tail PubAckPacket pid buffer payload_end (pos + 2)))))"

definition parse_pubrec :: "parser \<Rightarrow> bytes \<Rightarrow> nat \<Rightarrow> packet result" where
  "parse_pubrec ps buffer len =
     (if len < 4 then Inl MQ_ERR_PACKET_INVALID
      else begin_unchecked ps (
        bindE (skip_header buffer len) (\<lambda>(remaining_length, pos).
        let payload_end = pos + unat remaining_length in
        if payload_end > len then Inl MQ_ERR_PACKET_INCOMPLETE
        else if pos + 2 > payload_end then Inl MQ_ERR_PACKET_INVALID
        else bindE (rd16 buffer pos) (\<lambda>pid.
        if is_legacy_protocol_hint ps then
          (if remaining_length \<noteq> 2 then Inl MQ_ERR_PACKET_INVALID
           else Inr (PubRecPacket pid Success default_properties))
        else ack_tail PubRecPacket pid buffer payload_end (pos + 2)))))"

text \<open>
  PUBREL and PUBCOMP test the packet identifier against \<^verbatim>\<open>length\<close> instead of the end of
  the packet, and compute that end after skipping the identifier.
\<close>

definition parse_pubrel :: "parser \<Rightarrow> bytes \<Rightarrow> nat \<Rightarrow> packet result" where
  "parse_pubrel ps buffer len =
     (if len < 4 then Inl MQ_ERR_PACKET_INVALID
      else begin_unchecked ps (
        bindE (skip_header buffer len) (\<lambda>(remaining_length, pos).
        if pos + unat remaining_length > len then Inl MQ_ERR_PACKET_INCOMPLETE
        else if pos + 2 > len then Inl MQ_ERR_PACKET_INCOMPLETE
        else bindE (rd16 buffer pos) (\<lambda>pid.
        if is_legacy_protocol_hint ps then
          (if remaining_length \<noteq> 2 then Inl MQ_ERR_PACKET_INVALID
           else Inr (PubRelPacket pid Success default_properties))
        else
          let pos = pos + 2; payload_end = pos + unat remaining_length - 2 in
          ack_tail PubRelPacket pid buffer payload_end pos))))"

definition parse_pubcomp :: "parser \<Rightarrow> bytes \<Rightarrow> nat \<Rightarrow> packet result" where
  "parse_pubcomp ps buffer len =
     (if len < 4 then Inl MQ_ERR_PACKET_INVALID
      else begin_unchecked ps (
        bindE (skip_header buffer len) (\<lambda>(remaining_length, pos).
        if pos + unat remaining_length > len then Inl MQ_ERR_PACKET_INCOMPLETE
        else if pos + 2 > len then Inl MQ_ERR_PACKET_INCOMPLETE
        else bindE (rd16 buffer pos) (\<lambda>pid.
        if is_legacy_protocol_hint ps then
          (if remaining_length \<noteq> 2 then Inl MQ_ERR_PACKET_INVALID
           else Inr (PubCompPacket pid Success default_properties))
        else
          let pos = pos + 2; payload_end = pos + unat remaining_length - 2 in
          ack_tail PubCompPacket pid buffer payload_end pos))))"


subsection \<open>SUBACK and UNSUBACK\<close>

fun reason_codes_loop :: "bytes \<Rightarrow> nat \<Rightarrow> nat \<Rightarrow> reason_code list result" where
  "reason_codes_loop buffer pos 0 = Inr []"
| "reason_codes_loop buffer pos (Suc n) =
     bindE (rd buffer pos) (\<lambda>rc. bindE (reason_codes_loop buffer (pos + 1) n) (\<lambda>rcs. Inr (rc # rcs)))"

text \<open>The loop runs \<^verbatim>\<open>payload_end - pos\<close> times, or not at all.\<close>

definition reason_codes :: "bytes \<Rightarrow> nat \<Rightarrow> nat \<Rightarrow> reason_code list result" where
  "reason_codes buffer payload_end pos = reason_codes_loop buffer pos (payload_end - pos)"

definition parse_suback :: "parser \<Rightarrow> bytes \<Rightarrow> nat \<Rightarrow> packet result" where
  "parse_suback ps buffer len =
     (if len < 5 then Inl MQ_ERR_PACKET_INVALID
      else begin_unchecked ps (
        bindE (skip_header buffer len) (\<lambda>(remaining_length, pos).
        if pos + unat remaining_length > len then Inl MQ_ERR_PACKET_INCOMPLETE
        else if pos + 2 > len then Inl MQ_ERR_PACKET_INCOMPLETE
        else bindE (rd16 buffer pos) (\<lambda>pid.
        let pos = pos + 2; payload_end = pos + unat remaining_length - 2 in
        bindE (if \<not> is_legacy_protocol_hint ps \<and> pos < payload_end
               then properties_at buffer payload_end pos
               else Inr (default_properties, pos)) (\<lambda>(props, pos).
        bindE (reason_codes buffer payload_end pos) (\<lambda>rcs.
          if rcs = [] then Inl MQ_ERR_PACKET_INVALID else Inr (SubAckPacket pid rcs props)))))))"

definition parse_unsuback :: "parser \<Rightarrow> bytes \<Rightarrow> nat \<Rightarrow> packet result" where
  "parse_unsuback ps buffer len =
     (if len < 4 then Inl MQ_ERR_PACKET_INVALID
      else begin_unchecked ps (
        bindE (skip_header buffer len) (\<lambda>(remaining_length, pos).
        if pos + unat remaining_length > len then Inl MQ_ERR_PACKET_INCOMPLETE
        else if pos + 2 > len then Inl MQ_ERR_PACKET_INCOMPLETE
        else bindE (rd16 buffer pos) (\<lambda>pid.
        if is_legacy_protocol_hint ps then
          (if remaining_length \<noteq> 2 then Inl MQ_ERR_PACKET_INVALID
           else Inr (UnsubAckPacket pid [] default_properties))
        else
          let pos = pos + 2; payload_end = pos + unat remaining_length - 2 in
          bindE (if pos < payload_end then properties_at buffer payload_end pos
                 else Inr (default_properties, pos)) (\<lambda>(props, pos).
          bindE (reason_codes buffer payload_end pos) (\<lambda>rcs.
            if rcs = [] then Inl MQ_ERR_PACKET_INVALID else Inr (UnsubAckPacket pid rcs props)))))))"


subsection \<open>PINGREQ, PINGRESP, DISCONNECT, AUTH\<close>

definition parse_pingreq :: "parser \<Rightarrow> bytes \<Rightarrow> nat \<Rightarrow> packet result" where
  "parse_pingreq ps buffer len = begin_unchecked ps (Inr PingReqPacket)"

definition parse_pingresp :: "parser \<Rightarrow> bytes \<Rightarrow> nat \<Rightarrow> packet result" where
  "parse_pingresp ps buffer len = begin_unchecked ps (Inr PingRespPacket)"

definition parse_disconnect :: "parser \<Rightarrow> bytes \<Rightarrow> nat \<Rightarrow> packet result" where
  "parse_disconnect ps buffer len =
     (if len < 2 then Inl MQ_ERR_PACKET_INCOMPLETE
      else begin_unchecked ps (
        bindE (skip_header buffer len) (\<lambda>(remaining_length, pos).
        let payload_end = pos + unat remaining_length in
        if payload_end > len then Inl MQ_ERR_PACKET_INCOMPLETE
        else if is_legacy_protocol_hint ps then
          (if remaining_length \<noteq> 0 then Inl MQ_ERR_PACKET_INVALID
           else Inr (DisconnectPacket Success default_properties))
        else if remaining_length > 0 then
          (if pos \<ge> payload_end then Inl MQ_ERR_PACKET_INCOMPLETE
           else bindE (rd buffer pos) (\<lambda>rc.
             if pos + 1 < payload_end then
               bindE (properties_at buffer payload_end (pos + 1)) (\<lambda>(props, _).
                 Inr (DisconnectPacket rc props))
             else Inr (DisconnectPacket rc default_properties)))
        else Inr (DisconnectPacket Success default_properties))))"

definition parse_auth :: "parser \<Rightarrow> bytes \<Rightarrow> nat \<Rightarrow> packet result" where
  "parse_auth ps buffer len =
     (if is_legacy_protocol_hint ps then Inl MQ_ERR_PACKET_TYPE
      else if len < 2 then Inl MQ_ERR_PACKET_INCOMPLETE
      else begin_checked ps (
        bindE (skip_header buffer len) (\<lambda>(remaining_length, pos).
        let payload_end = pos + unat remaining_length in
        if pos < payload_end then
          bindE (rd buffer pos) (\<lambda>rc.
            if pos + 1 < payload_end then
              bindE (properties_at buffer payload_end (pos + 1)) (\<lambda>(props, _).
                Inr (AuthPacket rc props))
            else Inr (AuthPacket rc default_properties))
        else Inr (AuthPacket Success default_properties))))"


subsection \<open>Dispatch\<close>

definition with_flags :: "byte \<Rightarrow> byte \<Rightarrow> 'a result \<Rightarrow> 'a result" where
  "with_flags b expected k = (if b AND 0x0F \<noteq> expected then Inl MQ_ERR_PACKET_TYPE else k)"

definition dispatch_packet :: "parser \<Rightarrow> bytes \<Rightarrow> nat \<Rightarrow> packet result" where
  "dispatch_packet ps buffer len =
     (if len < 2 then Inl MQ_ERR_PACKET_INCOMPLETE
      else bindE (rd buffer 0) (\<lambda>b.
      bindE (as_err MQ_ERR_PACKET_INVALID (parse_remaining_length (drop 1 buffer) (len - 1)))
        (\<lambda>(remaining_length, bytes_read).
      if len < 1 + bytes_read + unat remaining_length then Inl MQ_ERR_PACKET_INCOMPLETE
      else let t = b AND 0xF0 in
        if t = 0x10 then with_flags b 0x00 (parse_connect ps buffer len)
        else if t = 0x30 then parse_publish ps buffer len
        else if t = 0x80 then with_flags b 0x02 (parse_subscribe ps buffer len)
        else if t = 0xA0 then with_flags b 0x02 (parse_unsubscribe ps buffer len)
        else if t = 0x20 then with_flags b 0x00 (parse_connack ps buffer len)
        else if t = 0x40 then with_flags b 0x00 (parse_puback ps buffer len)
        else if t = 0x50 then with_flags b 0x00 (parse_pubrec ps buffer len)
        else if t = 0x60 then with_flags b 0x02 (parse_pubrel ps buffer len)
        else if t = 0x70 then with_flags b 0x00 (parse_pubcomp ps buffer len)
        else if t = 0x90 then with_flags b 0x00 (parse_suback ps buffer len)
        else if t = 0xB0 then with_flags b 0x00 (parse_unsuback ps buffer len)
        else if t = 0xC0 then with_flags b 0x00 (parse_pingreq ps buffer len)
        else if t = 0xD0 then with_flags b 0x00 (parse_pingresp ps buffer len)
        else if t = 0xE0 then with_flags b 0x00 (parse_disconnect ps buffer len)
        else if t = 0xF0 then with_flags b 0x00
          (if is_legacy_protocol_hint ps then Inl MQ_ERR_PACKET_TYPE else parse_auth ps buffer len)
        else Inl MQ_ERR_PACKET_TYPE)))"

definition parse_packet :: "parser \<Rightarrow> bytes \<Rightarrow> nat \<Rightarrow> packet result" where
  "parse_packet ps buffer len =
     (if container_memory ps then dispatch_packet ps buffer len else Inl MQ_ERR_MEMORY_ALLOC)"

text \<open>A parser with memory, for examples.\<close>

definition example_parser :: "byte \<Rightarrow> parser" where
  "example_parser v = \<lparr>protocol_version_hint = v, packet_memory = True, container_memory = True,
     temp_alloc = (\<lambda>_ n. Some (replicate n 0))\<rparr>"

end
