(* ===== verification/Mqtt_Serializer.thy ===== *)
theory Mqtt_Serializer
  imports Mqtt_Parser
begin

text \<open>
  The serializing half of \<^verbatim>\<open>MQTTParser\<close>: one definition per \<^verbatim>\<open>serialize_*\<close> method.  A
  method clears the buffer it is given, and writes the properties to a temporary buffer
  first where it needs their size for the remaining length.
\<close>

definition with_temp :: "alloc \<Rightarrow> bop \<Rightarrow> (bytes \<Rightarrow> bop) \<Rightarrow> bop" where
  "with_temp a f k b =
     (case f (new_buffer a 0) of
        (Some e, _) \<Rightarrow> (Some e, b)
      | (None, t) \<Rightarrow> k (contents t) b)"

definition clear_op :: bop where
  "clear_op b = (None, clear b)"

definition PT_CONNECT :: byte where "PT_CONNECT = 0x10"
definition PT_CONNACK :: byte where "PT_CONNACK = 0x20"
definition PT_PUBLISH :: byte where "PT_PUBLISH = 0x30"
definition PT_PUBACK :: byte where "PT_PUBACK = 0x40"
definition PT_PUBREC :: byte where "PT_PUBREC = 0x50"
definition PT_PUBREL :: byte where "PT_PUBREL = 0x60"
definition PT_PUBCOMP :: byte where "PT_PUBCOMP = 0x70"
definition PT_SUBSCRIBE :: byte where "PT_SUBSCRIBE = 0x80"
definition PT_SUBACK :: byte where "PT_SUBACK = 0x90"
definition PT_UNSUBSCRIBE :: byte where "PT_UNSUBSCRIBE = 0xA0"
definition PT_UNSUBACK :: byte where "PT_UNSUBACK = 0xB0"
definition PT_PINGREQ :: byte where "PT_PINGREQ = 0xC0"
definition PT_PINGRESP :: byte where "PT_PINGRESP = 0xD0"
definition PT_DISCONNECT :: byte where "PT_DISCONNECT = 0xE0"
definition PT_AUTH :: byte where "PT_AUTH = 0xF0"

lemmas packet_types =
  PT_CONNECT_def PT_CONNACK_def PT_PUBLISH_def PT_PUBACK_def PT_PUBREC_def PT_PUBREL_def
  PT_PUBCOMP_def PT_SUBSCRIBE_def PT_SUBACK_def PT_UNSUBSCRIBE_def PT_UNSUBACK_def
  PT_PINGREQ_def PT_PINGRESP_def PT_DISCONNECT_def PT_AUTH_def


subsection \<open>CONNECT\<close>

definition encode_connect_flags :: "connect_flags \<Rightarrow> byte" where
  "encode_connect_flags fl =
     push_bit 1 (of_bool (clean_start fl)) OR push_bit 2 (of_bool (will_flag fl)) OR
     push_bit 3 (ucast (will_qos fl)) OR push_bit 5 (of_bool (will_retain fl)) OR
     push_bit 6 (of_bool (password_flag fl)) OR push_bit 7 (of_bool (username_flag fl))"

definition connect_total_length :: "connect_packet \<Rightarrow> nat \<Rightarrow> nat \<Rightarrow> nat" where
  "connect_total_length c will_props_size props_size =
     (2 + length (protocol_name c)) + 1 + 1 + 2 + (2 + length (client_id c))
   + (if will_flag (connect_flags c)
      then (2 + length (will_topic c)) + (2 + length (will_payload c)) + will_props_size else 0)
   + (if username_flag (connect_flags c) then 2 + length (username c) else 0)
   + (if password_flag (connect_flags c) then 2 + length (password c) else 0)
   + props_size"

definition serialize_connect :: "parser \<Rightarrow> connect_packet \<Rightarrow> bop" where
  "serialize_connect ps c =
     (let is_legacy = (protocol_version c = 3 \<or> protocol_version c = 4);
          fl = connect_flags c;
          measured = (\<lambda>i cond props k. if cond
            then with_temp (temp_alloc ps i) (serialize_properties props) (\<lambda>t. k (length t)) else k 0)
      in then_op clear_op
        (measured 0 (will_flag fl \<and> \<not> is_legacy) (will_properties c) (\<lambda>will_props_size.
         measured 1 (\<not> is_legacy) (connect_properties c) (\<lambda>props_size.
           let total_length = connect_total_length c will_props_size props_size in
           seq_ops
             [reserve (1 + 4 + total_length),
              push_back PT_CONNECT,
              serialize_remaining_length (of_nat total_length),
              serialize_mqtt_string (protocol_name c),
              push_back (protocol_version c),
              push_back (encode_connect_flags fl),
              push_u16 (keep_alive c),
              when_op (\<not> is_legacy) (serialize_properties (connect_properties c)),
              serialize_mqtt_string (client_id c),
              when_op (will_flag fl)
                (seq_ops [when_op (\<not> is_legacy) (serialize_properties (will_properties c)),
                          serialize_mqtt_string (will_topic c),
                          serialize_mqtt_string (will_payload c)]),
              when_op (username_flag fl) (serialize_mqtt_string (username c)),
              when_op (password_flag fl) (serialize_mqtt_string (password c))]))))"


subsection \<open>PUBLISH\<close>

definition push_packet_id :: "u16 option \<Rightarrow> bop" where
  "push_packet_id pid = (case pid of None \<Rightarrow> fail_op UB_UNINITIALISED | Some v \<Rightarrow> push_u16 v)"

definition publish_flags :: "bool \<Rightarrow> byte \<Rightarrow> bool \<Rightarrow> byte" where
  "publish_flags dup q retain =
     PT_PUBLISH OR (if dup then 0x08 else 0x00) OR push_bit 1 (q AND 0x03) OR
     (if retain then 0x01 else 0x00)"

definition serialize_publish_header ::
  "parser \<Rightarrow> bytes \<Rightarrow> byte \<Rightarrow> bool \<Rightarrow> bool \<Rightarrow> u16 option \<Rightarrow> properties \<Rightarrow> nat \<Rightarrow> bop" where
  "serialize_publish_header ps topic q retain dup pid props payload_size =
     (let is_legacy = is_legacy_protocol_hint ps;
          body = (\<lambda>prop_bytes.
            let total_length = (2 + length topic) + (if q > 0 then 2 else 0)
                  + (if \<not> is_legacy then length prop_bytes else 0) + payload_size
            in if total_length > 268435455 then fail_op MQ_ERR_PACKET_TOO_LARGE
               else seq_ops
                 [reserve (1 + 4 + total_length - payload_size),
                  push_back (publish_flags dup q retain),
                  serialize_remaining_length (of_nat total_length),
                  serialize_mqtt_string topic,
                  when_op (q > 0) (push_packet_id pid),
                  when_op (\<not> is_legacy) (buf_append prop_bytes)])
      in then_op clear_op
        (if \<not> is_legacy then with_temp (temp_alloc ps 0) (serialize_properties props) body
         else body []))"

definition serialize_publish :: "parser \<Rightarrow> publish_packet \<Rightarrow> bop" where
  "serialize_publish ps p =
     then_op
       (serialize_publish_header ps (topic_name p) (publish_qos p) (retain_flag p) (dup_flag p)
          (packet_id p) (publish_properties p) (length (publish_payload p)))
       (buf_append (publish_payload p))"


subsection \<open>Acknowledgements\<close>

definition serialize_connack :: "parser \<Rightarrow> bool \<Rightarrow> reason_code \<Rightarrow> properties \<Rightarrow> bop" where
  "serialize_connack ps session_present rc props =
     seq_ops [clear_op, push_back PT_CONNACK,
       (if is_legacy_protocol_hint ps then
          seq_ops [serialize_remaining_length 2, push_back (if session_present then 1 else 0),
                   push_back (map_reason_code_to_legacy_connack rc)]
        else with_temp (temp_alloc ps 0) (serialize_properties props) (\<lambda>t.
          seq_ops [serialize_remaining_length (2 + of_nat (length t)),
                   push_back (if session_present then 1 else 0), push_back rc, buf_append t]))]"

text \<open>The common text of the four publish acknowledgements; only the first byte differs.\<close>

definition serialize_ack :: "byte \<Rightarrow> parser \<Rightarrow> u16 \<Rightarrow> reason_code \<Rightarrow> properties \<Rightarrow> bop" where
  "serialize_ack first ps pid rc props =
     seq_ops [clear_op, push_back first,
       (if is_legacy_protocol_hint ps then seq_ops [serialize_remaining_length 2, push_u16 pid]
        else with_temp (temp_alloc ps 0) (serialize_properties props) (\<lambda>t.
          seq_ops [serialize_remaining_length (2 + (of_nat (length t) + 1)), push_u16 pid,
                   push_back rc, buf_append t]))]"

definition serialize_puback :: "parser \<Rightarrow> u16 \<Rightarrow> reason_code \<Rightarrow> properties \<Rightarrow> bop" where
  "serialize_puback = serialize_ack PT_PUBACK"

definition serialize_pubrec :: "parser \<Rightarrow> u16 \<Rightarrow> reason_code \<Rightarrow> properties \<Rightarrow> bop" where
  "serialize_pubrec = serialize_ack PT_PUBREC"

definition serialize_pubrel :: "parser \<Rightarrow> u16 \<Rightarrow> reason_code \<Rightarrow> properties \<Rightarrow> bop" where
  "serialize_pubrel = serialize_ack (PT_PUBREL OR 0x02)"

definition serialize_pubcomp :: "parser \<Rightarrow> u16 \<Rightarrow> reason_code \<Rightarrow> properties \<Rightarrow> bop" where
  "serialize_pubcomp = serialize_ack PT_PUBCOMP"

definition serialize_suback :: "parser \<Rightarrow> u16 \<Rightarrow> reason_code list \<Rightarrow> properties \<Rightarrow> bop" where
  "serialize_suback ps pid rcs props =
     seq_ops [clear_op, push_back PT_SUBACK,
       (if is_legacy_protocol_hint ps then
          seq_ops [serialize_remaining_length (2 + of_nat (length rcs)), push_u16 pid,
                   seq_ops (map (\<lambda>rc. push_back (map_reason_code_to_legacy_suback rc)) rcs)]
        else with_temp (temp_alloc ps 0) (serialize_properties props) (\<lambda>t.
          seq_ops [serialize_remaining_length (2 + of_nat (length t) + of_nat (length rcs)),
                   push_u16 pid, buf_append t, seq_ops (map push_back rcs)]))]"

definition serialize_unsuback :: "parser \<Rightarrow> u16 \<Rightarrow> reason_code list \<Rightarrow> properties \<Rightarrow> bop" where
  "serialize_unsuback ps pid rcs props =
     seq_ops [clear_op, push_back PT_UNSUBACK,
       (if is_legacy_protocol_hint ps then seq_ops [serialize_remaining_length 2, push_u16 pid]
        else with_temp (temp_alloc ps 0) (serialize_properties props) (\<lambda>t.
          seq_ops [serialize_remaining_length (2 + of_nat (length t) + of_nat (length rcs)),
                   push_u16 pid, buf_append t, seq_ops (map push_back rcs)]))]"


subsection \<open>The remaining packets\<close>

definition serialize_pingreq :: bop where
  "serialize_pingreq = seq_ops [clear_op, push_back PT_PINGREQ, push_back 0x00]"

definition serialize_pingresp :: bop where
  "serialize_pingresp = seq_ops [clear_op, push_back PT_PINGRESP, push_back 0x00]"

definition serialize_disconnect :: "parser \<Rightarrow> reason_code \<Rightarrow> properties \<Rightarrow> bop" where
  "serialize_disconnect ps rc props =
     seq_ops [clear_op, push_back PT_DISCONNECT,
       (if is_legacy_protocol_hint ps then push_back 0x00
        else with_temp (temp_alloc ps 0) (serialize_properties props) (\<lambda>t.
          seq_ops [serialize_remaining_length (1 + of_nat (length t)), push_back rc, buf_append t]))]"

definition serialize_auth :: "parser \<Rightarrow> reason_code \<Rightarrow> properties \<Rightarrow> bop" where
  "serialize_auth ps rc props =
     (if is_legacy_protocol_hint ps then fail_op MQ_ERR_PACKET_TYPE
      else seq_ops [clear_op, push_back PT_AUTH,
        with_temp (temp_alloc ps 0) (serialize_properties props) (\<lambda>t.
          seq_ops [serialize_remaining_length (1 + of_nat (length t)), push_back rc, buf_append t])])"

definition maybe_temp :: "parser \<Rightarrow> properties \<Rightarrow> (bytes \<Rightarrow> bop) \<Rightarrow> bop" where
  "maybe_temp ps props k =
     (if \<not> is_legacy_protocol_hint ps
      then with_temp (temp_alloc ps 0) (serialize_properties props) k else k [])"

definition serialize_subscribe :: "parser \<Rightarrow> u16 \<Rightarrow> topic_subscription list \<Rightarrow> properties \<Rightarrow> bop" where
  "serialize_subscribe ps pid subs props =
     seq_ops [clear_op, push_back (PT_SUBSCRIBE OR 0x02),
       maybe_temp ps props (\<lambda>t.
         let total_length = 2 + (if \<not> is_legacy_protocol_hint ps then length t else 0)
               + sum_list (map (\<lambda>s. (2 + length (topic_filter s)) + 1) subs)
         in seq_ops [serialize_remaining_length (of_nat total_length), push_u16 pid,
              when_op (\<not> is_legacy_protocol_hint ps) (buf_append t),
              seq_ops (map (\<lambda>s. seq_ops [serialize_mqtt_string (topic_filter s),
                                         push_back (encode_options (sub_options s))]) subs)])]"

definition serialize_unsubscribe :: "parser \<Rightarrow> u16 \<Rightarrow> bytes list \<Rightarrow> properties \<Rightarrow> bop" where
  "serialize_unsubscribe ps pid filters props =
     seq_ops [clear_op, push_back (PT_UNSUBSCRIBE OR 0x02),
       maybe_temp ps props (\<lambda>t.
         let total_length = 2 + (if \<not> is_legacy_protocol_hint ps then length t else 0)
               + sum_list (map (\<lambda>f. 2 + length f) filters)
         in seq_ops [serialize_remaining_length (of_nat total_length), push_u16 pid,
              when_op (\<not> is_legacy_protocol_hint ps) (buf_append t),
              seq_ops (map serialize_mqtt_string filters)])]"

fun serialize_packet :: "parser \<Rightarrow> packet \<Rightarrow> bop" where
  "serialize_packet ps (ConnectPacket c) = serialize_connect ps c"
| "serialize_packet ps (ConnAckPacket present rc props) = serialize_connack ps present rc props"
| "serialize_packet ps (PublishPacket p) = serialize_publish ps p"
| "serialize_packet ps (PubAckPacket pid rc props) = serialize_puback ps pid rc props"
| "serialize_packet ps (PubRecPacket pid rc props) = serialize_pubrec ps pid rc props"
| "serialize_packet ps (PubRelPacket pid rc props) = serialize_pubrel ps pid rc props"
| "serialize_packet ps (PubCompPacket pid rc props) = serialize_pubcomp ps pid rc props"
| "serialize_packet ps (SubscribePacket pid subs props) = serialize_subscribe ps pid subs props"
| "serialize_packet ps (SubAckPacket pid rcs props) = serialize_suback ps pid rcs props"
| "serialize_packet ps (UnsubscribePacket pid filters props) = serialize_unsubscribe ps pid filters props"
| "serialize_packet ps (UnsubAckPacket pid rcs props) = serialize_unsuback ps pid rcs props"
| "serialize_packet ps PingReqPacket = serialize_pingreq"
| "serialize_packet ps PingRespPacket = serialize_pingresp"
| "serialize_packet ps (DisconnectPacket rc props) = serialize_disconnect ps rc props"
| "serialize_packet ps (AuthPacket rc props) = serialize_auth ps rc props"

end
