(* ===== verification/Mqtt_Wire.thy ===== *)
theory Mqtt_Wire
  imports Mqtt_Serializer
begin

text \<open>
  The wire format of a packet, as bytes, and the proof that every \<^verbatim>\<open>serialize_*\<close> method
  writes it.  \<open>emits_mem A f bs\<close> weakens \<open>emits\<close> for code that also allocates
  temporary buffers: \<open>A\<close> says that their memory is available.
\<close>

definition emits_mem :: "bool \<Rightarrow> bop \<Rightarrow> bytes \<Rightarrow> bool" where
  "emits_mem A f bs \<longleftrightarrow> (\<forall>b r b'. buf_inv b \<longrightarrow> f b = (r, b') \<longrightarrow>
     buf_inv b' \<and> buf_alloc b' = buf_alloc b \<and> buf_read_pos b' = buf_read_pos b \<and>
     (r = None \<and> contents b' = contents b @ bs \<or>
      r \<noteq> None \<and> \<not> (A \<and> alloc_total (buf_alloc b)) \<and>
        (\<exists>p. prefix p bs \<and> contents b' = contents b @ p)))"

lemma emits_memD:
  assumes "emits_mem A f bs" "buf_inv b" "f b = (r, b')"
  shows "buf_inv b'" "buf_alloc b' = buf_alloc b" "buf_read_pos b' = buf_read_pos b"
    "r = None \<and> contents b' = contents b @ bs \<or>
      r \<noteq> None \<and> \<not> (A \<and> alloc_total (buf_alloc b)) \<and>
        (\<exists>p. prefix p bs \<and> contents b' = contents b @ p)"
  using assms unfolding emits_mem_def by blast+

lemma emits_memI: "emits f bs \<Longrightarrow> emits_mem A f bs"
  unfolding emits_def emits_mem_def by blast

lemma emits_mem_then:
  assumes f: "emits_mem A f xs" and g: "emits_mem A g ys"
  shows "emits_mem A (then_op f g) (xs @ ys)"
  unfolding emits_mem_def
proof (intro allI impI)
  fix b r b'
  assume inv: "buf_inv b" and eq: "then_op f g b = (r, b')"
  obtain r1 b1 where e1: "f b = (r1, b1)" by fastforce
  note d1 = emits_memD [OF f inv e1]
  show "buf_inv b' \<and> buf_alloc b' = buf_alloc b \<and> buf_read_pos b' = buf_read_pos b \<and>
     (r = None \<and> contents b' = contents b @ xs @ ys \<or>
      r \<noteq> None \<and> \<not> (A \<and> alloc_total (buf_alloc b)) \<and>
        (\<exists>p. prefix p (xs @ ys) \<and> contents b' = contents b @ p))"
  proof (cases r1)
    case None
    then have e2: "g b1 = (r, b')" using eq e1 by (simp add: then_op_def)
    show ?thesis
      using d1 None emits_memD [OF g d1(1) e2] by (auto intro: same_prefix_prefix [THEN iffD2])
  next
    case (Some e)
    then have "r = Some e" "b' = b1" using eq e1 by (simp_all add: then_op_def)
    then show ?thesis using d1 Some by (auto intro: prefix_prefix)
  qed
qed

lemma then_op_assoc: "then_op (then_op f g) h = then_op f (then_op g h)"
  by (rule ext) (simp add: then_op_def split: option.splits prod.splits)

lemma new_buffer_empty: "alloc_ok a \<Longrightarrow> buf_inv (new_buffer a 0)" "contents (new_buffer a 0) = []"
    "buf_alloc (new_buffer a 0) = a"
  by (simp_all add: new_buffer_def when_op_def ok_op_def buf_inv_def contents_def)

lemma emits_mem_temp:
  assumes a: "alloc_ok a" "A \<Longrightarrow> alloc_total a" and f: "emits f bs" and k: "emits_mem A (k bs) cs"
  shows "emits_mem A (with_temp a f k) cs"
  unfolding emits_mem_def
proof (intro allI impI)
  fix b r b'
  assume inv: "buf_inv b" and eq: "with_temp a f k b = (r, b')"
  obtain r1 t where e1: "f (new_buffer a 0) = (r1, t)" by fastforce
  note d1 = emitsD [OF f new_buffer_empty(1) [OF a(1)] e1, unfolded new_buffer_empty]
  show "buf_inv b' \<and> buf_alloc b' = buf_alloc b \<and> buf_read_pos b' = buf_read_pos b \<and>
     (r = None \<and> contents b' = contents b @ cs \<or>
      r \<noteq> None \<and> \<not> (A \<and> alloc_total (buf_alloc b)) \<and>
        (\<exists>p. prefix p cs \<and> contents b' = contents b @ p))"
  proof (cases r1)
    case None
    with d1 eq e1 have "k bs b = (r, b')" by (auto simp: with_temp_def)
    from emits_memD [OF k inv this] show ?thesis by blast
  next
    case (Some e)
    with eq e1 have "r = Some e" "b' = b" by (simp_all add: with_temp_def)
    moreover have "\<not> A" using d1(4) Some a(2) by auto
    ultimately show ?thesis using inv by auto
  qed
qed

lemma emits_mem_eq: "emits_mem A f xs \<Longrightarrow> xs = ys \<Longrightarrow> emits_mem A f ys"
  by simp

text \<open>A method clears the buffer, then writes: \<open>writes\<close> is what is left in the buffer.\<close>

definition writes :: "bool \<Rightarrow> bop \<Rightarrow> bytes \<Rightarrow> bool" where
  "writes A f bs \<longleftrightarrow> (\<forall>b r b'. buf_inv b \<longrightarrow> f b = (r, b') \<longrightarrow>
     buf_inv b' \<and> buf_read_pos b' = 0 \<and>
     (r = None \<and> contents b' = bs \<or>
      r \<noteq> None \<and> \<not> (A \<and> alloc_total (buf_alloc b)) \<and> prefix (contents b') bs))"

lemma clear_empty: "buf_inv b \<Longrightarrow> buf_inv (clear b)" "contents (clear b) = []"
    "buf_alloc (clear b) = buf_alloc b" "buf_read_pos (clear b) = 0"
  by (simp_all add: buf_inv_def clear_def contents_def)

lemma writes_clear:
  assumes f: "emits_mem A f bs"
  shows "writes A (then_op clear_op f) bs"
  unfolding writes_def
proof (intro allI impI)
  fix b r b'
  assume inv: "buf_inv b" and eq: "then_op clear_op f b = (r, b')"
  then have "f (clear b) = (r, b')" by (simp add: then_op_def clear_op_def)
  from emits_memD [OF f clear_empty(1) [OF inv] this, unfolded clear_empty]
  show "buf_inv b' \<and> buf_read_pos b' = 0 \<and>
     (r = None \<and> contents b' = bs \<or>
      r \<noteq> None \<and> \<not> (A \<and> alloc_total (buf_alloc b)) \<and> prefix (contents b') bs)"
    by auto
qed

lemma writes_seq: "emits_mem A (seq_ops fs) bs \<Longrightarrow> writes A (seq_ops (clear_op # fs)) bs"
  by (simp add: seq_ops.simps writes_clear)

lemma emits_mem_seq_Cons:
  "emits_mem A f xs \<Longrightarrow> emits_mem A (seq_ops fs) ys \<Longrightarrow> emits_mem A (seq_ops (f # fs)) (xs @ ys)"
  by (simp add: seq_ops.simps emits_mem_then)

lemma emits_mem_single: "emits_mem A f xs \<Longrightarrow> emits_mem A (seq_ops [f]) xs"
  using emits_mem_seq_Cons [OF _ emits_memI [OF emits_seq_Nil]] by fastforce



subsection \<open>The wire format\<close>

abbreviation legacy :: "parser \<Rightarrow> bool" where
  "legacy ps \<equiv> is_legacy_protocol_hint ps"

definition enc_props :: "parser \<Rightarrow> properties \<Rightarrow> bytes" where
  "enc_props ps p = (if legacy ps then [] else enc_properties p)"

definition v3_connect :: "connect_packet \<Rightarrow> bool" where
  "v3_connect c \<longleftrightarrow> protocol_version c = 3 \<or> protocol_version c = 4"

definition enc_connect :: "connect_packet \<Rightarrow> bytes" where
  "enc_connect c =
     enc_string (protocol_name c) @ [protocol_version c, encode_connect_flags (connect_flags c)] @
     be_bytes 2 (keep_alive c) @
     (if v3_connect c then [] else enc_properties (connect_properties c)) @
     enc_string (client_id c) @
     (if will_flag (connect_flags c)
      then (if v3_connect c then [] else enc_properties (will_properties c)) @
           enc_string (will_topic c) @ enc_string (will_payload c) else []) @
     (if username_flag (connect_flags c) then enc_string (username c) else []) @
     (if password_flag (connect_flags c) then enc_string (password c) else [])"

fun enc_id :: "u16 option \<Rightarrow> bytes" where
  "enc_id None = []"
| "enc_id (Some v) = be_bytes 2 v"

definition enc_ack :: "parser \<Rightarrow> u16 \<Rightarrow> reason_code \<Rightarrow> properties \<Rightarrow> bytes" where
  "enc_ack ps pid rc props =
     be_bytes 2 pid @ (if legacy ps then [] else rc # enc_properties props)"

definition enc_sub :: "topic_subscription \<Rightarrow> bytes" where
  "enc_sub s = enc_string (topic_filter s) @ [encode_options (sub_options s)]"

fun enc_body :: "parser \<Rightarrow> packet \<Rightarrow> bytes" where
  "enc_body ps (ConnectPacket c) = enc_connect c"
| "enc_body ps (ConnAckPacket present rc props) =
     (if present then 1 else 0) #
     (if legacy ps then [map_reason_code_to_legacy_connack rc] else rc # enc_properties props)"
| "enc_body ps (PublishPacket p) =
     enc_string (topic_name p) @ enc_id (packet_id p) @ enc_props ps (publish_properties p) @
     publish_payload p"
| "enc_body ps (PubAckPacket pid rc props) = enc_ack ps pid rc props"
| "enc_body ps (PubRecPacket pid rc props) = enc_ack ps pid rc props"
| "enc_body ps (PubRelPacket pid rc props) = enc_ack ps pid rc props"
| "enc_body ps (PubCompPacket pid rc props) = enc_ack ps pid rc props"
| "enc_body ps (SubscribePacket pid subs props) =
     be_bytes 2 pid @ enc_props ps props @ concat (map enc_sub subs)"
| "enc_body ps (SubAckPacket pid rcs props) =
     be_bytes 2 pid @ enc_props ps props @
     (if legacy ps then map map_reason_code_to_legacy_suback rcs else rcs)"
| "enc_body ps (UnsubscribePacket pid filters props) =
     be_bytes 2 pid @ enc_props ps props @ concat (map enc_string filters)"
| "enc_body ps (UnsubAckPacket pid rcs props) =
     be_bytes 2 pid @ (if legacy ps then [] else enc_properties props @ rcs)"
| "enc_body ps PingReqPacket = []"
| "enc_body ps PingRespPacket = []"
| "enc_body ps (DisconnectPacket rc props) = (if legacy ps then [] else rc # enc_properties props)"
| "enc_body ps (AuthPacket rc props) = rc # enc_properties props"

fun first_byte :: "packet \<Rightarrow> byte" where
  "first_byte (ConnectPacket c) = PT_CONNECT"
| "first_byte (ConnAckPacket present rc props) = PT_CONNACK"
| "first_byte (PublishPacket p) = publish_flags (dup_flag p) (publish_qos p) (retain_flag p)"
| "first_byte (PubAckPacket pid rc props) = PT_PUBACK"
| "first_byte (PubRecPacket pid rc props) = PT_PUBREC"
| "first_byte (PubRelPacket pid rc props) = PT_PUBREL OR 0x02"
| "first_byte (PubCompPacket pid rc props) = PT_PUBCOMP"
| "first_byte (SubscribePacket pid subs props) = PT_SUBSCRIBE OR 0x02"
| "first_byte (SubAckPacket pid rcs props) = PT_SUBACK"
| "first_byte (UnsubscribePacket pid filters props) = PT_UNSUBSCRIBE OR 0x02"
| "first_byte (UnsubAckPacket pid rcs props) = PT_UNSUBACK"
| "first_byte PingReqPacket = PT_PINGREQ"
| "first_byte PingRespPacket = PT_PINGRESP"
| "first_byte (DisconnectPacket rc props) = PT_DISCONNECT"
| "first_byte (AuthPacket rc props) = PT_AUTH"

definition enc_packet :: "parser \<Rightarrow> packet \<Rightarrow> bytes" where
  "enc_packet ps pk = first_byte pk # varint (length (enc_body ps pk)) @ enc_body ps pk"


subsection \<open>Packets that can be sent\<close>

definition options_ok :: "parser \<Rightarrow> subscription_options \<Rightarrow> bool" where
  "options_ok ps opts \<longleftrightarrow> option_qos opts \<le> 3 \<and> retain_handling opts \<le> 2 \<and>
     (legacy ps \<longrightarrow> \<not> no_local opts \<and> \<not> retain_as_published opts \<and> retain_handling opts = 0)"

definition connect_ok :: "connect_packet \<Rightarrow> bool" where
  "connect_ok c \<longleftrightarrow>
     (let fl = connect_flags c in
      (protocol_version c = 3 \<or> protocol_version c = 4 \<or> protocol_version c = 5) \<and>
      \<not> reserved_flag fl \<and>
      list_all str_ok [protocol_name c, client_id c, will_topic c, will_payload c, username c, password c] \<and>
      props_ok (connect_properties c) \<and> props_ok (will_properties c) \<and>
      (v3_connect c \<longrightarrow> connect_properties c = default_properties) \<and>
      (v3_connect c \<or> \<not> will_flag fl \<longrightarrow> will_properties c = default_properties) \<and>
      (\<not> will_flag fl \<longrightarrow> will_topic c = [] \<and> will_payload c = []) \<and>
      (\<not> username_flag fl \<longrightarrow> username c = []) \<and> (\<not> password_flag fl \<longrightarrow> password c = []))"

definition publish_ok :: "publish_packet \<Rightarrow> bool" where
  "publish_ok p \<longleftrightarrow> str_ok (topic_name p) \<and> publish_qos p \<le> 2 \<and>
     (0 < publish_qos p \<longleftrightarrow> packet_id p \<noteq> None) \<and> props_ok (publish_properties p)"

fun packet_ok :: "parser \<Rightarrow> packet \<Rightarrow> bool" where
  "packet_ok ps (ConnectPacket c) = connect_ok c"
| "packet_ok ps (ConnAckPacket present rc props) = props_ok props"
| "packet_ok ps (PublishPacket p) = publish_ok p"
| "packet_ok ps (PubAckPacket pid rc props) = props_ok props"
| "packet_ok ps (PubRecPacket pid rc props) = props_ok props"
| "packet_ok ps (PubRelPacket pid rc props) = props_ok props"
| "packet_ok ps (PubCompPacket pid rc props) = props_ok props"
| "packet_ok ps (SubscribePacket pid subs props) =
     (props_ok props \<and> subs \<noteq> [] \<and>
      list_all (\<lambda>s. str_ok (topic_filter s) \<and> options_ok ps (sub_options s)) subs)"
| "packet_ok ps (SubAckPacket pid rcs props) = (props_ok props \<and> rcs \<noteq> [])"
| "packet_ok ps (UnsubscribePacket pid filters props) =
     (props_ok props \<and> filters \<noteq> [] \<and> list_all str_ok filters)"
| "packet_ok ps (UnsubAckPacket pid rcs props) = (props_ok props \<and> (legacy ps \<or> rcs \<noteq> []))"
| "packet_ok ps PingReqPacket = True"
| "packet_ok ps PingRespPacket = True"
| "packet_ok ps (DisconnectPacket rc props) = props_ok props"
| "packet_ok ps (AuthPacket rc props) = (props_ok props \<and> \<not> legacy ps)"

definition fits :: "parser \<Rightarrow> packet \<Rightarrow> bool" where
  "fits ps pk \<longleftrightarrow> length (enc_body ps pk) \<le> 268435455"


subsection \<open>Every serializer writes the wire format\<close>

definition temps_ok :: "parser \<Rightarrow> bool" where
  "temps_ok ps \<longleftrightarrow> (\<forall>i. alloc_ok (temp_alloc ps i))"

definition temps_total :: "parser \<Rightarrow> bool" where
  "temps_total ps \<longleftrightarrow> (\<forall>i. alloc_total (temp_alloc ps i))"

lemma emits_rl:
  assumes "w = of_nat n" "n \<le> 268435455"
  shows "emits (serialize_remaining_length w) (varint n)"
proof -
  have "unat w = n" using assms by (simp add: unat_of_nat take_bit_nat_eq_self)
  then show ?thesis using emits_remaining_length [of w] by simp
qed

lemma props_okD: "props_ok p \<Longrightarrow> strings_ok p" "props_ok p \<Longrightarrow> props_len_ok p"
  by (simp_all add: props_ok_def)

lemma emits_mem_props_temp:
  assumes "temps_ok ps" "props_ok p" "emits_mem (temps_total ps) (k (enc_properties p)) cs"
  shows "emits_mem (temps_total ps) (with_temp (temp_alloc ps i) (serialize_properties p) k) cs"
  using assms props_okD [OF assms(2)]
  by (intro emits_mem_temp [where bs = "enc_properties p"])
    (auto simp: temps_ok_def temps_total_def intro: emit_intros)

lemma emits_push_all: "emits (seq_ops (map push_back bs)) bs"
  using emits_seq_map [of bs push_back "\<lambda>b. [b]"] emits_push_back by simp

lemma emits_push_map: "emits (seq_ops (map (\<lambda>x. push_back (f x)) xs)) (map f xs)"
  using emits_push_all [of "map f xs"] by (simp add: comp_def)

lemmas emits_mem_steps =
  emits_memI [OF emits_push_back] emits_memI [OF emits_buf_append] emits_memI [OF emits_push_u16]
  emits_memI [OF emits_seq_Nil] emits_memI [OF emits_push_all] emits_memI [OF emits_push_map]
  emits_memI [OF emits_reserve] emits_mem_seq_Cons

lemma writes_ack:
  assumes "temps_ok ps" "props_ok props" "length (enc_ack ps pid rc props) \<le> 268435455"
  shows "writes (temps_total ps) (serialize_ack first ps pid rc props)
    (first # varint (length (enc_ack ps pid rc props)) @ enc_ack ps pid rc props)"
proof (cases "legacy ps")
  case True
  have "emits_mem (temps_total ps)
      (seq_ops [push_back first, seq_ops [serialize_remaining_length 2, push_u16 pid]])
      ([first] @ (varint 2 @ be_bytes 2 pid @ []) @ [])"
    by (intro emits_mem_steps emits_memI [OF emits_rl]) simp_all
  from writes_seq [OF this] True show ?thesis by (simp add: serialize_ack_def enc_ack_def)
next
  case False
  then have "emits_mem (temps_total ps)
      (seq_ops [push_back first,
        with_temp (temp_alloc ps 0) (serialize_properties props) (\<lambda>t.
          seq_ops [serialize_remaining_length (2 + (of_nat (length t) + 1)), push_u16 pid,
                   push_back rc, buf_append t])])
      ([first] @ (varint (2 + (length (enc_properties props) + 1)) @ be_bytes 2 pid @ [rc] @
         enc_properties props @ []) @ [])"
    using assms
    by (intro emits_mem_steps emits_mem_props_temp emits_memI [OF emits_rl]) (simp_all add: enc_ack_def)
  from writes_seq [OF this] False show ?thesis by (simp add: serialize_ack_def enc_ack_def)
qed


lemma writes_connack:
  assumes "temps_ok ps" "props_ok props" "fits ps (ConnAckPacket present rc props)"
  shows "writes (temps_total ps) (serialize_connack ps present rc props)
    (enc_packet ps (ConnAckPacket present rc props))"
proof (cases "legacy ps")
  case True
  have "emits_mem (temps_total ps)
      (seq_ops [push_back PT_CONNACK, seq_ops [serialize_remaining_length 2,
         push_back (if present then 1 else 0), push_back (map_reason_code_to_legacy_connack rc)]])
      ([PT_CONNACK] @ (varint 2 @ [if present then 1 else 0] @ [map_reason_code_to_legacy_connack rc] @ []) @ [])"
    by (intro emits_mem_steps emits_memI [OF emits_rl]) simp_all
  from writes_seq [OF this] True show ?thesis
    by (simp add: serialize_connack_def enc_packet_def numeral_2_eq_2 split del: if_split)
next
  case False
  then have "emits_mem (temps_total ps)
      (seq_ops [push_back PT_CONNACK,
        with_temp (temp_alloc ps 0) (serialize_properties props) (\<lambda>t.
          seq_ops [serialize_remaining_length (2 + of_nat (length t)),
                   push_back (if present then 1 else 0), push_back rc, buf_append t])])
      ([PT_CONNACK] @ (varint (2 + length (enc_properties props)) @ [if present then 1 else 0] @ [rc] @
         enc_properties props @ []) @ [])"
    using assms
    by (intro emits_mem_steps emits_mem_props_temp emits_memI [OF emits_rl]) (simp_all add: fits_def)
  from writes_seq [OF this] False show ?thesis by (simp add: serialize_connack_def enc_packet_def)
qed

lemma writes_suback:
  assumes "temps_ok ps" "props_ok props" "fits ps (SubAckPacket pid rcs props)"
  shows "writes (temps_total ps) (serialize_suback ps pid rcs props)
    (enc_packet ps (SubAckPacket pid rcs props))"
proof (cases "legacy ps")
  case True
  then have "emits_mem (temps_total ps)
      (seq_ops [push_back PT_SUBACK, seq_ops [serialize_remaining_length (2 + of_nat (length rcs)),
         push_u16 pid, seq_ops (map (\<lambda>rc. push_back (map_reason_code_to_legacy_suback rc)) rcs)]])
      ([PT_SUBACK] @ (varint (2 + length rcs) @ be_bytes 2 pid @ map map_reason_code_to_legacy_suback rcs @ []) @ [])"
    using assms by (intro emits_mem_steps emits_memI [OF emits_rl]) (simp_all add: fits_def enc_props_def)
  from writes_seq [OF this] True show ?thesis by (simp add: serialize_suback_def enc_packet_def enc_props_def)
next
  case False
  then have "emits_mem (temps_total ps)
      (seq_ops [push_back PT_SUBACK,
        with_temp (temp_alloc ps 0) (serialize_properties props) (\<lambda>t.
          seq_ops [serialize_remaining_length (2 + of_nat (length t) + of_nat (length rcs)),
                   push_u16 pid, buf_append t, seq_ops (map push_back rcs)])])
      ([PT_SUBACK] @ (varint (2 + length (enc_properties props) + length rcs) @ be_bytes 2 pid @
         enc_properties props @ rcs @ []) @ [])"
    using assms
    by (intro emits_mem_steps emits_mem_props_temp emits_memI [OF emits_rl]) (simp_all add: fits_def enc_props_def)
  from writes_seq [OF this] False show ?thesis by (simp add: serialize_suback_def enc_packet_def enc_props_def)
qed

lemma writes_unsuback:
  assumes "temps_ok ps" "props_ok props" "fits ps (UnsubAckPacket pid rcs props)"
  shows "writes (temps_total ps) (serialize_unsuback ps pid rcs props)
    (enc_packet ps (UnsubAckPacket pid rcs props))"
proof (cases "legacy ps")
  case True
  have "emits_mem (temps_total ps)
      (seq_ops [push_back PT_UNSUBACK, seq_ops [serialize_remaining_length 2, push_u16 pid]])
      ([PT_UNSUBACK] @ (varint 2 @ be_bytes 2 pid @ []) @ [])"
    by (intro emits_mem_steps emits_memI [OF emits_rl]) simp_all
  from writes_seq [OF this] True show ?thesis by (simp add: serialize_unsuback_def enc_packet_def)
next
  case False
  then have "emits_mem (temps_total ps)
      (seq_ops [push_back PT_UNSUBACK,
        with_temp (temp_alloc ps 0) (serialize_properties props) (\<lambda>t.
          seq_ops [serialize_remaining_length (2 + of_nat (length t) + of_nat (length rcs)),
                   push_u16 pid, buf_append t, seq_ops (map push_back rcs)])])
      ([PT_UNSUBACK] @ (varint (2 + length (enc_properties props) + length rcs) @ be_bytes 2 pid @
         enc_properties props @ rcs @ []) @ [])"
    using assms
    by (intro emits_mem_steps emits_mem_props_temp emits_memI [OF emits_rl]) (simp_all add: fits_def)
  from writes_seq [OF this] False show ?thesis by (simp add: serialize_unsuback_def enc_packet_def)
qed

lemma varint_0: "varint 0 = [0]"
  by (subst varint.simps) simp

lemma writes_ping:
  "writes A serialize_pingreq (enc_packet ps PingReqPacket)"
  "writes A serialize_pingresp (enc_packet ps PingRespPacket)"
proof -
  have e: "emits_mem A (seq_ops [push_back t, push_back 0]) ([t] @ [0] @ [])" for t
    by (intro emits_mem_steps)
  show "writes A serialize_pingreq (enc_packet ps PingReqPacket)"
    "writes A serialize_pingresp (enc_packet ps PingRespPacket)"
    using writes_seq [OF e]
    by (simp_all add: serialize_pingreq_def serialize_pingresp_def enc_packet_def varint_0)
qed

lemma emits_mem_reason_props:
  assumes "temps_ok ps" "props_ok props" "1 + length (enc_properties props) \<le> 268435455"
  shows "emits_mem (temps_total ps)
      (seq_ops [push_back first,
        with_temp (temp_alloc ps 0) (serialize_properties props) (\<lambda>t.
          seq_ops [serialize_remaining_length (1 + of_nat (length t)), push_back rc, buf_append t])])
      ([first] @ (varint (1 + length (enc_properties props)) @ [rc] @ enc_properties props @ []) @ [])"
  using assms by (intro emits_mem_steps emits_mem_props_temp emits_memI [OF emits_rl]) simp_all

lemma writes_disconnect:
  assumes "temps_ok ps" "props_ok props" "fits ps (DisconnectPacket rc props)"
  shows "writes (temps_total ps) (serialize_disconnect ps rc props)
    (enc_packet ps (DisconnectPacket rc props))"
proof (cases "legacy ps")
  case True
  have "emits_mem (temps_total ps) (seq_ops [push_back PT_DISCONNECT, push_back 0]) ([PT_DISCONNECT] @ [0] @ [])"
    by (intro emits_mem_steps)
  from writes_seq [OF this] True show ?thesis
    by (simp add: serialize_disconnect_def enc_packet_def varint_0)
next
  case False
  with assms writes_seq [OF emits_mem_reason_props [of ps props PT_DISCONNECT rc]] show ?thesis
    by (simp add: serialize_disconnect_def enc_packet_def fits_def)
qed

lemma writes_auth:
  assumes "temps_ok ps" "props_ok props" "fits ps (AuthPacket rc props)" "\<not> legacy ps"
  shows "writes (temps_total ps) (serialize_auth ps rc props) (enc_packet ps (AuthPacket rc props))"
  using assms writes_seq [OF emits_mem_reason_props [of ps props PT_AUTH rc]]
  by (simp add: serialize_auth_def enc_packet_def fits_def)

lemma emits_mem_maybe_temp:
  assumes "temps_ok ps" "props_ok p"
    "emits_mem (temps_total ps) (k (enc_props ps p)) cs"
  shows "emits_mem (temps_total ps) (maybe_temp ps p k) cs"
  using assms by (auto simp: maybe_temp_def enc_props_def intro: emits_mem_props_temp)

lemma emits_props_when: "emits (when_op (\<not> legacy ps) (buf_append (enc_props ps p))) (enc_props ps p)"
  by (simp add: when_op_def enc_props_def emits_buf_append emits_ok)

lemma emits_subs:
  assumes "list_all (\<lambda>s. str_ok (topic_filter s) \<and> options_ok ps (sub_options s)) subs"
  shows "emits (seq_ops (map (\<lambda>s. seq_ops [serialize_mqtt_string (topic_filter s),
      push_back (encode_options (sub_options s))]) subs)) (concat (map enc_sub subs))"
proof (rule emits_seq_map)
  fix s
  assume "s \<in> set subs"
  with assms have "str_ok (topic_filter s)" by (simp add: list_all_iff)
  then have "emits (seq_ops [serialize_mqtt_string (topic_filter s), push_back (encode_options (sub_options s))])
      (enc_string (topic_filter s) @ [encode_options (sub_options s)] @ [])"
    by (intro emits_seq_Cons emits_seq_Nil emits_string emits_push_back)
  then show "emits (seq_ops [serialize_mqtt_string (topic_filter s), push_back (encode_options (sub_options s))])
      (enc_sub s)" by (simp add: enc_sub_def)
qed

lemma length_subs: "length (concat (map enc_sub subs)) = sum_list (map (\<lambda>s. (2 + length (topic_filter s)) + 1) subs)"
  by (induction subs) (simp_all add: enc_sub_def)

lemma length_filters: "length (concat (map enc_string fs)) = sum_list (map (\<lambda>f. 2 + length f) fs)"
  by (induction fs) simp_all

lemma writes_subscribe:
  assumes "temps_ok ps" "packet_ok ps (SubscribePacket pid subs props)" "fits ps (SubscribePacket pid subs props)"
  shows "writes (temps_total ps) (serialize_subscribe ps pid subs props)
    (enc_packet ps (SubscribePacket pid subs props))"
proof -
  let ?body = "\<lambda>t. let total_length = 2 + (if \<not> legacy ps then length t else 0)
               + sum_list (map (\<lambda>s. (2 + length (topic_filter s)) + 1) subs)
         in seq_ops [serialize_remaining_length (of_nat total_length), push_u16 pid,
              when_op (\<not> legacy ps) (buf_append t),
              seq_ops (map (\<lambda>s. seq_ops [serialize_mqtt_string (topic_filter s),
                                         push_back (encode_options (sub_options s))]) subs)]"
  let ?n = "2 + length (enc_props ps props) + length (concat (map enc_sub subs))"
  have len: "2 + (if \<not> legacy ps then length (enc_props ps props) else 0)
               + sum_list (map (\<lambda>s. (2 + length (topic_filter s)) + 1) subs) = ?n"
    by (simp only: length_subs) (simp add: enc_props_def)
  have "emits_mem (temps_total ps) (?body (enc_props ps props))
      (varint ?n @ be_bytes 2 pid @ enc_props ps props @ concat (map enc_sub subs) @ [])"
    unfolding Let_def len using assms
    by (intro emits_mem_steps emits_memI [OF emits_rl] emits_memI [OF emits_props_when]
        emits_memI [OF emits_subs [of ps]]) (simp_all add: fits_def)
  then have "emits_mem (temps_total ps)
      (seq_ops [push_back (PT_SUBSCRIBE OR 0x02), maybe_temp ps props ?body])
      ([PT_SUBSCRIBE OR 0x02] @
       (varint ?n @ be_bytes 2 pid @ enc_props ps props @ concat (map enc_sub subs) @ []) @ [])"
    using assms by (intro emits_mem_steps emits_mem_maybe_temp) simp_all
  from writes_seq [OF this] show ?thesis by (simp add: serialize_subscribe_def enc_packet_def add.assoc)
qed

lemma writes_unsubscribe:
  assumes "temps_ok ps" "packet_ok ps (UnsubscribePacket pid filters props)"
    "fits ps (UnsubscribePacket pid filters props)"
  shows "writes (temps_total ps) (serialize_unsubscribe ps pid filters props)
    (enc_packet ps (UnsubscribePacket pid filters props))"
proof -
  let ?body = "\<lambda>t. let total_length = 2 + (if \<not> legacy ps then length t else 0)
               + sum_list (map (\<lambda>f. 2 + length f) filters)
         in seq_ops [serialize_remaining_length (of_nat total_length), push_u16 pid,
              when_op (\<not> legacy ps) (buf_append t), seq_ops (map serialize_mqtt_string filters)]"
  let ?n = "2 + length (enc_props ps props) + length (concat (map enc_string filters))"
  have len: "2 + (if \<not> legacy ps then length (enc_props ps props) else 0)
               + sum_list (map (\<lambda>f. 2 + length f) filters) = ?n"
    by (simp only: length_filters) (simp add: enc_props_def)
  have strs: "emits (seq_ops (map serialize_mqtt_string filters)) (concat (map enc_string filters))"
    using assms(2) by (intro emits_seq_map emits_string) (simp add: list_all_iff)
  have "emits_mem (temps_total ps) (?body (enc_props ps props))
      (varint ?n @ be_bytes 2 pid @ enc_props ps props @ concat (map enc_string filters) @ [])"
    unfolding Let_def len using assms
    by (intro emits_mem_steps emits_memI [OF emits_rl] emits_memI [OF emits_props_when] emits_memI [OF strs])
      (simp_all add: fits_def)
  then have "emits_mem (temps_total ps)
      (seq_ops [push_back (PT_UNSUBSCRIBE OR 0x02), maybe_temp ps props ?body])
      ([PT_UNSUBSCRIBE OR 0x02] @
       (varint ?n @ be_bytes 2 pid @ enc_props ps props @ concat (map enc_string filters) @ []) @ [])"
    using assms by (intro emits_mem_steps emits_mem_maybe_temp) simp_all
  from writes_seq [OF this] show ?thesis by (simp add: serialize_unsubscribe_def enc_packet_def add.assoc)
qed


lemma writes_publish:
  assumes "temps_ok ps" "publish_ok p" "fits ps (PublishPacket p)"
  shows "writes (temps_total ps) (serialize_publish ps p) (enc_packet ps (PublishPacket p))"
proof -
  let ?first = "publish_flags (dup_flag p) (publish_qos p) (retain_flag p)"
  let ?total = "\<lambda>t. (2 + length (topic_name p)) + (if publish_qos p > 0 then 2 else 0)
      + (if \<not> legacy ps then length t else 0) + length (publish_payload p)"
  let ?body = "\<lambda>t. if ?total t > 268435455 then fail_op MQ_ERR_PACKET_TOO_LARGE
       else seq_ops [reserve (1 + 4 + ?total t - length (publish_payload p)), push_back ?first,
         serialize_remaining_length (of_nat (?total t)), serialize_mqtt_string (topic_name p),
         when_op (publish_qos p > 0) (push_packet_id (packet_id p)),
         when_op (\<not> legacy ps) (buf_append t)]"
  let ?ep = "enc_props ps (publish_properties p)"
  let ?n = "length (enc_body ps (PublishPacket p))"
  have ok: "str_ok (topic_name p)" "props_ok (publish_properties p)"
    using assms(2) by (simp_all add: publish_ok_def)
  have id: "emits (when_op (publish_qos p > 0) (push_packet_id (packet_id p))) (enc_id (packet_id p))"
    using assms(2) emits_push_u16 emits_ok
    by (cases "packet_id p") (auto simp: publish_ok_def when_op_def push_packet_id_def)
  have total: "?total ?ep = ?n"
    using assms(2) by (cases "packet_id p") (auto simp: publish_ok_def enc_props_def)
  then have "\<not> ?total ?ep > 268435455" using assms(3) by (simp add: fits_def)
  then have "emits_mem (temps_total ps) (?body ?ep)
      ([] @ [?first] @ varint ?n @ enc_string (topic_name p) @ enc_id (packet_id p) @ ?ep @ [])"
    using assms(3) unfolding total
    by (simp only: if_False)
      (intro emits_mem_steps emits_memI [OF emits_rl] emits_memI [OF id] emits_memI [OF emits_props_when]
        emits_memI [OF emits_string] ok refl, simp add: fits_def)
  then have "emits_mem (temps_total ps) (maybe_temp ps (publish_properties p) ?body)
      ([] @ [?first] @ varint ?n @ enc_string (topic_name p) @ enc_id (packet_id p) @ ?ep @ [])"
    by (rule emits_mem_maybe_temp [OF assms(1) ok(2)])
  from emits_mem_then [OF this emits_memI [OF emits_buf_append, of _ "publish_payload p"]]
  have "writes (temps_total ps)
      (then_op clear_op (then_op (maybe_temp ps (publish_properties p) ?body) (buf_append (publish_payload p))))
      (enc_packet ps (PublishPacket p))"
    by (intro writes_clear) (simp add: enc_packet_def)
  moreover have "serialize_publish ps p =
      then_op clear_op (then_op (maybe_temp ps (publish_properties p) ?body) (buf_append (publish_payload p)))"
    by (simp only: serialize_publish_def serialize_publish_header_def Let_def maybe_temp_def then_op_assoc)
  ultimately show ?thesis by simp
qed


lemma emits_mem_measured:
  assumes "temps_ok ps" "props_ok p"
    "emits_mem (temps_total ps) (k (if c then length (enc_properties p) else 0)) cs"
  shows "emits_mem (temps_total ps)
    (if c then with_temp (temp_alloc ps i) (serialize_properties p) (\<lambda>t. k (length t)) else k 0) cs"
  using assms by (auto intro: emits_mem_props_temp)

lemma emits_whenI: "(c \<Longrightarrow> emits f xs) \<Longrightarrow> ys = (if c then xs else []) \<Longrightarrow> emits (when_op c f) ys"
  by (simp add: when_op_def emits_ok)

lemma emits_will:
  assumes "connect_ok c"
  shows "emits (when_op (will_flag (connect_flags c))
        (seq_ops [when_op (\<not> v3_connect c) (serialize_properties (will_properties c)),
                  serialize_mqtt_string (will_topic c), serialize_mqtt_string (will_payload c)]))
    (if will_flag (connect_flags c)
      then (if v3_connect c then [] else enc_properties (will_properties c)) @
           enc_string (will_topic c) @ enc_string (will_payload c) else [])"
proof -
  have "emits (seq_ops [when_op (\<not> v3_connect c) (serialize_properties (will_properties c)),
        serialize_mqtt_string (will_topic c), serialize_mqtt_string (will_payload c)])
      ((if v3_connect c then [] else enc_properties (will_properties c)) @
           enc_string (will_topic c) @ enc_string (will_payload c) @ [])"
    using assms
    by (intro emits_seq_Cons emits_seq_Nil emits_string emits_whenI [OF emits_properties])
      (simp_all add: connect_ok_def Let_def props_ok_def)
  then show ?thesis by (intro emits_whenI) simp_all
qed

lemma length_enc_connect:
  "connect_total_length c
     (if will_flag (connect_flags c) \<and> \<not> v3_connect c then length (enc_properties (will_properties c)) else 0)
     (if \<not> v3_connect c then length (enc_properties (connect_properties c)) else 0) =
   length (enc_connect c)"
  by (simp add: connect_total_length_def enc_connect_def)

lemma writes_connect:
  assumes "temps_ok ps" "connect_ok c" "fits ps (ConnectPacket c)"
  shows "writes (temps_total ps) (serialize_connect ps c) (enc_packet ps (ConnectPacket c))"
proof -
  let ?fl = "connect_flags c"
  have ok: "str_ok (protocol_name c)" "str_ok (client_id c)" "str_ok (username c)" "str_ok (password c)"
    "strings_ok (connect_properties c)" "props_len_ok (connect_properties c)"
    "props_ok (connect_properties c)" "props_ok (will_properties c)"
    using assms(2) by (simp_all add: connect_ok_def Let_def props_ok_def)
  have fit: "length (enc_connect c) \<le> 268435455" using assms(3) by (simp add: fits_def)
  let ?ops = "seq_ops [reserve (1 + 4 + length (enc_connect c)), push_back PT_CONNECT,
          serialize_remaining_length (of_nat (length (enc_connect c))),
          serialize_mqtt_string (protocol_name c), push_back (protocol_version c),
          push_back (encode_connect_flags ?fl), push_u16 (keep_alive c),
          when_op (\<not> v3_connect c) (serialize_properties (connect_properties c)),
          serialize_mqtt_string (client_id c),
          when_op (will_flag ?fl)
            (seq_ops [when_op (\<not> v3_connect c) (serialize_properties (will_properties c)),
                      serialize_mqtt_string (will_topic c), serialize_mqtt_string (will_payload c)]),
          when_op (username_flag ?fl) (serialize_mqtt_string (username c)),
          when_op (password_flag ?fl) (serialize_mqtt_string (password c))]"
  have "emits_mem (temps_total ps) ?ops
      ([] @ [PT_CONNECT] @ varint (length (enc_connect c)) @ enc_string (protocol_name c) @
       [protocol_version c] @ [encode_connect_flags ?fl] @ be_bytes 2 (keep_alive c) @
       (if v3_connect c then [] else enc_properties (connect_properties c)) @ enc_string (client_id c) @
       (if will_flag ?fl then (if v3_connect c then [] else enc_properties (will_properties c)) @
           enc_string (will_topic c) @ enc_string (will_payload c) else []) @
       (if username_flag ?fl then enc_string (username c) else []) @
       (if password_flag ?fl then enc_string (password c) else []) @ [])"
    by (intro emits_mem_steps emits_memI [OF emits_rl] emits_memI [OF emits_string]
        emits_memI [OF emits_will] emits_memI [OF emits_whenI [OF emits_string]]
        emits_memI [OF emits_whenI [OF emits_properties]] ok fit refl assms(2)) simp
  then have *: "emits_mem (temps_total ps) ?ops (enc_packet ps (ConnectPacket c))"
    by (simp add: enc_packet_def enc_connect_def)
  show ?thesis
    unfolding serialize_connect_def Let_def v3_connect_def [symmetric]
    by (intro writes_clear emits_mem_measured assms ok) (unfold length_enc_connect, rule *)
qed

lemma serialize_packet_writes:
  assumes "temps_ok ps" "packet_ok ps pk" "fits ps pk"
  shows "writes (temps_total ps) (serialize_packet ps pk) (enc_packet ps pk)"
proof (cases pk)
  case (ConnectPacket c)
  with assms show ?thesis by (simp add: writes_connect)
next
  case (PublishPacket p)
  with assms show ?thesis by (simp add: writes_publish)
next
  case (SubscribePacket pid subs props)
  with assms show ?thesis by (simp only: serialize_packet.simps writes_subscribe)
next
  case (UnsubscribePacket pid filters props)
  with assms show ?thesis by (simp only: serialize_packet.simps writes_unsubscribe)
qed (use assms writes_ack [of ps] in \<open>simp_all add: writes_connack writes_suback writes_unsuback writes_ping
      writes_disconnect writes_auth serialize_puback_def serialize_pubrec_def serialize_pubrel_def
      serialize_pubcomp_def enc_packet_def [of ps "PubAckPacket _ _ _"] enc_packet_def [of ps "PubRecPacket _ _ _"]
      enc_packet_def [of ps "PubRelPacket _ _ _"] enc_packet_def [of ps "PubCompPacket _ _ _"] fits_def\<close>)

end
