(* ===== verification/Mqtt_Roundtrip.thy ===== *)
theory Mqtt_Roundtrip
  imports Mqtt_Wire
begin

text \<open>
  Parsing what was serialized.  For MQTT 5 the packet comes back as it was; for MQTT 3.x
  the wire format drops properties and reason codes, so the receiver gets \<open>delivered\<close>.
  The statements hold with arbitrary bytes after the packet.
\<close>

fun delivered :: "parser \<Rightarrow> packet \<Rightarrow> packet" where
  "delivered ps (ConnectPacket c) = ConnectPacket c"
| "delivered ps (ConnAckPacket present rc props) =
     (if legacy ps then ConnAckPacket present (map_reason_code_to_legacy_connack rc) default_properties
      else ConnAckPacket present rc props)"
| "delivered ps (PublishPacket p) =
     PublishPacket (if legacy ps then p\<lparr>publish_properties := default_properties\<rparr> else p)"
| "delivered ps (PubAckPacket pid rc props) =
     (if legacy ps then PubAckPacket pid Success default_properties else PubAckPacket pid rc props)"
| "delivered ps (PubRecPacket pid rc props) =
     (if legacy ps then PubRecPacket pid Success default_properties else PubRecPacket pid rc props)"
| "delivered ps (PubRelPacket pid rc props) =
     (if legacy ps then PubRelPacket pid Success default_properties else PubRelPacket pid rc props)"
| "delivered ps (PubCompPacket pid rc props) =
     (if legacy ps then PubCompPacket pid Success default_properties else PubCompPacket pid rc props)"
| "delivered ps (SubscribePacket pid subs props) =
     SubscribePacket pid subs (if legacy ps then default_properties else props)"
| "delivered ps (SubAckPacket pid rcs props) =
     (if legacy ps then SubAckPacket pid (map map_reason_code_to_legacy_suback rcs) default_properties
      else SubAckPacket pid rcs props)"
| "delivered ps (UnsubscribePacket pid filters props) =
     UnsubscribePacket pid filters (if legacy ps then default_properties else props)"
| "delivered ps (UnsubAckPacket pid rcs props) =
     (if legacy ps then UnsubAckPacket pid [] default_properties else UnsubAckPacket pid rcs props)"
| "delivered ps PingReqPacket = PingReqPacket"
| "delivered ps PingRespPacket = PingRespPacket"
| "delivered ps (DisconnectPacket rc props) =
     (if legacy ps then DisconnectPacket Success default_properties else DisconnectPacket rc props)"
| "delivered ps (AuthPacket rc props) = AuthPacket rc props"

lemma delivered_v5: "\<not> legacy ps \<Longrightarrow> delivered ps pk = pk"
  by (cases pk) simp_all


subsection \<open>Reading at a position\<close>

lemma drop_eq_less: "drop pos buffer = b # rest \<Longrightarrow> pos < length buffer"
  by (rule ccontr) simp

lemma drop_next: "drop pos buffer = xs @ rest \<Longrightarrow> drop (pos + length xs) buffer = rest"
  by (metis append_eq_conv_conj drop_drop add.commute)

lemma rd_drop: "drop pos buffer = b # rest \<Longrightarrow> rd buffer pos = Inr b"
  using drop_eq_less [of pos buffer b rest] by (simp add: nth_via_drop rd_def)

lemma rd16_drop: "drop pos buffer = be_bytes 2 w @ rest \<Longrightarrow> rd16 buffer pos = Inr w"
proof -
  assume d: "drop pos buffer = be_bytes 2 w @ rest"
  then have "pos \<le> length buffer" by (cases "pos \<le> length buffer") (simp_all add: be_bytes_2)
  moreover have "buffer = take pos buffer @ be_bytes 2 w @ rest" using d append_take_drop_id [of pos buffer] by simp
  ultimately show ?thesis using rd16_be_bytes [of pos "take pos buffer" w rest] by simp
qed

lemma string_at_drop:
  assumes "drop pos buffer = enc_string str @ rest" "str_ok str" "pos + (2 + length str) \<le> len"
  shows "string_at buffer len pos = Inr (str, pos + (2 + length str))"
  using assms by (simp add: string_at_def)

lemma properties_at_drop:
  assumes "drop pos buffer = enc_properties p @ rest" "props_ok p" "pos + length (enc_properties p) \<le> len"
  shows "properties_at buffer len pos = Inr (p, pos + length (enc_properties p))"
  using assms by (simp add: properties_at_def parse_properties_enc)

lemma reason_codes_drop:
  "drop pos buffer = rcs @ rest \<Longrightarrow> reason_codes_loop buffer pos (length rcs) = Inr rcs"
proof (induction rcs arbitrary: pos)
  case (Cons rc rcs)
  then have "drop (pos + length [rc]) buffer = rcs @ rest" by (intro drop_next) simp
  with Cons show ?case by (simp add: rd_drop)
qed simp

text \<open>The fixed header.\<close>

definition hdr :: "nat \<Rightarrow> nat" where
  "hdr n = 1 + length (varint n)"

lemma varint_short: "n \<le> 268435455 \<Longrightarrow> length (varint n) \<le> 4"
  using length_varint_le [of n 3] by simp

lemma skip_header_enc:
  assumes "n \<le> 268435455" "hdr n \<le> len"
  shows "skip_header (first # varint n @ rest) len = Inr (of_nat n, hdr n)"
  using assms varint_short [of n] by (simp add: skip_header_def hdr_def)

lemma drop_hdr: "drop (hdr n) (first # varint n @ rest) = rest"
  by (simp add: hdr_def)

lemma unat_rl: "n \<le> 268435455 \<Longrightarrow> unat (of_nat n :: u32) = n"
  by (simp add: unat_of_nat take_bit_nat_eq_self)

text \<open>\<open>buffer\<close> holds a packet with the given first byte and body; \<open>h\<close> is where the body starts.\<close>

definition framed :: "byte \<Rightarrow> bytes \<Rightarrow> bytes \<Rightarrow> nat \<Rightarrow> bytes \<Rightarrow> nat \<Rightarrow> bool" where
  "framed first body rest len buffer h \<longleftrightarrow>
     buffer = first # varint (length body) @ body @ rest \<and> length body \<le> 268435455 \<and>
     h = hdr (length body) \<and> h + length body \<le> len"

lemma framedD:
  assumes "framed first body rest len buffer h"
  shows "skip_header buffer len = Inr (of_nat (length body), h)" "drop h buffer = body @ rest"
    "unat (of_nat (length body) :: u32) = length body" "2 \<le> h" "rd buffer 0 = Inr first"
    "h + length body \<le> len"
proof -
  note f = assms [unfolded framed_def]
  show "skip_header buffer len = Inr (of_nat (length body), h)" using f skip_header_enc by auto
  show "drop h buffer = body @ rest" using f by (simp add: drop_hdr)
  show "unat (of_nat (length body) :: u32) = length body" using f by (simp add: unat_rl)
  show "2 \<le> h" using f length_varint_pos [of "length body"] unfolding hdr_def by linarith
  show "rd buffer 0 = Inr first" "h + length body \<le> len" using f by simp_all
qed

lemma word_of_nat_eq2: "n \<le> 268435455 \<Longrightarrow> (of_nat n :: u32) = 2 \<longleftrightarrow> n = 2"
  by (simp add: word_unat_eq_iff unat_of_nat take_bit_nat_eq_self)

lemma ack_tail_drop:
  assumes "drop pos buffer = rc # enc_properties props @ rest" "props_ok props"
    "payload_end = pos + 1 + length (enc_properties props)"
  shows "ack_tail mk pid buffer payload_end pos = Inr (mk pid rc props)"
proof -
  have "drop (pos + length [rc]) buffer = enc_properties props @ rest" using assms(1) by (intro drop_next) simp
  then have "properties_at buffer payload_end (pos + 1) = Inr (props, pos + 1 + length (enc_properties props))"
    using assms by (intro properties_at_drop) simp_all
  moreover have "0 < length (enc_properties props)" by (simp add: enc_properties_def)
  ultimately show ?thesis using assms rd_drop [OF assms(1)] by (simp add: ack_tail_def)
qed

lemma parse_acks:
  assumes fr: "framed first (enc_ack ps pid rc props) rest len buffer h"
    and "packet_memory ps" "props_ok props"
  shows "parse_puback ps buffer len = Inr (delivered ps (PubAckPacket pid rc props))"
    "parse_pubrec ps buffer len = Inr (delivered ps (PubRecPacket pid rc props))"
    "parse_pubrel ps buffer len = Inr (delivered ps (PubRelPacket pid rc props))"
    "parse_pubcomp ps buffer len = Inr (delivered ps (PubCompPacket pid rc props))"
proof -
  note f = framedD [OF fr]
  have id: "rd16 buffer h = Inr pid"
    using f(2) by (intro rd16_drop [of _ _ _ "(if legacy ps then [] else rc # enc_properties props) @ rest"])
      (simp add: enc_ack_def)
  have len: "2 \<le> length (enc_ack ps pid rc props)" by (simp add: enc_ack_def)
  have "4 \<le> len" using f(4,6) len by linarith
  moreover have "ack_tail mk pid buffer (h + length (enc_ack ps pid rc props)) (h + 2) = Inr (mk pid rc props)"
    if "\<not> legacy ps" for mk
  proof -
    have "drop (h + length (be_bytes 2 pid)) buffer = rc # enc_properties props @ rest"
      using f(2) that by (intro drop_next) (simp add: enc_ack_def)
    then show ?thesis using assms(3) that by (intro ack_tail_drop) (simp_all add: enc_ack_def)
  qed
  moreover have "legacy ps \<Longrightarrow> length (enc_ack ps pid rc props) = 2" by (simp add: enc_ack_def)
  ultimately show
    "parse_puback ps buffer len = Inr (delivered ps (PubAckPacket pid rc props))"
    "parse_pubrec ps buffer len = Inr (delivered ps (PubRecPacket pid rc props))"
    "parse_pubrel ps buffer len = Inr (delivered ps (PubRelPacket pid rc props))"
    "parse_pubcomp ps buffer len = Inr (delivered ps (PubCompPacket pid rc props))"
    using f(1,3,6) id len assms(2)
    by (simp_all add: parse_puback_def parse_pubrec_def parse_pubrel_def parse_pubcomp_def begin_unchecked_def)
qed


lemma enc_properties_pos [simp]: "0 < length (enc_properties p)" "enc_properties p \<noteq> []"
  by (simp_all add: enc_properties_def)

lemma parse_connack_enc:
  assumes fr: "framed first (enc_body ps (ConnAckPacket present rc props)) rest len buffer h"
    and "packet_memory ps" "props_ok props"
  shows "parse_connack ps buffer len = Inr (delivered ps (ConnAckPacket present rc props))"
proof -
  note f = framedD [OF fr]
  let ?flag = "if present then 1 else 0 :: byte"
  obtain rc' tail where body: "enc_body ps (ConnAckPacket present rc props) = ?flag # rc' # tail"
    "rc' = (if legacy ps then map_reason_code_to_legacy_connack rc else rc)"
    "tail = (if legacy ps then [] else enc_properties props)" by auto
  have r0: "rd buffer h = Inr ?flag" using f(2) body by (intro rd_drop) auto
  have d1: "drop (h + length [?flag]) buffer = rc' # tail @ rest"
    using f(2) body by (intro drop_next) simp
  then have r1: "rd buffer (h + 1) = Inr rc'" by (intro rd_drop) simp
  have d2: "drop (h + length [?flag, rc']) buffer = tail @ rest"
    using f(2) body by (intro drop_next) simp
  have len: "4 \<le> len" "h + 2 + length tail \<le> len" using f(4,6) body by simp_all
  show ?thesis
  proof (cases "legacy ps")
    case True
    with body f r0 r1 len assms(2) show ?thesis
      by (auto simp: parse_connack_def begin_unchecked_def numeral_2_eq_2)
  next
    case False
    let ?n = "length (enc_properties props)"
    have n: "2 + ?n \<le> 268435455" using fr body False by (simp add: framed_def)
    have rl: "unat (of_nat (2 + ?n) - 2 :: u32) = ?n"
      using n by (simp add: unat_of_nat take_bit_nat_eq_self)
    have "parse_properties (drop (h + 2) buffer) ?n default_properties = Inr (props, ?n)"
      using d2 body False assms(3) parse_properties_enc [of props ?n rest] by simp
    with False body f(1,3,6) r0 r1 len assms(2) rl n show ?thesis
      by (auto simp: parse_connack_def begin_unchecked_def Let_def unat_rl)
  qed
qed

lemma parse_suback_enc:
  assumes fr: "framed first (enc_body ps (SubAckPacket pid rcs props)) rest len buffer h"
    and "packet_memory ps" "props_ok props" "rcs \<noteq> []"
  shows "parse_suback ps buffer len = Inr (delivered ps (SubAckPacket pid rcs props))"
proof -
  note f = framedD [OF fr]
  define codes where "codes = (if legacy ps then map map_reason_code_to_legacy_suback rcs else rcs)"
  have codes: "codes \<noteq> []" using assms(4) by (simp add: codes_def)
  have body: "enc_body ps (SubAckPacket pid rcs props) = be_bytes 2 pid @ enc_props ps props @ codes"
    by (simp add: codes_def)
  let ?e = "enc_props ps props"
  have id: "rd16 buffer h = Inr pid" using f(2) body by (intro rd16_drop) simp
  have d1: "drop (h + length (be_bytes 2 pid)) buffer = ?e @ codes @ rest"
    using f(2) body by (intro drop_next) simp
  then have d2: "drop (h + 2 + length ?e) buffer = codes @ rest" by (intro drop_next) simp
  have rcs: "reason_codes_loop buffer (h + 2 + length ?e) (length codes) = Inr codes"
    using d2 by (rule reason_codes_drop)
  have props: "\<not> legacy ps \<Longrightarrow>
      properties_at buffer (h + 2 + length ?e + length codes) (h + 2) = Inr (props, h + 2 + length ?e)"
    using d1 assms(3) by (intro properties_at_drop [THEN trans]) (simp_all add: enc_props_def)
  have len: "5 \<le> len" using f(4,6) body codes by (cases codes) simp_all
  show ?thesis
    using f(1,3,6) id len rcs props codes assms(2) body
    by (cases "legacy ps")
      (simp_all add: parse_suback_def begin_unchecked_def reason_codes_def codes_def enc_props_def add.assoc)
qed

lemma parse_unsuback_enc:
  assumes fr: "framed first (enc_body ps (UnsubAckPacket pid rcs props)) rest len buffer h"
    and "packet_memory ps" "props_ok props" "legacy ps \<or> rcs \<noteq> []"
  shows "parse_unsuback ps buffer len = Inr (delivered ps (UnsubAckPacket pid rcs props))"
proof -
  note f = framedD [OF fr]
  have id: "rd16 buffer h = Inr pid" using f(2) by (intro rd16_drop) simp
  show ?thesis
  proof (cases "legacy ps")
    case True
    with f(1,3,4,6) id assms(2) show ?thesis by (simp add: parse_unsuback_def begin_unchecked_def)
  next
    case False
    let ?e = "enc_properties props"
    have d1: "drop (h + length (be_bytes 2 pid)) buffer = ?e @ rcs @ rest"
      using f(2) False by (intro drop_next) simp
    then have d2: "drop (h + 2 + length ?e) buffer = rcs @ rest" by (intro drop_next) simp
    have rcs: "reason_codes_loop buffer (h + 2 + length ?e) (length rcs) = Inr rcs"
      using d2 by (rule reason_codes_drop)
    have props: "properties_at buffer (h + 2 + length ?e + length rcs) (h + 2) = Inr (props, h + 2 + length ?e)"
      using d1 assms(3) by (intro properties_at_drop [THEN trans]) simp_all
    show ?thesis
      using f(1,3,4,6) id rcs props assms(2,4) False
      by (simp add: parse_unsuback_def begin_unchecked_def reason_codes_def add.assoc)
  qed
qed

lemma parse_disconnect_enc:
  assumes fr: "framed first (enc_body ps (DisconnectPacket rc props)) rest len buffer h"
    and "packet_memory ps" "props_ok props"
  shows "parse_disconnect ps buffer len = Inr (delivered ps (DisconnectPacket rc props))"
proof -
  note f = framedD [OF fr]
  show ?thesis
  proof (cases "legacy ps")
    case True
    with f(1,3,4,6) assms(2) show ?thesis by (simp add: parse_disconnect_def begin_unchecked_def)
  next
    case False
    let ?e = "enc_properties props"
    have d1: "drop (h + length [rc]) buffer = ?e @ rest" using f(2) False by (intro drop_next) simp
    have r: "rd buffer h = Inr rc" using f(2) False by (intro rd_drop) auto
    have props: "properties_at buffer (h + (1 + length ?e)) (h + 1) = Inr (props, h + 1 + length ?e)"
      using d1 assms(3) by (intro properties_at_drop) simp_all
    have "(0 :: u32) < of_nat (1 + length ?e)"
      using f(3) False by (simp add: word_less_nat_alt del: of_nat_Suc)
    with f(1,3,4,6) r props assms(2) False show ?thesis
      by (simp add: parse_disconnect_def begin_unchecked_def Let_def)
  qed
qed

lemma parse_auth_enc:
  assumes fr: "framed first (enc_body ps (AuthPacket rc props)) rest len buffer h"
    and "packet_memory ps" "props_ok props" "\<not> legacy ps"
  shows "parse_auth ps buffer len = Inr (AuthPacket rc props)"
proof -
  note f = framedD [OF fr]
  let ?e = "enc_properties props"
  have d1: "drop (h + length [rc]) buffer = ?e @ rest" using f(2) by (intro drop_next) simp
  have r: "rd buffer h = Inr rc" using f(2) by (intro rd_drop) auto
  have props: "properties_at buffer (h + (1 + length ?e)) (h + 1) = Inr (props, h + 1 + length ?e)"
    using d1 assms(3) by (intro properties_at_drop) simp_all
  show ?thesis
    using f(1,3,4,6) r props assms(2,4)
    by (simp add: parse_auth_def begin_checked_def Let_def)
qed



subsection \<open>SUBSCRIBE and UNSUBSCRIBE\<close>

lemma byte_le2: "(q :: byte) \<le> 2 \<Longrightarrow> q = 0 \<or> q = 1 \<or> q = 2"
  by (auto simp: word_le_nat_alt word_unat_eq_iff)

lemma byte_le3: "(q :: byte) \<le> 3 \<Longrightarrow> q = 0 \<or> q = 1 \<or> q = 2 \<or> q = 3"
  by (auto simp: word_le_nat_alt word_unat_eq_iff)

lemma decode_encode_v5:
  "q \<in> {0, 1, 2, 3} \<Longrightarrow> rh \<in> {0, 1, 2} \<Longrightarrow>
     decode_subscription_options
       (encode_options \<lparr>option_qos = q, no_local = nl, retain_as_published = rap, retain_handling = rh\<rparr>) False =
     Inr \<lparr>option_qos = q, no_local = nl, retain_as_published = rap, retain_handling = rh\<rparr>"
  by (cases nl; cases rap; simp; elim disjE; simp add: decode_subscription_options_def encode_options_def)

lemma decode_encode_v3:
  "q \<in> {0, 1, 2, 3} \<Longrightarrow>
     decode_subscription_options
       (encode_options \<lparr>option_qos = q, no_local = False, retain_as_published = False, retain_handling = 0\<rparr>) True =
     Inr \<lparr>option_qos = q, no_local = False, retain_as_published = False, retain_handling = 0\<rparr>"
  by (simp; elim disjE; simp add: decode_subscription_options_def encode_options_def)

lemma decode_encode_options:
  assumes "options_ok ps opts"
  shows "decode_subscription_options (encode_options opts) (legacy ps) = Inr opts"
proof -
  have "option_qos opts \<in> {0, 1, 2, 3}" "retain_handling opts \<in> {0, 1, 2}"
    using assms byte_le3 byte_le2 by (auto simp: options_ok_def)
  then show ?thesis
    using assms decode_encode_v5 [of "option_qos opts" "retain_handling opts" "no_local opts" "retain_as_published opts"]
      decode_encode_v3 [of "option_qos opts"]
    by (cases opts; cases "legacy ps") (simp_all add: options_ok_def)
qed

lemma length_enc_sub: "length (enc_sub s) = Suc (Suc (Suc (length (topic_filter s))))"
  by (simp add: enc_sub_def)

lemma sub_eta: "\<lparr>topic_filter = topic_filter s, sub_options = sub_options s\<rparr> = s"
  by simp

lemma subscriptions_loop_enc:
  assumes "drop pos buffer = concat (map enc_sub subs) @ rest"
    "payload_end = pos + length (concat (map enc_sub subs))"
    "list_all (\<lambda>s. str_ok (topic_filter s) \<and> options_ok ps (sub_options s)) subs"
  shows "subscriptions_loop ps buffer payload_end pos acc = Inr (acc @ subs)"
  using assms
proof (induction subs arbitrary: pos acc)
  case Nil
  then show ?case by (subst subscriptions_loop.simps) simp
next
  case (Cons s subs)
  let ?f = "topic_filter s" and ?o = "encode_options (sub_options s)"
  have d: "drop pos buffer = enc_string ?f @ ?o # concat (map enc_sub subs) @ rest"
    using Cons.prems(1) by (simp add: enc_sub_def [of s])
  have d1: "drop (pos + length (enc_string ?f)) buffer = ?o # concat (map enc_sub subs) @ rest"
    using d by (rule drop_next)
  have d2: "drop (pos + length (enc_sub s)) buffer = concat (map enc_sub subs) @ rest"
    using Cons.prems(1) by (intro drop_next) simp
  have "string_at buffer payload_end pos = Inr (?f, pos + (2 + length ?f))"
    using d Cons.prems by (intro string_at_drop) (simp_all add: length_enc_sub)
  moreover have "rd buffer (pos + (2 + length ?f)) = Inr ?o" using d1 by (intro rd_drop) simp
  moreover have "subscriptions_loop ps buffer payload_end (pos + length (enc_sub s)) (acc @ [s]) = Inr ((acc @ [s]) @ subs)"
    using d2 Cons.prems by (intro Cons.IH) simp_all
  ultimately show ?case
    using Cons.prems by (subst subscriptions_loop.simps) (simp add: decode_encode_options length_enc_sub sub_eta)
qed

lemma filters_loop_enc:
  assumes "drop pos buffer = concat (map enc_string fs) @ rest"
    "payload_end = pos + length (concat (map enc_string fs))" "list_all str_ok fs"
  shows "filters_loop buffer payload_end pos acc = Inr (acc @ fs)"
  using assms
proof (induction fs arbitrary: pos acc)
  case Nil
  then show ?case by (subst filters_loop.simps) simp
next
  case (Cons f fs)
  have d: "drop pos buffer = enc_string f @ concat (map enc_string fs) @ rest"
    using Cons.prems(1) by simp
  then have d1: "drop (pos + length (enc_string f)) buffer = concat (map enc_string fs) @ rest"
    by (rule drop_next)
  have "string_at buffer payload_end pos = Inr (f, pos + (2 + length f))"
    using d Cons.prems by (intro string_at_drop) simp_all
  moreover have "filters_loop buffer payload_end (pos + (2 + length f)) (acc @ [f]) = Inr ((acc @ [f]) @ fs)"
    using d1 Cons.prems by (intro Cons.IH) simp_all
  ultimately show ?case using Cons.prems by (subst filters_loop.simps) simp
qed

text \<open>Packet identifier and properties, the common start of both.\<close>

lemma id_props:
  assumes d: "drop h buffer = be_bytes 2 pid @ enc_props ps props @ tail"
  shows "rd16 buffer h = Inr pid"
    "drop (h + 2 + length (enc_props ps props)) buffer = tail"
    "\<not> legacy ps \<Longrightarrow> props_ok props \<Longrightarrow> h + 2 + length (enc_properties props) \<le> payload_end \<Longrightarrow>
       properties_at buffer payload_end (h + 2) = Inr (props, h + 2 + length (enc_properties props))"
proof -
  show "rd16 buffer h = Inr pid" using d by (rule rd16_drop)
  have d1: "drop (h + length (be_bytes 2 pid)) buffer = enc_props ps props @ tail"
    using d by (rule drop_next)
  then show "drop (h + 2 + length (enc_props ps props)) buffer = tail" by (intro drop_next) simp
  show "\<not> legacy ps \<Longrightarrow> props_ok props \<Longrightarrow> h + 2 + length (enc_properties props) \<le> payload_end \<Longrightarrow>
       properties_at buffer payload_end (h + 2) = Inr (props, h + 2 + length (enc_properties props))"
    using d1 by (intro properties_at_drop) (simp_all add: enc_props_def)
qed

lemma parse_subscribe_enc:
  assumes fr: "framed first (enc_body ps (SubscribePacket pid subs props)) rest len buffer h"
    and mem: "packet_memory ps" and ok: "packet_ok ps (SubscribePacket pid subs props)"
  shows "parse_subscribe ps buffer len = Inr (delivered ps (SubscribePacket pid subs props))"
proof -
  note f = framedD [OF fr]
  let ?e = "enc_props ps props" and ?s = "concat (map enc_sub subs)"
  let ?stop = "h + length (enc_body ps (SubscribePacket pid subs props))"
  have d: "drop h buffer = be_bytes 2 pid @ ?e @ ?s @ rest" using f(2) by simp
  note ip = id_props [OF d]
  have loop: "subscriptions_loop ps buffer ?stop (h + 2 + length ?e) [] = Inr ([] @ subs)"
    using ip(2) ok by (intro subscriptions_loop_enc) simp_all
  have "2 \<le> length ?s" using ok by (cases subs) (simp_all add: length_enc_sub)
  then have "5 \<le> len" "h + 2 \<le> len" using f(4,6) by simp_all
  then show ?thesis
    using f(1,3) ip(1) ip(3) [of ?stop] loop mem ok
    by (cases "legacy ps") (simp_all add: parse_subscribe_def begin_checked_def Let_def enc_props_def)
qed

lemma parse_unsubscribe_enc:
  assumes fr: "framed first (enc_body ps (UnsubscribePacket pid filters props)) rest len buffer h"
    and mem: "packet_memory ps" and ok: "packet_ok ps (UnsubscribePacket pid filters props)"
  shows "parse_unsubscribe ps buffer len = Inr (delivered ps (UnsubscribePacket pid filters props))"
proof -
  note f = framedD [OF fr]
  let ?e = "enc_props ps props" and ?s = "concat (map enc_string filters)"
  let ?stop = "h + length (enc_body ps (UnsubscribePacket pid filters props))"
  have d: "drop h buffer = be_bytes 2 pid @ ?e @ ?s @ rest" using f(2) by simp
  note ip = id_props [OF d]
  have loop: "filters_loop buffer ?stop (h + 2 + length ?e) [] = Inr ([] @ filters)"
    using ip(2) ok by (intro filters_loop_enc) simp_all
  have "2 \<le> length ?s" using ok by (cases filters) simp_all
  then have "5 \<le> len" "h + 2 \<le> len" using f(4,6) by simp_all
  then show ?thesis
    using f(1,3) ip(1) ip(3) [of ?stop] loop mem ok
    by (cases "legacy ps") (simp_all add: parse_unsubscribe_def begin_checked_def Let_def enc_props_def)
qed



subsection \<open>PUBLISH\<close>

lemma publish_flags_decode:
  assumes "q \<le> 2"
  shows "publish_flags dup q retain AND 0xF0 = 0x30"
    "drop_bit 1 (publish_flags dup q retain) AND 0x03 = q"
    "drop_bit 3 (publish_flags dup q retain) AND 1 \<noteq> 0 \<longleftrightarrow> dup"
    "publish_flags dup q retain AND 1 \<noteq> 0 \<longleftrightarrow> retain"
  using byte_le2 [OF assms]
  by (cases dup; cases retain; elim disjE; simp add: publish_flags_def PT_PUBLISH_def)+

lemma parse_publish_enc:
  assumes fr: "framed first (enc_body ps (PublishPacket p)) rest len buffer h"
    and first: "first = publish_flags (dup_flag p) (publish_qos p) (retain_flag p)"
    and mem: "packet_memory ps" and ok: "publish_ok p"
  shows "parse_publish ps buffer len = Inr (delivered ps (PublishPacket p))"
proof -
  note f = framedD [OF fr]
  let ?t = "topic_name p" and ?i = "enc_id (packet_id p)" and ?e = "enc_props ps (publish_properties p)"
    and ?d = "publish_payload p"
  have okp: "str_ok ?t" "publish_qos p \<le> 2" "0 < publish_qos p \<longleftrightarrow> packet_id p \<noteq> None"
    "props_ok (publish_properties p)" using ok by (simp_all add: publish_ok_def)
  define p1 where "p1 = h + (2 + length ?t)"
  define p2 where "p2 = p1 + length ?i"
  define p3 where "p3 = p2 + length ?e"
  have d0: "drop h buffer = enc_string ?t @ ?i @ ?e @ ?d @ rest" using f(2) by simp
  then have d1: "drop p1 buffer = ?i @ ?e @ ?d @ rest" unfolding p1_def length_enc_string [symmetric] by (rule drop_next)
  then have d2: "drop p2 buffer = ?e @ ?d @ rest" unfolding p2_def by (rule drop_next)
  then have d3: "drop p3 buffer = ?d @ rest" unfolding p3_def by (rule drop_next)
  have fin: "p3 + length ?d \<le> len" using f(6) by (simp add: p1_def p2_def p3_def)
  have topic: "string_at buffer len h = Inr (?t, p1)"
    unfolding p1_def using d0 okp(1) fin by (intro string_at_drop) (simp_all add: p1_def p2_def p3_def)
  have ident: "(if publish_qos p > 0 then
        (if p1 + 2 > len then Inl MQ_ERR_PACKET_INCOMPLETE
         else bindE (rd16 buffer p1) (\<lambda>pid. Inr (Some pid, p1 + 2)))
      else Inr (None, p1)) = Inr (packet_id p, p2)"
    using okp(3) d1 fin by (cases "packet_id p") (auto simp: p2_def p3_def rd16_drop)
  have props: "(if \<not> legacy ps then keep_protocol_err (properties_at buffer len p2)
      else Inr (default_properties, p2)) =
      Inr (if legacy ps then default_properties else publish_properties p, p3)"
    using d2 fin okp(4) properties_at_drop [of p2 buffer "publish_properties p" "?d @ rest" len]
    by (cases "legacy ps") (simp_all add: p3_def enc_props_def keep_protocol_err_def)
  have rest: "sz_sub (length (enc_body ps (PublishPacket p))) (p3 - h) = length ?d"
    by (simp add: p1_def p2_def p3_def)
  have payload: "parse_mqtt_binary_data (drop p3 buffer) (length ?d) = Inr (?d, length ?d)"
    using d3 by (simp add: parse_mqtt_binary_data_def rd_range_def)
  have q: "\<not> publish_qos p > 2" using okp(2) by simp
  have "2 \<le> len" using f(4,6) by simp
  then have "parse_publish ps buffer len = Inr (PublishPacket
      \<lparr>dup_flag = dup_flag p, publish_qos = publish_qos p, retain_flag = retain_flag p, topic_name = ?t,
       packet_id = packet_id p,
       publish_properties = (if legacy ps then default_properties else publish_properties p),
       publish_payload = ?d\<rparr>)"
    unfolding parse_publish_def begin_checked_def
    using mem f(1,3,5) topic ident props rest payload q publish_flags_decode [OF okp(2)]
    by (simp add: first Let_def split del: if_split)
  then show ?thesis by simp
qed



subsection \<open>CONNECT\<close>

lemma drop_and_one: "drop_bit n (w :: byte) AND 1 \<noteq> 0 \<longleftrightarrow> bit w n"
  by (simp add: and_one_eq bit_iff_odd_drop_bit odd_iff_mod_2_eq_one)

lemma mask_3: "(3 :: 'a::len word) = mask 2"
  by (simp add: mask_eq_exp_minus_1)

lemma bit_connect_flags:
  "bit (encode_connect_flags fl) n \<longleftrightarrow>
     n = 1 \<and> clean_start fl \<or> n = 2 \<and> will_flag fl \<or> (n = 3 \<or> n = 4) \<and> bit (will_qos fl) (n - 3) \<or>
     n = 5 \<and> will_retain fl \<or> n = 6 \<and> password_flag fl \<or> n = 7 \<and> username_flag fl"
proof -
  have q: "\<not> bit (will_qos fl) k" if "2 \<le> k" for k
    using bit_imp_le_length [of "will_qos fl" k] that by auto
  consider "n = 0" | "n = 1" | "n = 2" | "n = 3" | "n = 4" | "n = 5" | "n = 6" | "n = 7" | "8 \<le> n"
    by linarith
  then show ?thesis
   by cases (simp_all add: encode_connect_flags_def bit_simps q)
qed

lemma decode_encode_flags: "\<not> reserved_flag fl \<Longrightarrow> decode_connect_flags (encode_connect_flags fl) = fl"
proof -
  assume r: "\<not> reserved_flag fl"
  have "ucast (drop_bit 3 (encode_connect_flags fl) AND 3) = will_qos fl"
    by (rule bit_word_eqI) (auto simp: mask_3 bit_simps bit_connect_flags less_Suc_eq numeral_2_eq_2)
  moreover have "encode_connect_flags fl AND 1 = 0"
    using drop_and_one [of 0 "encode_connect_flags fl"] by (simp add: bit_connect_flags)
  ultimately show ?thesis
   using r by (cases fl) (simp add: decode_connect_flags_def drop_and_one bit_connect_flags)
qed
lemma opt_string_at_drop:
  assumes "drop pos buffer = (if c then enc_string str else []) @ rest" "str_ok str" "\<not> c \<longrightarrow> str = []"
    "pos + length (if c then enc_string str else []) \<le> len"
  shows "opt_string_at c buffer len pos = Inr (str, pos + length (if c then enc_string str else []))"
  using assms string_at_drop [of pos buffer str rest len] by (cases c) (simp_all add: opt_string_at_def)

lemma parse_connect_payload_enc:
  assumes ok: "connect_ok c"
    and d: "drop pos buffer = enc_string (client_id c) @
     (if will_flag (connect_flags c)
      then (if v3_connect c then [] else enc_properties (will_properties c)) @
           enc_string (will_topic c) @ enc_string (will_payload c) else []) @
     (if username_flag (connect_flags c) then enc_string (username c) else []) @
     (if password_flag (connect_flags c) then enc_string (password c) else []) @ rest"
    and fin: "pos + (2 + length (client_id c)) +
      (if will_flag (connect_flags c)
       then (if v3_connect c then 0 else length (enc_properties (will_properties c))) +
            (2 + length (will_topic c)) + (2 + length (will_payload c)) else 0) +
      (if username_flag (connect_flags c) then 2 + length (username c) else 0) +
      (if password_flag (connect_flags c) then 2 + length (password c) else 0) \<le> len"
    and c0: "c0 = c\<lparr>client_id := [], will_topic := [], will_payload := [], username := [], password := [],
             will_properties := default_properties\<rparr>"
  shows "parse_connect_payload buffer len pos (\<not> v3_connect c) c0 = Inr (ConnectPacket c)"
proof -
  let ?fl = "connect_flags c"
  let ?we = "if will_flag ?fl \<and> \<not> v3_connect c then enc_properties (will_properties c) else []"
  let ?wt = "if will_flag ?fl then enc_string (will_topic c) else []"
  let ?wp = "if will_flag ?fl then enc_string (will_payload c) else []"
  let ?u = "if username_flag ?fl then enc_string (username c) else []"
  let ?p = "if password_flag ?fl then enc_string (password c) else []"
  have o: "str_ok (client_id c)" "str_ok (will_topic c)" "str_ok (will_payload c)" "str_ok (username c)"
    "str_ok (password c)" "props_ok (will_properties c)"
    "\<not> will_flag ?fl \<longrightarrow> will_topic c = []" "\<not> will_flag ?fl \<longrightarrow> will_payload c = []"
    "\<not> username_flag ?fl \<longrightarrow> username c = []" "\<not> password_flag ?fl \<longrightarrow> password c = []"
    "\<not> (will_flag ?fl \<and> \<not> v3_connect c) \<longrightarrow> will_properties c = default_properties"
    using ok by (auto simp: connect_ok_def Let_def)
  define p1 where "p1 = pos + (2 + length (client_id c))"
  define p2 where "p2 = p1 + length ?we"
  define p3 where "p3 = p2 + length ?wt"
  define p4 where "p4 = p3 + length ?wp"
  define p5 where "p5 = p4 + length ?u"
  define p6 where "p6 = p5 + length ?p"
  have d0: "drop pos buffer = enc_string (client_id c) @ ?we @ ?wt @ ?wp @ ?u @ ?p @ rest"
    using d by simp
  have d1: "drop p1 buffer = ?we @ ?wt @ ?wp @ ?u @ ?p @ rest"
    using d0 unfolding p1_def length_enc_string [symmetric] by (rule drop_next)
  have d2: "drop p2 buffer = ?wt @ ?wp @ ?u @ ?p @ rest" unfolding p2_def using d1 by (rule drop_next)
  have d3: "drop p3 buffer = ?wp @ ?u @ ?p @ rest" unfolding p3_def using d2 by (rule drop_next)
  have d4: "drop p4 buffer = ?u @ ?p @ rest" unfolding p4_def using d3 by (rule drop_next)
  have d5: "drop p5 buffer = ?p @ rest" unfolding p5_def using d4 by (rule drop_next)
  have len: "p6 \<le> len"
    using fin unfolding p1_def p2_def p3_def p4_def p5_def p6_def
    by (cases "will_flag ?fl"; cases "v3_connect c"; cases "username_flag ?fl"; cases "password_flag ?fl")
      simp_all
  have le: "p1 \<le> p2" "p2 \<le> p3" "p3 \<le> p4" "p4 \<le> p5" "p5 \<le> p6"
    unfolding p2_def p3_def p4_def p5_def p6_def by simp_all
  have "string_at buffer len pos = Inr (client_id c, p1)"
    unfolding p1_def using d0 o(1) le len by (intro string_at_drop) (simp_all add: p1_def)
  moreover have "(if will_flag ?fl \<and> \<not> v3_connect c
            then as_err MQ_ERR_PACKET_INVALID (properties_at buffer len p1)
            else Inr (default_properties, p1)) = Inr (will_properties c, p2)"
    using d1 o(6,11) le len properties_at_drop [of p1 buffer "will_properties c" "?wt @ ?wp @ ?u @ ?p @ rest" len]
    by (cases "will_flag ?fl \<and> \<not> v3_connect c") (auto simp: p2_def)
  moreover have "opt_string_at (will_flag ?fl) buffer len p2 = Inr (will_topic c, p3)"
    unfolding p3_def using d2 o(2,7) le len by (intro opt_string_at_drop) (simp_all only: p3_def)
  moreover have "opt_string_at (will_flag ?fl) buffer len p3 = Inr (will_payload c, p4)"
    unfolding p4_def using d3 o(3,8) le len by (intro opt_string_at_drop) (simp_all only: p4_def)
  moreover have "opt_string_at (username_flag ?fl) buffer len p4 = Inr (username c, p5)"
    unfolding p5_def using d4 o(4,9) le len by (intro opt_string_at_drop) (simp_all only: p5_def)
  moreover have "opt_string_at (password_flag ?fl) buffer len p5 = Inr (password c, p6)"
    unfolding p6_def using d5 o(5,10) len by (intro opt_string_at_drop) (simp_all only: p6_def)
  ultimately show ?thesis
    using len by (simp add: parse_connect_payload_def c0 Let_def split del: if_split)
qed


lemma parse_connect_enc:
  assumes fr: "framed first (enc_body ps (ConnectPacket c)) rest len buffer h"
    and mem: "packet_memory ps" and ok: "connect_ok c"
  shows "parse_connect ps buffer len = Inr (ConnectPacket c)"
proof -
  note f = framedD [OF fr]
  let ?fl = "connect_flags c"
  let ?e = "if v3_connect c then [] else enc_properties (connect_properties c)"
  let ?tail = "enc_string (client_id c) @
     (if will_flag ?fl
      then (if v3_connect c then [] else enc_properties (will_properties c)) @
           enc_string (will_topic c) @ enc_string (will_payload c) else []) @
     (if username_flag ?fl then enc_string (username c) else []) @
     (if password_flag ?fl then enc_string (password c) else [])"
  have o: "str_ok (protocol_name c)" "\<not> reserved_flag ?fl" "props_ok (connect_properties c)"
    "v3_connect c \<longrightarrow> connect_properties c = default_properties"
    "protocol_version c = 3 \<or> protocol_version c = 4 \<or> protocol_version c = 5"
    using ok by (auto simp: connect_ok_def Let_def)
  have v: "protocol_version c = 5 \<longleftrightarrow> \<not> v3_connect c" using o(5) by (auto simp: v3_connect_def)
  define p1 where "p1 = h + (2 + length (protocol_name c))"
  have w: "(v3_connect c \<and> protocol_version c \<noteq> 3 \<and> protocol_version c \<noteq> 4) = False"
    by (auto simp: v3_connect_def)
  define p2 where "p2 = Suc (Suc (Suc (Suc p1)))"
  define p3 where "p3 = p2 + length ?e"
  have d0: "drop h buffer = enc_string (protocol_name c) @ [protocol_version c, encode_connect_flags ?fl] @
      be_bytes 2 (keep_alive c) @ ?e @ ?tail @ rest"
    using f(2) by (simp add: enc_connect_def)
  have d1: "drop p1 buffer = [protocol_version c, encode_connect_flags ?fl] @ be_bytes 2 (keep_alive c) @ ?e @ ?tail @ rest"
    using d0 unfolding p1_def length_enc_string [symmetric] by (rule drop_next)
  have d1a: "drop (p1 + length [protocol_version c]) buffer =
      encode_connect_flags ?fl # be_bytes 2 (keep_alive c) @ ?e @ ?tail @ rest"
    using d1 by (intro drop_next) simp
  have d1b: "drop (p1 + length [protocol_version c, encode_connect_flags ?fl]) buffer =
      be_bytes 2 (keep_alive c) @ ?e @ ?tail @ rest"
    using d1 by (rule drop_next)
  have d2: "drop p2 buffer = ?e @ ?tail @ rest"
    unfolding p2_def using d1b drop_next [of "p1 + 2" buffer "be_bytes 2 (keep_alive c)"] by simp
  have d3: "drop p3 buffer = ?tail @ rest" unfolding p3_def using d2 by (rule drop_next)
  have fin: "p3 + length ?tail \<le> len" using f(6) by (simp add: p1_def p2_def p3_def enc_connect_def)
  have name: "string_at buffer len h = Inr (protocol_name c, p1)"
    unfolding p1_def using d0 o(1) fin by (intro string_at_drop) (simp_all add: p1_def p2_def p3_def)
  have rds: "rd buffer p1 = Inr (protocol_version c)" "rd buffer (p1 + 1) = Inr (encode_connect_flags ?fl)"
    "rd16 buffer (p1 + 2) = Inr (keep_alive c)"
    using d1 d1a d1b by (auto intro!: rd_drop rd16_drop)
  have props: "(if \<not> v3_connect c then keep_protocol_err (properties_at buffer len p2)
      else Inr (default_properties, p2)) = Inr (connect_properties c, p3)"
    using d2 o(3,4) fin properties_at_drop [of p2 buffer "connect_properties c" "?tail @ rest" len]
    by (cases "v3_connect c") (simp_all add: p3_def keep_protocol_err_def)
  let ?c0 = "c\<lparr>client_id := [], will_topic := [], will_payload := [], username := [], password := [],
             will_properties := default_properties\<rparr>"
  have payload: "parse_connect_payload buffer len p3 (\<not> v3_connect c) ?c0 = Inr (ConnectPacket c)"
  proof (rule parse_connect_payload_enc [OF ok])
    show "drop p3 buffer = enc_string (client_id c) @
       (if will_flag ?fl
        then (if v3_connect c then [] else enc_properties (will_properties c)) @
             enc_string (will_topic c) @ enc_string (will_payload c) else []) @
       (if username_flag ?fl then enc_string (username c) else []) @
       (if password_flag ?fl then enc_string (password c) else []) @ rest"
      using d3 by simp
    show "p3 + (2 + length (client_id c)) +
      (if will_flag ?fl
       then (if v3_connect c then 0 else length (enc_properties (will_properties c))) +
            (2 + length (will_topic c)) + (2 + length (will_payload c)) else 0) +
      (if username_flag ?fl then 2 + length (username c) else 0) +
      (if password_flag ?fl then 2 + length (password c) else 0) \<le> len"
      using fin by (cases "will_flag ?fl"; cases "v3_connect c"; cases "username_flag ?fl"; cases "password_flag ?fl")
        simp_all
  qed simp
  have c0: "\<lparr>protocol_name = protocol_name c, protocol_version = protocol_version c, connect_flags = ?fl,
      keep_alive = keep_alive c, client_id = [], will_topic = [], will_payload = [], username = [], password = [],
      connect_properties = connect_properties c, will_properties = default_properties\<rparr> = ?c0" by simp
  have "10 \<le> len" "p1 + 4 \<le> len" using f(4) fin by (simp_all add: p1_def p2_def p3_def)
  then show ?thesis
    using mem f(1,3) name rds props [unfolded p2_def] payload o(2)
    by (simp add: parse_connect_def begin_checked_def Let_def decode_encode_flags v w c0
        split del: if_split)
qed



subsection \<open>All packets\<close>

lemma enc_packet_framed:
  assumes "fits ps pk" "length (enc_packet ps pk) \<le> len"
  shows "framed (first_byte pk) (enc_body ps pk) rest len (enc_packet ps pk @ rest) (hdr (length (enc_body ps pk)))"
  using assms by (simp add: framed_def enc_packet_def fits_def hdr_def)

lemma dispatch_framed:
  assumes fr: "framed first body rest len buffer h"
  shows "dispatch_packet ps buffer len =
     (let t = first AND 0xF0 in
        if t = 0x10 then with_flags first 0x00 (parse_connect ps buffer len)
        else if t = 0x30 then parse_publish ps buffer len
        else if t = 0x80 then with_flags first 0x02 (parse_subscribe ps buffer len)
        else if t = 0xA0 then with_flags first 0x02 (parse_unsubscribe ps buffer len)
        else if t = 0x20 then with_flags first 0x00 (parse_connack ps buffer len)
        else if t = 0x40 then with_flags first 0x00 (parse_puback ps buffer len)
        else if t = 0x50 then with_flags first 0x00 (parse_pubrec ps buffer len)
        else if t = 0x60 then with_flags first 0x02 (parse_pubrel ps buffer len)
        else if t = 0x70 then with_flags first 0x00 (parse_pubcomp ps buffer len)
        else if t = 0x90 then with_flags first 0x00 (parse_suback ps buffer len)
        else if t = 0xB0 then with_flags first 0x00 (parse_unsuback ps buffer len)
        else if t = 0xC0 then with_flags first 0x00 (parse_pingreq ps buffer len)
        else if t = 0xD0 then with_flags first 0x00 (parse_pingresp ps buffer len)
        else if t = 0xE0 then with_flags first 0x00 (parse_disconnect ps buffer len)
        else if t = 0xF0 then with_flags first 0x00
          (if is_legacy_protocol_hint ps then Inl MQ_ERR_PACKET_TYPE else parse_auth ps buffer len)
        else Inl MQ_ERR_PACKET_TYPE)"
proof -
  note f = framedD [OF fr] and g = fr [unfolded framed_def]
  have "parse_remaining_length (drop 1 buffer) (len - 1) = Inr (of_nat (length body), length (varint (length body)))"
    using g varint_short [of "length body"] parse_remaining_length_varint [of "length body" "len - 1" "body @ rest"]
    by (auto simp: hdr_def)
  moreover have "2 \<le> len" "\<not> len < 1 + length (varint (length body)) + length body"
    using f(4,6) g by (simp_all add: hdr_def)
  ultimately show ?thesis
    using f(3,5) by (simp add: dispatch_packet_def split del: if_split)
qed

lemma parse_dispatch_enc:
  assumes ok: "packet_ok ps pk" and fit: "fits ps pk" and mem: "packet_memory ps"
    and len: "length (enc_packet ps pk) \<le> len"
  shows "dispatch_packet ps (enc_packet ps pk @ rest) len = Inr (delivered ps pk)"
proof -
  note fr = enc_packet_framed [OF fit len, of rest]
  note dsp = dispatch_framed [OF fr, of ps]
  show ?thesis
  proof (cases pk)
    case (ConnectPacket c)
    with dsp fr mem ok show ?thesis by (simp add: packet_types with_flags_def parse_connect_enc)
  next
    case (PublishPacket p)
    then have "publish_qos p \<le> 2" using ok by (simp add: publish_ok_def)
    with PublishPacket dsp fr mem ok show ?thesis
      by (simp add: publish_flags_decode(1) parse_publish_enc del: delivered.simps)
  next
    case (SubscribePacket pid subs props)
    from parse_subscribe_enc [OF fr [unfolded SubscribePacket] mem ok [unfolded SubscribePacket]] dsp show ?thesis
      unfolding SubscribePacket by (simp add: packet_types with_flags_def)
  next
    case (UnsubscribePacket pid filters props)
    from parse_unsubscribe_enc [OF fr [unfolded UnsubscribePacket] mem ok [unfolded UnsubscribePacket]] dsp show ?thesis
      unfolding UnsubscribePacket by (simp add: packet_types with_flags_def)
  next
    case (ConnAckPacket present rc props)
    from parse_connack_enc [OF fr [unfolded ConnAckPacket] mem] ok dsp show ?thesis
      unfolding ConnAckPacket by (simp add: packet_types with_flags_def)
  next
    case (SubAckPacket pid rcs props)
    from parse_suback_enc [OF fr [unfolded SubAckPacket] mem] ok dsp show ?thesis
      unfolding SubAckPacket by (simp add: packet_types with_flags_def)
  next
    case (UnsubAckPacket pid rcs props)
    from parse_unsuback_enc [OF fr [unfolded UnsubAckPacket] mem] ok dsp show ?thesis
      unfolding UnsubAckPacket by (simp add: packet_types with_flags_def)
  next
    case (DisconnectPacket rc props)
    from parse_disconnect_enc [OF fr [unfolded DisconnectPacket] mem] ok dsp show ?thesis
      unfolding DisconnectPacket by (simp add: packet_types with_flags_def)
  next
    case (AuthPacket rc props)
    from parse_auth_enc [OF fr [unfolded AuthPacket] mem] ok dsp show ?thesis
      unfolding AuthPacket by (simp add: packet_types with_flags_def)
  next
    case (PubAckPacket pid rc props)
    from parse_acks(1) [OF fr [unfolded PubAckPacket enc_body.simps] mem] ok dsp show ?thesis
      unfolding PubAckPacket by (simp add: packet_types with_flags_def)
  next
    case (PubRecPacket pid rc props)
    from parse_acks(2) [OF fr [unfolded PubRecPacket enc_body.simps] mem] ok dsp show ?thesis
      unfolding PubRecPacket by (simp add: packet_types with_flags_def)
  next
    case (PubRelPacket pid rc props)
    from parse_acks(3) [OF fr [unfolded PubRelPacket enc_body.simps] mem] ok dsp show ?thesis
      unfolding PubRelPacket by (simp add: packet_types with_flags_def)
  next
    case (PubCompPacket pid rc props)
    from parse_acks(4) [OF fr [unfolded PubCompPacket enc_body.simps] mem] ok dsp show ?thesis
      unfolding PubCompPacket by (simp add: packet_types with_flags_def)
  next
    case PingReqPacket
    with dsp mem show ?thesis
      by (simp add: packet_types with_flags_def parse_pingreq_def begin_unchecked_def)
  next
    case PingRespPacket
    with dsp mem show ?thesis
      by (simp add: packet_types with_flags_def parse_pingresp_def begin_unchecked_def)
  qed
qed

definition example_publish :: packet where
  "example_publish = PublishPacket \<lparr>dup_flag = False, publish_qos = 1, retain_flag = True,
     topic_name = [0x61], packet_id = Some 10, publish_properties = default_properties,
     publish_payload = [1, 2, 3]\<rparr>"

lemma example_publish_ok:
  "temps_ok (example_parser 5)" "temps_total (example_parser 5)" "packet_memory (example_parser 5)"
  "container_memory (example_parser 5)" "packet_ok (example_parser 5) example_publish"
  "fits (example_parser 5) example_publish" "\<not> legacy (example_parser 5)"
proof -
  have "str_ok [0x61]"
    by (simp add: str_ok_def validate_mqtt_string_def MQTT_MAX_STRING_LENGTH_def is_valid_utf8.simps
        utf8_step.simps)
  then show "packet_ok (example_parser 5) example_publish"
    by (simp add: example_publish_def publish_ok_def)
  show "\<not> legacy (example_parser 5)" by (simp add: is_legacy_protocol_hint_def example_parser_def)
  show "fits (example_parser 5) example_publish"
    by (simp add: fits_def example_publish_def enc_props_def enc_default_properties)
qed (simp_all add: temps_ok_def temps_total_def alloc_ok_def alloc_total_def example_parser_def)



text \<open>
  C11.  When memory runs out at any point of a serializer, the buffer is left well formed and
  holds a prefix of the packet's encoding, never other bytes; it holds all of it exactly when
  the serializer reports success.
\<close>

theorem serialize_packet_failure_prefix:
  assumes "buf_inv b" "temps_ok ps" "packet_ok ps pk" "fits ps pk" "serialize_packet ps pk b = (r, b')"
  shows "buf_inv b' \<and> prefix (contents b') (enc_packet ps pk) \<and>
    (r = None \<longrightarrow> contents b' = enc_packet ps pk) \<and>
    (r \<noteq> None \<longrightarrow> \<not> (temps_total ps \<and> alloc_total (buf_alloc b)))"
  using serialize_packet_writes [OF assms(2-4), unfolded writes_def, rule_format, OF assms(1,5)] by auto

theorem serialize_packet_failure_prefix_witness:
  "prefix (contents (snd (serialize_packet (example_parser 5) example_publish (new_buffer (\<lambda>_. None) 0))))
     (enc_packet (example_parser 5) example_publish)"
proof -
  have "buf_inv (new_buffer (\<lambda>_. None) 0)" by (intro new_buffer_empty) (simp add: alloc_ok_def)
  from serialize_packet_failure_prefix [OF this example_publish_ok(1,5,6) prod.collapse [symmetric]] show ?thesis
    by simp
qed

end
