(* ===== verification/Mqtt_Safety.thy ===== *)
theory Mqtt_Safety
  imports Mqtt_Parser
begin

text \<open>
  Where the parser can fault.  The connection hands \<^verbatim>\<open>parse_packet\<close> a buffer that holds
  exactly one packet (\<open>exact_frame\<close>).  On such a buffer the only out-of-bounds reads are
  those of \<^verbatim>\<open>parse_properties\<close>, so MQTT 3.x packets never fault.
\<close>

subsection \<open>Strings and property blocks stay inside the buffer\<close>

lemma rd16_no_ub: "i + 1 < length mem \<Longrightarrow> no_ub (rd16 mem i)"
  by (simp add: rd16_in)

lemma no_ub_validated:
  "validate_mqtt_string str = Some e \<Longrightarrow> \<not> is_ub (map_string_util_error e)"
  by (auto simp: validate_mqtt_string_def is_ub_def split: if_splits)

lemma no_ub_parse_mqtt_string: "len \<le> length buffer \<Longrightarrow> no_ub (parse_mqtt_string buffer len)"
  by (auto simp: parse_mqtt_string_def parse_string_impl_def Let_def rd16_in is_ub_def
      split: option.splits dest: no_ub_validated)

lemma parse_binary_data_Inr:
  "parse_binary_data buffer len = Inr (data, n) \<Longrightarrow> n \<le> length buffer"
  by (auto simp: parse_binary_data_def parse_binary_data_impl_def bindE_eq_Inr Let_def rd_range_def
      split: if_splits dest: rd16_eq_Inr)

lemma no_ub_string_at: "pos \<le> len \<Longrightarrow> len \<le> length buffer \<Longrightarrow> no_ub (string_at buffer len pos)"
  unfolding string_at_def by (intro no_ub_bindE) (auto intro: no_ub_parse_mqtt_string)

lemma string_at_bound:
  "string_at buffer len pos = Inr (str, pos') \<Longrightarrow> pos \<le> len \<Longrightarrow> pos < pos' \<and> pos' \<le> len"
  by (auto simp: string_at_def bindE_eq_Inr dest: parse_mqtt_string_Inr(2,3))

lemma parse_subid_bound: "parse_subid buffer pos v = Inr (v', pos') \<Longrightarrow> pos' \<le> length buffer"
proof (induction buffer pos v rule: parse_subid.induct)
  case (1 buffer pos v)
  obtain b where b: "rd buffer pos = Inr b"
    using "1.prems" by (subst (asm) parse_subid.simps) (auto simp: bindE_eq_Inr)
  then have "pos < length buffer" by (simp add: rd_eq_Inr)
  with "1.prems" b "1.IH" [OF b refl] show ?case
    by (subst (asm) parse_subid.simps) (auto simp: Let_def split: if_splits)
qed

lemma prop_bound:
  "prop_byte buffer pos f = Inr (p', pos') \<Longrightarrow> pos' \<le> length buffer"
  "prop_u16 buffer pos g = Inr (p', pos') \<Longrightarrow> pos' \<le> length buffer"
  "prop_u32 buffer pos h = Inr (p', pos') \<Longrightarrow> pos' \<le> length buffer"
  "pos \<le> length buffer \<Longrightarrow> prop_string buffer len pos k = Inr (p', pos') \<Longrightarrow> pos' \<le> length buffer"
  "pos \<le> length buffer \<Longrightarrow> prop_binary buffer len pos l = Inr (p', pos') \<Longrightarrow> pos' \<le> length buffer"
  by (auto simp: prop_byte_def prop_u16_def prop_u32_def prop_string_def prop_binary_def bindE_eq_Inr
      rd_eq_Inr dest: rd16_eq_Inr rd32_eq_Inr dest!: parse_mqtt_string_Inr(4) parse_binary_data_Inr)

lemma parse_property_bound:
  "pos \<le> length buffer \<Longrightarrow> parse_property buffer len pos p code = Inr (p', pos') \<Longrightarrow> pos' \<le> length buffer"
  by (auto simp: parse_property_def bindE_eq_Inr split: option.splits property_type.splits if_splits
      dest: prop_bound parse_subid_bound dest!: parse_mqtt_string_Inr(4))

lemma parse_properties_loop_bound:
  "n \<le> length buffer \<Longrightarrow> parse_properties_loop buffer len e n p = Inr (p', n') \<Longrightarrow> n \<le> n' \<and> n' \<le> length buffer"
proof (induction buffer len e n p rule: parse_properties_loop.induct)
  case (1 buffer len e n p)
  show ?case
  proof (cases "n < e")
    case True
    with "1.prems" obtain code q m where s: "\<not> len \<le> n" "rd buffer n = Inr code"
      "parse_property buffer len (n + 1) p code = Inr (q, m)" "parse_properties_loop buffer len e m q = Inr (p', n')"
      by (subst (asm) parse_properties_loop.simps) (auto simp: bindE_eq_Inr split: if_splits)
    have "n + 1 \<le> length buffer" using s(2) by (simp add: rd_eq_Inr)
    from parse_property_bound [OF this s(3)] parse_property_pos [OF s(3)]
    have "m \<le> length buffer" "n < m" by simp_all
    with "1.IH" [OF True s(1,2,3) refl _ s(4)] show ?thesis by simp
  qed (use "1.prems" in \<open>simp add: parse_properties_loop.simps\<close>)
qed

lemma properties_at_bound:
  assumes "properties_at buffer len pos = Inr (p, pos')" "pos \<le> length buffer"
  shows "pos < pos' \<and> pos' \<le> length buffer"
proof -
  from assms(1) obtain rl k n where n: "parse_remaining_length (drop pos buffer) (sz_sub len pos) = Inr (rl, k)"
    "parse_properties_loop (drop pos buffer) (sz_sub len pos) (k + unat rl) k default_properties = Inr (p, n)"
    "pos' = pos + n"
    by (auto simp: properties_at_def parse_properties_def bindE_eq_Inr)
  have k: "0 < k" "k \<le> length (drop pos buffer)" using parse_remaining_length_Inr [OF n(1)] by simp_all
  from parse_properties_loop_bound [OF k(2) n(2)] n(3) k assms(2) show ?thesis by auto
qed


subsection \<open>One packet per buffer\<close>

definition exact_frame :: "bytes \<Rightarrow> bool" where
  "exact_frame buffer \<longleftrightarrow>
     (case parse_remaining_length (drop 1 buffer) (length buffer - 1) of
        Inl _ \<Rightarrow> True
      | Inr (remaining_length, n) \<Rightarrow> length buffer = 1 + n + unat remaining_length)"

definition blocks_safe :: "bytes \<Rightarrow> bool" where
  "blocks_safe buffer \<longleftrightarrow>
     list_all (\<lambda>pos. no_ub (parse_properties (drop pos buffer) (length buffer - pos) default_properties))
       [0..<Suc (length buffer)]"

lemma sz_sub_1 [simp]: "buffer \<noteq> [] \<Longrightarrow> sz_sub (length buffer) (Suc 0) = length buffer - Suc 0"
  by (rule sz_sub_le) (simp add: Suc_le_eq)

lemma no_ub_skip_header: "0 < length buffer \<Longrightarrow> no_ub (skip_header buffer (length buffer))"
  unfolding skip_header_def
  by (intro no_ub_as_err no_ub_bindE no_ub_parse_remaining_length) (auto simp: is_ub_def)

lemma skip_header_exact:
  assumes "skip_header buffer (length buffer) = Inr (remaining_length, pos)" "exact_frame buffer"
  shows "2 \<le> pos \<and> pos \<le> length buffer \<and> unat remaining_length = length buffer - pos"
proof -
  from assms(1) obtain n where n: "pos = 1 + n"
    "parse_remaining_length (drop 1 buffer) (sz_sub (length buffer) 1) = Inr (remaining_length, n)"
    by (auto simp: skip_header_def bindE_eq_Inr)
  from parse_remaining_length_Inr [OF n(2)] have "0 < n" "buffer \<noteq> []" by auto
  with n assms(2) show ?thesis by (simp add: exact_frame_def)
qed

lemma no_ub_properties_at:
  "blocks_safe buffer \<Longrightarrow> pos \<le> length buffer \<Longrightarrow> no_ub (properties_at buffer (length buffer) pos)"
  unfolding properties_at_def blocks_safe_def
  by (intro no_ub_bindE) (auto simp: list_all_iff)

lemma no_ub_keep: "no_ub m \<Longrightarrow> no_ub (keep_protocol_err m)"
  unfolding keep_protocol_err_def by (rule no_ub_map_err) (auto simp: is_ub_def split: if_splits)

lemma keep_protocol_err_Inr [simp]: "keep_protocol_err m = Inr x \<longleftrightarrow> m = Inr x"
  by (simp add: keep_protocol_err_def)

lemma no_ub_bind2:
  "no_ub m \<Longrightarrow> (\<And>x y. m = Inr (x, y) \<Longrightarrow> no_ub (f x y)) \<Longrightarrow> no_ub (bindE m (\<lambda>(x, y). f x y))"
  by (cases m) auto

lemma no_ub_rd: "i < length mem \<Longrightarrow> no_ub (rd mem i)"
  by simp

lemma no_ub_if: "(c \<Longrightarrow> no_ub a) \<Longrightarrow> (\<not> c \<Longrightarrow> no_ub b) \<Longrightarrow> no_ub (if c then a else b)"
  by simp

lemmas no_ub_steps = no_ub_bind2 no_ub_bindE no_ub_if no_ub_as_err no_ub_keep no_ub_rd rd16_no_ub
  no_ub_string_at no_ub_properties_at no_ub_skip_header

lemma no_ub_begin:
  "packet_memory ps \<Longrightarrow> no_ub k \<Longrightarrow> no_ub (begin_checked ps k)"
  "packet_memory ps \<Longrightarrow> no_ub k \<Longrightarrow> no_ub (begin_unchecked ps k)"
  by (simp_all add: begin_checked_def begin_unchecked_def)

lemma no_ub_opt_string_at:
  "pos \<le> len \<Longrightarrow> len \<le> length buffer \<Longrightarrow> no_ub (opt_string_at c buffer len pos)"
  by (auto simp: opt_string_at_def is_ub_def intro!: no_ub_as_err no_ub_string_at)

lemma opt_string_at_bound:
  "opt_string_at c buffer len pos = Inr (str, pos') \<Longrightarrow> pos \<le> len \<Longrightarrow> pos' \<le> len"
  by (auto simp: opt_string_at_def split: if_splits dest: string_at_bound)

lemma no_ub_connect_payload:
  assumes "is_v5 \<Longrightarrow> blocks_safe buffer" "pos \<le> length buffer"
  shows "no_ub (parse_connect_payload buffer (length buffer) pos is_v5 c)"
  unfolding parse_connect_payload_def Let_def using assms
  by (intro no_ub_steps no_ub_opt_string_at)
    (auto simp: is_ub_def split: if_splits dest!: string_at_bound opt_string_at_bound dest: properties_at_bound
      intro!: no_ub_as_err no_ub_properties_at)

lemma no_ub_parse_connect:
  assumes "packet_memory ps" "blocks_safe buffer" "exact_frame buffer"
  shows "no_ub (parse_connect ps buffer (length buffer))"
  unfolding parse_connect_def Let_def using assms
  by (intro no_ub_begin no_ub_steps no_ub_connect_payload)
    (auto simp: is_ub_def split: if_splits dest!: skip_header_exact string_at_bound dest: properties_at_bound
      intro!: no_ub_keep no_ub_properties_at)

lemma no_ub_parse_publish:
  assumes "packet_memory ps" "\<not> is_legacy_protocol_hint ps \<Longrightarrow> blocks_safe buffer" "exact_frame buffer"
  shows "no_ub (parse_publish ps buffer (length buffer))"
proof -
  have pay: "no_ub (parse_mqtt_binary_data (drop pos buffer) (sz_sub (unat rl) (pos - h)))"
    if "h + unat rl = length buffer" "h \<le> pos" "pos \<le> length buffer" for pos rl h
    using that by (simp add: parse_mqtt_binary_data_def)
  show ?thesis
    unfolding parse_publish_def Let_def using assms
    by (intro no_ub_begin no_ub_steps pay)
      (auto simp: is_ub_def bindE_eq_Inr split: if_splits dest!: skip_header_exact string_at_bound dest: properties_at_bound
        intro!: no_ub_keep no_ub_properties_at no_ub_bindE rd16_no_ub)
qed

lemma no_ub_decode_options: "no_ub (decode_subscription_options raw l)"
  by (simp add: decode_subscription_options_def is_ub_def)

lemma no_ub_subscriptions_loop:
  "payload_end \<le> length buffer \<Longrightarrow> no_ub (subscriptions_loop ps buffer payload_end pos subs)"
proof (induction ps buffer payload_end pos subs rule: subscriptions_loop.induct)
  case (1 ps buffer payload_end pos subs)
  show ?case
    by (subst subscriptions_loop.simps, intro no_ub_steps no_ub_decode_options "1.IH")
      (use "1.prems" in \<open>auto simp: is_ub_def dest: string_at_bound\<close>)
qed

lemma no_ub_filters_loop:
  "payload_end \<le> length buffer \<Longrightarrow> no_ub (filters_loop buffer payload_end pos filters)"
proof (induction buffer payload_end pos filters rule: filters_loop.induct)
  case (1 buffer payload_end pos filters)
  show ?case
    by (subst filters_loop.simps, intro no_ub_steps "1.IH")
      (use "1.prems" in \<open>auto simp: is_ub_def\<close>)
qed

lemma no_ub_parse_subscribe:
  assumes "packet_memory ps" "\<not> is_legacy_protocol_hint ps \<Longrightarrow> blocks_safe buffer" "exact_frame buffer"
  shows "no_ub (parse_subscribe ps buffer (length buffer))" "no_ub (parse_unsubscribe ps buffer (length buffer))"
  unfolding parse_subscribe_def parse_unsubscribe_def Let_def using assms
  by (intro no_ub_begin no_ub_steps no_ub_subscriptions_loop no_ub_filters_loop;
      auto simp: is_ub_def dest!: skip_header_exact intro!: no_ub_as_err no_ub_properties_at)+

lemma no_ub_connack_properties:
  "blocks_safe buffer \<Longrightarrow> pos \<le> length buffer \<Longrightarrow> n = length buffer - pos \<Longrightarrow>
     no_ub (parse_properties (drop pos buffer) n default_properties)"
  by (auto simp: blocks_safe_def list_all_iff)

lemma unat_sub_2: "2 \<le> unat (v :: u32) \<Longrightarrow> unat (v - 2) = unat v - 2"
  by (simp add: unat_sub word_le_nat_alt)

lemma no_ub_parse_connack:
  assumes "packet_memory ps" "\<not> is_legacy_protocol_hint ps \<Longrightarrow> blocks_safe buffer" "exact_frame buffer"
  shows "no_ub (parse_connack ps buffer (length buffer))"
  unfolding parse_connack_def Let_def using assms
  by (intro no_ub_begin no_ub_steps no_ub_connack_properties)
    (auto simp: is_ub_def unat_sub_2 dest!: skip_header_exact)

lemma no_ub_ack_tail:
  "blocks_safe buffer \<Longrightarrow> payload_end = length buffer \<Longrightarrow> no_ub (ack_tail mk pid buffer payload_end pos)"
  unfolding ack_tail_def by (intro no_ub_steps) (auto intro: no_ub_properties_at)

lemma no_ub_parse_acks:
  assumes "packet_memory ps" "\<not> is_legacy_protocol_hint ps \<Longrightarrow> blocks_safe buffer" "exact_frame buffer"
  shows "no_ub (parse_puback ps buffer (length buffer))" "no_ub (parse_pubrec ps buffer (length buffer))"
    "no_ub (parse_pubrel ps buffer (length buffer))" "no_ub (parse_pubcomp ps buffer (length buffer))"
  unfolding parse_puback_def parse_pubrec_def parse_pubrel_def parse_pubcomp_def Let_def using assms
  by (intro no_ub_begin no_ub_steps no_ub_ack_tail;
      auto simp: is_ub_def dest!: skip_header_exact)+

lemma no_ub_reason_codes_loop:
  "pos + n \<le> length buffer \<Longrightarrow> no_ub (reason_codes_loop buffer pos n)"
  by (induction n arbitrary: pos) (auto intro: no_ub_bindE)

lemma no_ub_reason_codes:
  "payload_end \<le> length buffer \<Longrightarrow> no_ub (reason_codes buffer payload_end pos)"
  by (cases "pos \<le> payload_end") (simp_all add: reason_codes_def no_ub_reason_codes_loop)

lemma no_ub_parse_subacks:
  assumes "packet_memory ps" "\<not> is_legacy_protocol_hint ps \<Longrightarrow> blocks_safe buffer" "exact_frame buffer"
  shows "no_ub (parse_suback ps buffer (length buffer))" "no_ub (parse_unsuback ps buffer (length buffer))"
  unfolding parse_suback_def parse_unsuback_def Let_def using assms
  by (intro no_ub_begin no_ub_steps no_ub_reason_codes;
      auto simp: is_ub_def dest!: skip_header_exact intro!: no_ub_properties_at)+

lemma no_ub_parse_disconnect:
  assumes "packet_memory ps" "\<not> is_legacy_protocol_hint ps \<Longrightarrow> blocks_safe buffer" "exact_frame buffer"
  shows "no_ub (parse_disconnect ps buffer (length buffer))" "no_ub (parse_auth ps buffer (length buffer))"
proof -
  have at: "no_ub (properties_at buffer (pos + unat rl) (pos + 1))"
    if "skip_header buffer (length buffer) = Inr (rl, pos)" "\<not> is_legacy_protocol_hint ps" "pos + 1 < pos + unat rl"
    for rl pos
    using skip_header_exact [OF that(1) assms(3)] that(2,3) assms(2) by (simp add: no_ub_properties_at)
  have rd: "pos < length buffer"
    if "skip_header buffer (length buffer) = Inr (rl, pos)" "pos < pos + unat rl" for rl pos
    using skip_header_exact [OF that(1) assms(3)] that(2) by linarith
  show "no_ub (parse_disconnect ps buffer (length buffer))"
    unfolding parse_disconnect_def Let_def using assms(1)
    by (intro no_ub_begin no_ub_bind2 no_ub_bindE no_ub_if no_ub_skip_header no_ub_rd at)
      (auto simp: is_ub_def intro: rd)
  show "no_ub (parse_auth ps buffer (length buffer))"
    unfolding parse_auth_def Let_def using assms(1)
    by (intro no_ub_begin no_ub_bind2 no_ub_bindE no_ub_if no_ub_skip_header no_ub_rd at)
      (auto simp: is_ub_def intro: rd)
qed

lemma no_ub_with_flags: "no_ub k \<Longrightarrow> no_ub (with_flags b f k)"
  by (simp add: with_flags_def is_ub_def)

lemmas no_ub_parsers = no_ub_parse_connect no_ub_parse_publish no_ub_parse_subscribe no_ub_parse_connack
  no_ub_parse_acks no_ub_parse_subacks no_ub_parse_disconnect

definition has_blocks :: "parser \<Rightarrow> bytes \<Rightarrow> bool" where
  "has_blocks ps buffer \<longleftrightarrow> \<not> is_legacy_protocol_hint ps \<or> (\<exists>b rest. buffer = b # rest \<and> b AND 0xF0 = 0x10)"

lemma no_ub_dispatch_packet:
  assumes mem: "packet_memory ps" and frame: "exact_frame buffer"
    and blocks: "has_blocks ps buffer \<Longrightarrow> blocks_safe buffer"
  shows "no_ub (dispatch_packet ps buffer (length buffer))"
proof -
  have v5: "\<not> is_legacy_protocol_hint ps \<Longrightarrow> blocks_safe buffer"
    using blocks by (simp add: has_blocks_def)
  note others = no_ub_parse_publish [OF mem v5 frame] no_ub_parse_subscribe [OF mem v5 frame]
    no_ub_parse_connack [OF mem v5 frame] no_ub_parse_acks [OF mem v5 frame] no_ub_parse_subacks [OF mem v5 frame]
    no_ub_parse_disconnect [OF mem v5 frame]
  have ping: "no_ub (parse_pingreq ps buffer (length buffer))" "no_ub (parse_pingresp ps buffer (length buffer))"
    by (simp_all add: parse_pingreq_def parse_pingresp_def begin_unchecked_def mem)
  have rl: "no_ub (parse_remaining_length (drop 1 buffer) (length buffer - 1))"
    by (intro no_ub_parse_remaining_length) simp
  have codes: "no_ub (Inl MQ_ERR_PACKET_TYPE)" "no_ub (Inl MQ_ERR_PACKET_INCOMPLETE)" "\<not> is_ub MQ_ERR_PACKET_INVALID"
    by (simp_all add: is_ub_def)
  show ?thesis
  proof (cases "length buffer < 2")
    case False
    then obtain b rest where buffer: "buffer = b # rest" by (cases buffer) auto
    then have rd0: "rd buffer 0 = Inr b" by simp
    have conn: "b AND 0xF0 = 0x10 \<Longrightarrow> no_ub (parse_connect ps buffer (length buffer))"
      using mem frame blocks buffer by (intro no_ub_parse_connect) (simp_all add: has_blocks_def)
    show ?thesis
      unfolding dispatch_packet_def Let_def rd0 bindE_simps
      by (intro no_ub_bind2 no_ub_if rl no_ub_as_err no_ub_with_flags conn others ping codes)
  qed (simp add: dispatch_packet_def is_ub_def)
qed




lemma parse_remaining_length_1:
  "b AND 0x80 = 0 \<Longrightarrow> 0 < len \<Longrightarrow> parse_remaining_length (b # bs) len = Inr (ucast (b AND 0x7F), 1)"
  by (simp add: parse_remaining_length_def parse_rl_loop.simps [of _ _ _ 0])

lemma overread_block:
  "parse_properties [1, 2] 2 p = Inl UB_OUT_OF_BOUNDS"
  using property_of_code [of MessageExpiryInterval]
  by (simp add: parse_properties_def parse_remaining_length_1 parse_properties_loop.simps [of _ _ _ "Suc 0"]
      parse_property_def prop_u32_def rd32_def rd_def)


end
