(* ===== verification/Flow_Control.thy ===== *)
theory Flow_Control
  imports Prelude
begin

text \<open>
  \<^verbatim>\<open>src/protocol/mqtt_flow_control.h\<close>: the table of packet identifiers in use
  (\<^verbatim>\<open>PacketIdSet\<close>, a bit map of 1024 words with a counter) and the per-connection windows
  (\<^verbatim>\<open>ConnectionFlow\<close>).  The \<^verbatim>\<open>claim\<close> callback of \<^verbatim>\<open>allocate_outbound\<close> is a
  parameter with a state of its own, the \<^verbatim>\<open>void*\<close> argument.

  The bit map implements a finite set of non-zero identifiers (locale \<open>id_table\<close>); on top of
  it each outgoing identifier goes through the phases of its acknowledgement protocol.
\<close>

subsection \<open>Packet identifier tables\<close>

record packet_id_set =
  id_words :: "u64 list"
  id_count :: u16

definition empty_ids :: packet_id_set where
  "empty_ids = \<lparr>id_words = replicate 1024 0, id_count = 0\<rparr>"

definition test :: "packet_id_set \<Rightarrow> u16 \<Rightarrow> bool" where
  "test s i \<longleftrightarrow> i \<noteq> 0 \<and> drop_bit (unat (i AND 63)) (id_words s ! unat (drop_bit 6 i)) AND 1 \<noteq> 0"

definition add :: "u16 \<Rightarrow> packet_id_set \<Rightarrow> bool \<times> packet_id_set" where
  "add i s =
     (if i = 0 \<or> test s i then (False, s)
      else (True, s\<lparr>id_words := (id_words s)[unat (drop_bit 6 i) :=
                       id_words s ! unat (drop_bit 6 i) OR push_bit (unat (i AND 63)) 1],
                    id_count := id_count s + 1\<rparr>))"

definition erase :: "u16 \<Rightarrow> packet_id_set \<Rightarrow> bool \<times> packet_id_set" where
  "erase i s =
     (if \<not> test s i then (False, s)
      else (True, s\<lparr>id_words := (id_words s)[unat (drop_bit 6 i) :=
                       id_words s ! unat (drop_bit 6 i) AND NOT (push_bit (unat (i AND 63)) 1)],
                    id_count := id_count s - 1\<rparr>))"


subsection \<open>What a table of identifiers promises\<close>

locale id_table =
  fixes inv :: "'s \<Rightarrow> bool"
    and mem :: "'s \<Rightarrow> 'i :: finite \<Rightarrow> bool"
    and ins del :: "'i \<Rightarrow> 's \<Rightarrow> bool \<times> 's"
    and size_of :: "'s \<Rightarrow> nat"
    and ok :: "'i \<Rightarrow> bool"
  assumes mem_ok: "inv s \<Longrightarrow> mem s i \<Longrightarrow> ok i"
    and ins_result: "inv s \<Longrightarrow> fst (ins i s) \<longleftrightarrow> ok i \<and> \<not> mem s i"
    and ins_inv: "inv s \<Longrightarrow> inv (snd (ins i s))"
    and mem_ins: "inv s \<Longrightarrow> mem (snd (ins i s)) j \<longleftrightarrow> mem s j \<or> ok i \<and> j = i"
    and del_result: "inv s \<Longrightarrow> fst (del i s) \<longleftrightarrow> mem s i"
    and del_inv: "inv s \<Longrightarrow> inv (snd (del i s))"
    and mem_del: "inv s \<Longrightarrow> mem (snd (del i s)) j \<longleftrightarrow> mem s j \<and> j \<noteq> i"
    and size_card: "inv s \<Longrightarrow> size_of s = card {i. mem s i}"
begin

definition members :: "'s \<Rightarrow> 'i set" where
  "members s = {i. mem s i}"

lemma members_ins: "inv s \<Longrightarrow> members (snd (ins i s)) = members s \<union> (if ok i then {i} else {})"
  by (auto simp: members_def mem_ins)

lemma members_del: "inv s \<Longrightarrow> members (snd (del i s)) = members s - {i}"
  by (auto simp: members_def mem_del)

lemma size_ins: "inv s \<Longrightarrow> size_of (snd (ins i s)) = size_of s + (if fst (ins i s) then 1 else 0)"
  using size_card [of s] size_card [OF ins_inv, of s i] members_ins [of s i] ins_result [of s i]
  by (auto simp: members_def insert_absorb)

lemma size_del: "inv s \<Longrightarrow> size_of (snd (del i s)) + (if fst (del i s) then 1 else 0) = size_of s"
  using size_card [of s] size_card [OF del_inv, of s i] members_del [of s i] del_result [of s i]
    card_Suc_Diff1 [of "{j. mem s j}" i]
  by (auto simp: members_def)

lemma del_ins: "inv s \<Longrightarrow> \<not> mem s i \<Longrightarrow> members (snd (del i (snd (ins i s)))) = members s"
  using members_del [OF ins_inv] members_ins by (auto simp: members_def)

lemma size_bound: "inv s \<Longrightarrow> size_of s \<le> card {i. ok i}"
  unfolding size_card by (rule card_mono) (auto dest: mem_ok)

lemma free_exists: "inv s \<Longrightarrow> size_of s < card {i. ok i} \<Longrightarrow> \<exists>i. ok i \<and> \<not> mem s i"
proof (rule ccontr)
  assume a: "inv s" "size_of s < card {i. ok i}" "\<nexists>i. ok i \<and> \<not> mem s i"
  then have "{i. ok i} \<subseteq> {i. mem s i}" by auto
  from card_mono [OF _ this] a size_card show False by simp
qed

end


subsection \<open>The bit map is such a table\<close>

definition ids_inv :: "packet_id_set \<Rightarrow> bool" where
  "ids_inv s \<longleftrightarrow> length (id_words s) = 1024 \<and> unat (id_count s) = card {i. test s i}"

abbreviation id_size :: "packet_id_set \<Rightarrow> nat" where
  "id_size s \<equiv> unat (id_count s)"

abbreviation slot :: "u16 \<Rightarrow> nat" where
  "slot i \<equiv> unat (drop_bit 6 i)"

abbreviation offset :: "u16 \<Rightarrow> nat" where
  "offset i \<equiv> unat (i AND 63)"

lemma drop_and_one64: "drop_bit n (w :: u64) AND 1 \<noteq> 0 \<longleftrightarrow> bit w n"
  by (simp add: and_one_eq bit_iff_odd_drop_bit odd_iff_mod_2_eq_one)

lemma mask_63: "(63 :: u16) = mask 6"
  by (simp add: mask_eq_exp_minus_1)

lemma slot_div: "slot i = unat i div 64"
  by (simp add: drop_bit_eq_div unat_div)

lemma offset_mod: "offset i = unat i mod 64"
  by (simp add: mask_63 take_bit_eq_mask [symmetric] unsigned_take_bit_eq take_bit_eq_mod unat_mod)

lemma slot_bound: "slot i < 1024"
  using unsigned_less [of i, where ?'a = nat] by (simp add: slot_div div_less_iff_less_mult)

lemma offset_bound: "offset i < 64"
  by (simp add: offset_mod)

lemma slot_offset: "slot i = slot j \<Longrightarrow> offset i = offset j \<Longrightarrow> i = j"
  by (metis slot_div offset_mod div_mult_mod_eq word_unat_eq_iff)

lemma test_bit: "test s i \<longleftrightarrow> i \<noteq> 0 \<and> bit (id_words s ! slot i) (offset i)"
  by (simp add: test_def drop_and_one64)

lemma test_add: "length (id_words s) = 1024 \<Longrightarrow> test (snd (add i s)) j \<longleftrightarrow> test s j \<or> i \<noteq> 0 \<and> j = i"
  using slot_bound [of i] offset_bound [of i] slot_offset [of i j]
  by (cases "slot i = slot j")
    (auto simp: add_def test_bit bit_or_iff bit_exp_iff nth_list_update)

lemma test_erase: "length (id_words s) = 1024 \<Longrightarrow> test (snd (erase i s)) j \<longleftrightarrow> test s j \<and> j \<noteq> i"
  using slot_bound [of i] offset_bound [of j] slot_offset [of i j]
  by (cases "slot i = slot j")
    (auto simp: erase_def test_bit bit_and_iff bit_not_iff bit_exp_iff nth_list_update)

lemma card_ids: "card {i :: u16. i \<noteq> 0} = 65535"
proof -
  have "{i :: u16. i \<noteq> 0} = UNIV - {0}" by auto
  then show ?thesis by (simp add: card_Diff_singleton card_word)
qed

lemma card_test_less: "\<not> test s i \<Longrightarrow> i \<noteq> 0 \<Longrightarrow> card {j. test s j} < 65535"
proof -
  assume "\<not> test s i" "i \<noteq> 0"
  then have "{j. test s j} \<subset> {i. i \<noteq> 0}" by (auto simp: test_def)
  from psubset_card_mono [OF _ this] show ?thesis by (simp add: card_ids)
qed

lemma ids_inv_add: "ids_inv s \<Longrightarrow> ids_inv (snd (add i s))"
proof -
  assume inv: "ids_inv s"
  show ?thesis
  proof (cases "i = 0 \<or> test s i")
    case False
    then have i: "i \<noteq> 0" "\<not> test s i" by auto
    have "{j. test (snd (add i s)) j} = insert i {j. test s j}"
      using inv i by (auto simp: ids_inv_def test_add)
    then have "card {j. test (snd (add i s)) j} = Suc (card {j. test s j})"
      using i by simp
    with inv i card_test_less [OF i(2,1)] show ?thesis
      by (simp add: ids_inv_def add_def unat_word_ariths)
  qed (use inv in \<open>simp add: add_def\<close>)
qed

lemma ids_inv_erase: "ids_inv s \<Longrightarrow> ids_inv (snd (erase i s))"
proof -
  assume inv: "ids_inv s"
  show ?thesis
  proof (cases "test s i")
    case True
    have "{j. test (snd (erase i s)) j} = {j. test s j} - {i}"
      using inv by (auto simp: ids_inv_def test_erase)
    then have c: "card {j. test (snd (erase i s)) j} = card {j. test s j} - 1"
      using True by (simp add: card_Diff_singleton)
    have "0 < card {j. test s j}" using True by (auto simp: card_gt_0_iff)
    then have "1 \<le> id_count s" using inv by (simp add: ids_inv_def word_le_nat_alt)
    with inv True c show ?thesis by (simp add: ids_inv_def erase_def unat_sub)
  qed (use inv in \<open>simp add: erase_def\<close>)
qed

lemma ids_inv_length: "ids_inv s \<Longrightarrow> length (id_words s) = 1024"
  by (simp add: ids_inv_def)

lemma add_erase_result: "fst (add i s) \<longleftrightarrow> i \<noteq> 0 \<and> \<not> test s i" "fst (erase i s) \<longleftrightarrow> test s i"
  by (simp_all add: add_def erase_def)

interpretation ids: id_table ids_inv test add erase id_size "\<lambda>i. i \<noteq> 0"
proof unfold_locales
  show "\<And>s. ids_inv s \<Longrightarrow> id_size s = card {i. test s i}" by (simp add: ids_inv_def)
  show "\<And>s i. ids_inv s \<Longrightarrow> test s i \<Longrightarrow> i \<noteq> 0" by (simp add: test_def)
qed (simp_all add: ids_inv_add ids_inv_erase test_add test_erase ids_inv_length add_erase_result)

lemma empty_ids_inv: "ids_inv empty_ids" "\<not> test empty_ids i"
proof -
  show t: "\<not> test empty_ids i" for i using slot_bound [of i] by (simp add: test_def empty_ids_def)
  show "ids_inv empty_ids" using t by (simp add: ids_inv_def) (simp add: empty_ids_def)
qed


subsection \<open>The windows of a connection\<close>

datatype qos2_admit = Forward | Duplicate | Exceeded
datatype allocate_status = Ready | WindowFull | Busy | Quota | Exhausted
datatype ack_kind = PubAck | PubRec | PubComp
datatype ack_disposition = Absent | Unexpected | Complete | Continue

record allocation =
  alloc_status :: allocate_status
  alloc_id :: u16

record flow =
  server_max_packet_size :: u32
  server_receive_maximum :: u16
  max_qos :: byte
  client_receive_maximum :: u16
  client_maximum_packet_size :: u32
  next_packet_id :: u16
  inbound_qos2 :: packet_id_set
  outbound :: packet_id_set
  outbound_qos2 :: packet_id_set
  outbound_awaiting_pubcomp :: packet_id_set

definition new_flow :: flow where
  "new_flow =
     \<lparr>server_max_packet_size = 1024 * 1024, server_receive_maximum = 65535, max_qos = 2,
      client_receive_maximum = 65535, client_maximum_packet_size = 268435455, next_packet_id = 1,
      inbound_qos2 = empty_ids, outbound = empty_ids, outbound_qos2 = empty_ids,
      outbound_awaiting_pubcomp = empty_ids\<rparr>"

definition set_server_limits :: "u32 \<Rightarrow> u16 \<Rightarrow> byte \<Rightarrow> flow \<Rightarrow> flow" where
  "set_server_limits max_packet_size receive_maximum qos f =
     f\<lparr>server_max_packet_size := (if max_packet_size \<noteq> 0 then max_packet_size else 1),
       server_receive_maximum := (if receive_maximum \<noteq> 0 then receive_maximum else 1),
       max_qos := qos\<rparr>"

definition observe_client :: "u16 \<Rightarrow> u32 \<Rightarrow> flow \<Rightarrow> flow" where
  "observe_client receive_maximum maximum_packet_size f =
     f\<lparr>client_receive_maximum := (if receive_maximum \<noteq> 0 then receive_maximum else 65535),
       client_maximum_packet_size := (if maximum_packet_size \<noteq> 0 then maximum_packet_size else 268435455)\<rparr>"

definition inbound_too_large :: "flow \<Rightarrow> nat \<Rightarrow> bool" where
  "inbound_too_large f total_bytes \<longleftrightarrow> total_bytes > unat (server_max_packet_size f)"

definition outbound_too_large :: "flow \<Rightarrow> nat \<Rightarrow> bool" where
  "outbound_too_large f serialized_bytes \<longleftrightarrow> serialized_bytes > unat (client_maximum_packet_size f)"

definition outbound_window_full :: "flow \<Rightarrow> bool" where
  "outbound_window_full f \<longleftrightarrow>
     id_count (outbound f) \<ge> client_receive_maximum f \<or> id_count (outbound f) \<ge> 65535"

text \<open>The callback answers 0 (the caller owns the identifier), 1 (taken), 2 (busy) or 3 (no memory).\<close>

type_synonym 'c claim = "'c \<Rightarrow> u16 \<Rightarrow> int \<times> 'c"

definition next_id :: "u16 \<Rightarrow> u16" where
  "next_id i = (if i = 65535 then 1 else i + 1)"

primrec allocate_loop :: "nat \<Rightarrow> 'c claim option \<Rightarrow> byte \<Rightarrow> flow \<Rightarrow> 'c \<Rightarrow> allocation \<times> flow \<times> 'c" where
  "allocate_loop 0 claim qos f c = (\<lparr>alloc_status = Exhausted, alloc_id = 0\<rparr>, f, c)"
| "allocate_loop (Suc n) claim qos f c =
     (let i = next_packet_id f;
          f = f\<lparr>next_packet_id := next_id i\<rparr>
      in if test (outbound f) i then allocate_loop n claim qos f c
      else let (claimed, c) = (case claim of None \<Rightarrow> (0, c) | Some g \<Rightarrow> g c i) in
        if claimed = 2 then (\<lparr>alloc_status = Busy, alloc_id = 0\<rparr>, f, c)
        else if claimed = 3 then (\<lparr>alloc_status = Quota, alloc_id = 0\<rparr>, f, c)
        else if claimed \<noteq> 0 then allocate_loop n claim qos f c
        else
          let f = f\<lparr>outbound := snd (add i (outbound f))\<rparr>;
              f = (if qos \<ge> 2 then f\<lparr>outbound_qos2 := snd (add i (outbound_qos2 f))\<rparr> else f)
          in (\<lparr>alloc_status = Ready, alloc_id = i\<rparr>, f, c))"

definition allocate_outbound :: "'c claim option \<Rightarrow> byte \<Rightarrow> flow \<Rightarrow> 'c \<Rightarrow> allocation \<times> flow \<times> 'c" where
  "allocate_outbound claim qos f c =
     (if outbound_window_full f then (\<lparr>alloc_status = WindowFull, alloc_id = 0\<rparr>, f, c)
      else allocate_loop 65535 claim qos f c)"

definition release_outbound :: "u16 \<Rightarrow> flow \<Rightarrow> flow" where
  "release_outbound i f =
     f\<lparr>outbound := snd (erase i (outbound f)), outbound_qos2 := snd (erase i (outbound_qos2 f)),
       outbound_awaiting_pubcomp := snd (erase i (outbound_awaiting_pubcomp f))\<rparr>"

definition classify_outbound_ack :: "flow \<Rightarrow> u16 \<Rightarrow> ack_kind \<Rightarrow> ack_disposition" where
  "classify_outbound_ack f i kind =
     (if \<not> test (outbound f) i then Absent
      else let qos2 = test (outbound_qos2 f) i;
               awaiting_pubcomp = test (outbound_awaiting_pubcomp f) i in
        if kind = PubAck then (if qos2 then Unexpected else Complete)
        else if kind = PubRec then (if qos2 then Continue else Unexpected)
        else if \<not> qos2 \<or> \<not> awaiting_pubcomp then Unexpected
        else Complete)"

definition mark_awaiting_pubcomp :: "u16 \<Rightarrow> flow \<Rightarrow> flow" where
  "mark_awaiting_pubcomp i f =
     (if test (outbound_qos2 f) i
      then f\<lparr>outbound_awaiting_pubcomp := snd (add i (outbound_awaiting_pubcomp f))\<rparr> else f)"

definition admit_qos2 :: "u16 \<Rightarrow> flow \<Rightarrow> qos2_admit \<times> flow" where
  "admit_qos2 i f =
     (if i \<noteq> 0 \<and> test (inbound_qos2 f) i then (Duplicate, f)
      else if id_count (inbound_qos2 f) \<ge> server_receive_maximum f then (Exceeded, f)
      else (Forward, f\<lparr>inbound_qos2 := snd (add i (inbound_qos2 f))\<rparr>))"

definition release_qos2 :: "u16 \<Rightarrow> flow \<Rightarrow> flow" where
  "release_qos2 i f = f\<lparr>inbound_qos2 := snd (erase i (inbound_qos2 f))\<rparr>"


subsection \<open>Invariant\<close>

definition flow_inv :: "flow \<Rightarrow> bool" where
  "flow_inv f \<longleftrightarrow>
     ids_inv (inbound_qos2 f) \<and> ids_inv (outbound f) \<and> ids_inv (outbound_qos2 f) \<and>
     ids_inv (outbound_awaiting_pubcomp f) \<and> next_packet_id f \<noteq> 0 \<and>
     server_receive_maximum f \<noteq> 0 \<and> client_receive_maximum f \<noteq> 0 \<and>
     (\<forall>i. test (outbound_awaiting_pubcomp f) i \<longrightarrow> test (outbound_qos2 f) i) \<and>
     (\<forall>i. test (outbound_qos2 f) i \<longrightarrow> test (outbound f) i)"

lemma next_id_nonzero: "next_id i \<noteq> 0"
proof -
  have "i + 1 = 0 \<Longrightarrow> i = 65535"
    by (simp add: eq_neg_iff_add_eq_0 [symmetric])
  then show ?thesis by (auto simp: next_id_def)
qed

definition take_id :: "byte \<Rightarrow> u16 \<Rightarrow> flow \<Rightarrow> flow" where
  "take_id qos i f =
     f\<lparr>next_packet_id := next_id i, outbound := snd (add i (outbound f)),
       outbound_qos2 := (if qos \<ge> 2 then snd (add i (outbound_qos2 f)) else outbound_qos2 f)\<rparr>"

lemma allocate_loop_cases:
  assumes "allocate_loop n claim qos f c = (r, f', c')" "next_packet_id f \<noteq> 0"
  shows "alloc_status r = Ready \<and> alloc_id r \<noteq> 0 \<and> \<not> test (outbound f) (alloc_id r) \<and> f' = take_id qos (alloc_id r) f \<or>
    alloc_status r \<in> {Busy, Quota, Exhausted} \<and> alloc_id r = 0 \<and> (\<exists>i. i \<noteq> 0 \<and> f' = f\<lparr>next_packet_id := i\<rparr>)"
  using assms
proof (induction n arbitrary: f c)
  case 0
  then have "f' = f\<lparr>next_packet_id := next_packet_id f\<rparr>" by simp
  with 0 show ?case by auto
next
  case (Suc n)
  let ?i = "next_packet_id f"
  let ?f = "f\<lparr>next_packet_id := next_id ?i\<rparr>"
  note IH = Suc.IH [of ?f, simplified, OF _ next_id_nonzero]
  show ?case
  proof (cases "test (outbound f) ?i")
    case True
    with Suc.prems IH [of c] show ?thesis by (auto simp: take_id_def Let_def)
  next
    case False
    obtain x d where x: "(case claim of None \<Rightarrow> (0, c) | Some g \<Rightarrow> g c ?i) = (x, d)" by fastforce
    consider "x = 0" | "x = 2" | "x = 3" | "x \<noteq> 0" "x \<noteq> 2" "x \<noteq> 3" by blast
    then show ?thesis
    proof cases
      case 1
      with Suc.prems False x show ?thesis by (auto simp: take_id_def Let_def)
    next
      case 4
      with Suc.prems False x IH [of d] show ?thesis by (auto simp: take_id_def Let_def)
    qed (use Suc.prems False x next_id_nonzero in \<open>auto simp: Let_def\<close>)
  qed
qed

lemma flow_inv_take_id:
  "flow_inv f \<Longrightarrow> flow_inv (take_id qos i f)"
  by (auto simp: flow_inv_def take_id_def ids.ins_inv ids.mem_ins next_id_nonzero)

lemma allocate_outbound_cases:
  assumes "allocate_outbound claim qos f c = (r, f', c')" "flow_inv f"
  shows "alloc_status r = Ready \<and> \<not> outbound_window_full f \<and> alloc_id r \<noteq> 0 \<and>
      \<not> test (outbound f) (alloc_id r) \<and> f' = take_id qos (alloc_id r) f \<or>
    alloc_status r \<noteq> Ready \<and> alloc_id r = 0 \<and> (\<exists>i. i \<noteq> 0 \<and> f' = f\<lparr>next_packet_id := i\<rparr>)"
proof (cases "outbound_window_full f")
  case True
  then have "f' = f\<lparr>next_packet_id := next_packet_id f\<rparr>" using assms by (simp add: allocate_outbound_def)
  with True assms show ?thesis by (auto simp: allocate_outbound_def flow_inv_def)
next
  case False
  with assms allocate_loop_cases [of 65535 claim qos f c r f' c'] show ?thesis
    by (auto simp: allocate_outbound_def flow_inv_def)
qed

lemma flow_inv_new: "flow_inv new_flow"
  by (simp add: flow_inv_def new_flow_def empty_ids_inv)

lemma flow_inv_ops:
  assumes "flow_inv f"
  shows "flow_inv (set_server_limits m r q f)" "flow_inv (observe_client r m f)"
    "flow_inv (fst (snd (allocate_outbound claim qos f c)))" "flow_inv (release_outbound i f)"
    "flow_inv (mark_awaiting_pubcomp i f)" "flow_inv (snd (admit_qos2 i f))" "flow_inv (release_qos2 i f)"
proof -
  obtain r f' c' where a: "allocate_outbound claim qos f c = (r, f', c')" by (metis prod_cases3)
  from allocate_outbound_cases [OF a assms] flow_inv_take_id [OF assms] assms
  show "flow_inv (fst (snd (allocate_outbound claim qos f c)))"
    by (auto simp: a) (auto simp: flow_inv_def)
qed (use assms in \<open>auto simp: flow_inv_def set_server_limits_def observe_client_def release_outbound_def
    mark_awaiting_pubcomp_def admit_qos2_def release_qos2_def ids.ins_inv ids.mem_ins ids.del_inv ids.mem_del\<close>)


text \<open>The states a connection can be in, whatever the callback answers.\<close>

inductive flow_reach :: "'c claim option \<Rightarrow> flow \<Rightarrow> bool" for claim where
  reach_new: "flow_reach claim new_flow"
| reach_limits: "flow_reach claim f \<Longrightarrow> flow_reach claim (set_server_limits m r q f)"
| reach_client: "flow_reach claim f \<Longrightarrow> flow_reach claim (observe_client r m f)"
| reach_allocate: "flow_reach claim f \<Longrightarrow> flow_reach claim (fst (snd (allocate_outbound claim qos f c)))"
| reach_release: "flow_reach claim f \<Longrightarrow> flow_reach claim (release_outbound i f)"
| reach_mark: "flow_reach claim f \<Longrightarrow> flow_reach claim (mark_awaiting_pubcomp i f)"
| reach_admit: "flow_reach claim f \<Longrightarrow> flow_reach claim (snd (admit_qos2 i f))"
| reach_release_qos2: "flow_reach claim f \<Longrightarrow> flow_reach claim (release_qos2 i f)"

lemma flow_reach_inv: "flow_reach claim f \<Longrightarrow> flow_inv f"
  by (induction rule: flow_reach.induct) (simp_all add: flow_inv_new flow_inv_ops)


subsection \<open>The phases of an outgoing identifier\<close>

datatype phase = Free | AwaitPubAck | AwaitPubRec | AwaitPubComp

definition phase :: "flow \<Rightarrow> u16 \<Rightarrow> phase" where
  "phase f i =
     (if \<not> test (outbound f) i then Free
      else if \<not> test (outbound_qos2 f) i then AwaitPubAck
      else if \<not> test (outbound_awaiting_pubcomp f) i then AwaitPubRec
      else AwaitPubComp)"

fun ack_result :: "phase \<Rightarrow> ack_kind \<Rightarrow> ack_disposition" where
  "ack_result Free _ = Absent"
| "ack_result AwaitPubAck PubAck = Complete"
| "ack_result AwaitPubRec PubRec = Continue"
| "ack_result AwaitPubComp PubRec = Continue"
| "ack_result AwaitPubComp PubComp = Complete"
| "ack_result _ _ = Unexpected"

lemma classify_phase: "flow_inv f \<Longrightarrow> classify_outbound_ack f i k = ack_result (phase f i) k"
  by (cases k) (auto simp: classify_outbound_ack_def phase_def Let_def)

lemma phase_release: "flow_inv f \<Longrightarrow> phase (release_outbound i f) j = (if j = i then Free else phase f j)"
  by (auto simp: phase_def release_outbound_def flow_inv_def ids.mem_del)

lemma phase_mark:
  "flow_inv f \<Longrightarrow> phase (mark_awaiting_pubcomp i f) j = (if j = i \<and> phase f i = AwaitPubRec then AwaitPubComp else phase f j)"
  by (auto simp: phase_def mark_awaiting_pubcomp_def flow_inv_def ids.mem_ins) (auto simp: test_def)

lemma phase_take_id:
  "flow_inv f \<Longrightarrow> i \<noteq> 0 \<Longrightarrow> \<not> test (outbound f) i \<Longrightarrow>
     phase (take_id qos i f) j = (if j = i then if qos \<ge> 2 then AwaitPubRec else AwaitPubAck else phase f j)"
  by (auto simp: phase_def take_id_def flow_inv_def ids.mem_ins)

lemma phase_free: "\<not> test (outbound f) i \<Longrightarrow> phase f i = Free"
  by (simp add: phase_def)

lemma phase_next [simp]: "phase (f\<lparr>next_packet_id := i\<rparr>) j = phase f j"
  by (simp add: phase_def)

text \<open>
  C9.  In every state a connection can reach, each outgoing identifier is in one phase of its
  acknowledgement protocol, and the operations follow it: an acknowledgement is classified by
  the phase alone; an identifier handed out was free and then waits for PUBACK or PUBREC by
  its quality of service; the mark moves from PUBREC to PUBCOMP; release frees that
  identifier; no operation touches the phase of another identifier.
\<close>

theorem outbound_phases:
  assumes "flow_reach claim f"
  shows "classify_outbound_ack f i k = ack_result (phase f i) k \<and>
    phase (release_outbound i f) j = (if j = i then Free else phase f j) \<and>
    phase (mark_awaiting_pubcomp i f) j = (if j = i \<and> phase f i = AwaitPubRec then AwaitPubComp else phase f j) \<and>
    (case allocate_outbound claim qos f c of (r, f', c') \<Rightarrow>
       if alloc_status r = Ready
       then phase f (alloc_id r) = Free \<and> alloc_id r \<noteq> 0 \<and>
         phase f' j = (if j = alloc_id r then if qos \<ge> 2 then AwaitPubRec else AwaitPubAck else phase f j)
       else phase f' j = phase f j)"
proof -
  note inv = flow_reach_inv [OF assms]
  obtain r f' c' where a: "allocate_outbound claim qos f c = (r, f', c')" by (metis prod_cases3)
  have "if alloc_status r = Ready
       then phase f (alloc_id r) = Free \<and> alloc_id r \<noteq> 0 \<and>
         phase f' j = (if j = alloc_id r then if qos \<ge> 2 then AwaitPubRec else AwaitPubAck else phase f j)
       else phase f' j = phase f j"
    using allocate_outbound_cases [OF a inv] phase_take_id [OF inv] by (auto simp: phase_free)
  then show ?thesis using inv a by (simp add: classify_phase phase_release phase_mark)
qed

theorem outbound_phases_witness:
  "classify_outbound_ack (mark_awaiting_pubcomp 1 (take_id 2 1 new_flow)) 1 PubComp = Complete \<and>
   phase (release_outbound 1 (mark_awaiting_pubcomp 1 (take_id 2 1 new_flow))) 1 = Free"
proof -
  have free: "\<not> test (outbound new_flow) 1" by (simp add: new_flow_def empty_ids_inv)
  have loop: "allocate_loop (Suc n) (None :: unit claim option) 2 new_flow () =
      (\<lparr>alloc_status = Ready, alloc_id = 1\<rparr>, take_id 2 1 new_flow, ())" for n
    using free by (simp add: Let_def take_id_def) (simp add: new_flow_def)
  have "\<not> outbound_window_full new_flow"
    by (simp add: outbound_window_full_def new_flow_def empty_ids_def)
  then have a: "fst (snd (allocate_outbound (None :: unit claim option) 2 new_flow ())) = take_id 2 1 new_flow"
    using loop [of 65534] by (simp add: allocate_outbound_def del: allocate_loop.simps)
  have r: "flow_reach (None :: unit claim option) (take_id 2 1 new_flow)"
    unfolding a [symmetric] by (intro flow_reach.intros)
  from outbound_phases [OF reach_mark [OF r], of 1 1 PubComp 1] outbound_phases [OF r, of 1 PubComp 1] 
  show ?thesis
    using phase_take_id [OF flow_inv_new _ free, of 2 1] by simp
qed


subsection \<open>Finding a free identifier\<close>

definition rank :: "u16 \<Rightarrow> nat" where
  "rank i = unat i - 1"

lemma rank_next: "i \<noteq> 0 \<Longrightarrow> rank (next_id i) = Suc (rank i) mod 65535"
proof -
  assume i: "i \<noteq> 0"
  then have pos: "0 < unat i" by (simp add: unat_gt_0)
  show ?thesis
  proof (cases "i = 65535")
    case False
    then have "unat i \<noteq> unat (65535 :: u16)" by (metis word_unat_eq_iff)
    then have "unat i < 65535" using unsigned_less [of i, where ?'a = nat] by simp
    with pos False show ?thesis by (simp add: rank_def next_id_def unat_word_ariths)
  qed (simp add: rank_def next_id_def)
qed

lemma rank_iterate:
  assumes "i \<noteq> 0"
  shows "(next_id ^^ k) i \<noteq> 0 \<and> rank ((next_id ^^ k) i) = (rank i + k) mod 65535"
proof (induction k)
  case 0
  have "unat i \<le> 65535" using unsigned_less [of i, where ?'a = nat] by simp
  moreover have "0 < unat i" using assms by (simp add: unat_gt_0)
  ultimately show ?case using assms by (simp add: rank_def)
next
  case (Suc k)
  then show ?case by (simp add: next_id_nonzero rank_next mod_Suc_eq)
qed

lemma rank_inject: "i \<noteq> 0 \<Longrightarrow> j \<noteq> 0 \<Longrightarrow> rank i = rank j \<Longrightarrow> i = j"
  unfolding rank_def by (metis One_nat_def Suc_pred unat_gt_0 word_unat_eq_iff)

lemma rank_less: "rank i < 65535"
  using unsigned_less [of i, where ?'a = nat] by (simp add: rank_def)

text \<open>The round robin visits every identifier.\<close>

lemma next_id_visits:
  assumes "i \<noteq> 0" "j \<noteq> 0"
  shows "\<exists>k<65535. (next_id ^^ k) i = j"
proof -
  define k where "k = (rank j + (65535 - rank i)) mod 65535"
  have "(rank i + k) mod 65535 = (rank i + (rank j + (65535 - rank i))) mod 65535"
    by (simp add: k_def mod_add_right_eq)
  also have "\<dots> = (rank j + 65535) mod 65535" using rank_less [of i] by (simp add: algebra_simps)
  also have "\<dots> = rank j" using rank_less [of j] by simp
  finally have "rank ((next_id ^^ k) i) = rank j" using rank_iterate [OF assms(1), of k] by simp
  then have "(next_id ^^ k) i = j" using rank_iterate [OF assms(1), of k] rank_inject assms(2) by blast
  moreover have "k < 65535" by (simp add: k_def)
  ultimately show ?thesis by blast
qed

lemma allocate_loop_finds:
  assumes "\<forall>i. g i \<in> {0, 1}" "k < n" "\<not> test (outbound f) ((next_id ^^ k) (next_packet_id f))"
    "g ((next_id ^^ k) (next_packet_id f)) = 0"
  shows "\<exists>r f'. allocate_loop n (Some (\<lambda>c i. (g i, c))) qos f c = (r, f', c) \<and> alloc_status r = Ready \<and> g (alloc_id r) = 0"
  using assms(2-)
proof (induction n arbitrary: f k)
  case (Suc n)
  let ?i = "next_packet_id f"
  let ?f = "f\<lparr>next_packet_id := next_id ?i\<rparr>"
  show ?case
  proof (cases "\<not> test (outbound f) ?i \<and> g ?i = 0")
    case True
    then show ?thesis by (simp add: Let_def)
  next
    case False
    with Suc.prems obtain m where "k = Suc m" by (cases k) auto
    with Suc.prems have "m < n" "\<not> test (outbound ?f) ((next_id ^^ m) (next_packet_id ?f))"
      "g ((next_id ^^ m) (next_packet_id ?f)) = 0"
      by (simp_all add: funpow_swap1)
    from Suc.IH [OF this] False assms(1) show ?thesis by (auto simp: Let_def)
  qed
qed simp


lemma allocate_loop_no_claim:
  "allocate_loop n None qos f c = allocate_loop n (Some (\<lambda>c i. (0, c))) qos f c"
  by (induction n arbitrary: f) (simp_all add: Let_def)

lemma allocate_outbound_no_claim:
  "allocate_outbound None qos f c = allocate_outbound (Some (\<lambda>c i. (0, c))) qos f c"
  by (simp add: allocate_outbound_def allocate_loop_no_claim)

lemma window_not_full:
  "\<not> outbound_window_full f \<Longrightarrow>
     id_size (outbound f) < unat (client_receive_maximum f) \<and> id_size (outbound f) < 65535"
  by (simp add: outbound_window_full_def word_le_nat_alt)

lemma size_take_id:
  assumes "flow_inv f" "i \<noteq> 0" "\<not> test (outbound f) i"
  shows "id_size (outbound (take_id qos i f)) = Suc (id_size (outbound f))"
proof -
  have "ids_inv (outbound f)" using assms(1) by (simp add: flow_inv_def)
  from ids.size_ins [OF this, of i] assms(2,3) show ?thesis by (simp add: take_id_def add_erase_result)
qed

lemma allocate_outbound_ready:
  assumes inv: "flow_inv f" and room: "\<not> outbound_window_full f" and g: "\<forall>i. g i \<in> {0, 1}"
    and i: "i \<noteq> 0" "\<not> test (outbound f) i" "g i = 0"
  shows "\<exists>r f'. allocate_outbound (Some (\<lambda>c i. (g i, c))) qos f c = (r, f', c) \<and> alloc_status r = Ready \<and>
    g (alloc_id r) = 0 \<and> phase f (alloc_id r) = Free \<and>
    id_size (outbound f') = Suc (id_size (outbound f)) \<and> id_size (outbound f') \<le> unat (client_receive_maximum f)"
proof -
  have "next_packet_id f \<noteq> 0" using inv by (simp add: flow_inv_def)
  from next_id_visits [OF this i(1)] obtain k where "k < 65535" "(next_id ^^ k) (next_packet_id f) = i" by blast
  with allocate_loop_finds [OF g this(1), of f qos c] i obtain r f' where
    r: "allocate_outbound (Some (\<lambda>c i. (g i, c))) qos f c = (r, f', c)" "alloc_status r = Ready" "g (alloc_id r) = 0"
    using room by (auto simp: allocate_outbound_def)
  from allocate_outbound_cases [OF r(1) inv] r(2) have "alloc_id r \<noteq> 0" "\<not> test (outbound f) (alloc_id r)"
    "f' = take_id qos (alloc_id r) f" by auto
  with r size_take_id [OF inv] window_not_full [OF room] show ?thesis by (auto simp: phase_free)
qed




subsection \<open>Incoming QoS 2 messages\<close>

datatype 'c flow_event =
    Limits u32 u16 byte
  | Client u16 u32
  | Allocate byte 'c
  | ReleaseOut u16
  | Mark u16
  | Admit u16
  | ReleaseQos2 u16

fun flow_event_step :: "'c claim option \<Rightarrow> 'c flow_event \<Rightarrow> flow \<Rightarrow> flow" where
  "flow_event_step claim (Limits m r q) f = set_server_limits m r q f"
| "flow_event_step claim (Client r m) f = observe_client r m f"
| "flow_event_step claim (Allocate qos c) f = fst (snd (allocate_outbound claim qos f c))"
| "flow_event_step claim (ReleaseOut i) f = release_outbound i f"
| "flow_event_step claim (Mark i) f = mark_awaiting_pubcomp i f"
| "flow_event_step claim (Admit i) f = snd (admit_qos2 i f)"
| "flow_event_step claim (ReleaseQos2 i) f = release_qos2 i f"

lemma inbound_step:
  assumes "flow_inv f" "e \<noteq> ReleaseQos2 i" "test (inbound_qos2 f) i"
  shows "flow_inv (flow_event_step claim e f) \<and> test (inbound_qos2 (flow_event_step claim e f)) i"
proof (cases e)
  case (Allocate qos c)
  obtain r f' c' where a: "allocate_outbound claim qos f c = (r, f', c')" by (metis prod_cases3)
  from allocate_outbound_cases [OF a assms(1)] have "inbound_qos2 f' = inbound_qos2 f" by (auto simp: take_id_def)
  with a Allocate assms flow_inv_ops(3) [OF assms(1), of claim qos c] show ?thesis by simp
qed (use assms flow_inv_ops [OF assms(1)] in \<open>auto simp: set_server_limits_def observe_client_def
    release_outbound_def mark_awaiting_pubcomp_def admit_qos2_def release_qos2_def flow_inv_def ids.mem_ins ids.mem_del\<close>)

lemma inbound_steps:
  "flow_inv f \<Longrightarrow> test (inbound_qos2 f) i \<Longrightarrow> ReleaseQos2 i \<notin> set es \<Longrightarrow>
     test (inbound_qos2 (fold (flow_event_step claim) es f)) i"
proof (induction es arbitrary: f)
  case (Cons e es)
  then have "e \<noteq> ReleaseQos2 i" "ReleaseQos2 i \<notin> set es" by auto
  with Cons.IH inbound_step [OF Cons.prems(1) this(1) Cons.prems(2), of claim] show ?case by simp
qed simp

text \<open>
  C10.  A QoS 2 message is forwarded once: after its identifier has been admitted, every further
  message with it is reported as a duplicate until the identifier is released, whatever else
  happens on the connection.  An admission never exceeds the server's receive maximum.
\<close>

theorem qos2_forwarded_once:
  assumes "flow_reach claim f" "i \<noteq> 0" "admit_qos2 i f = (Forward, f1)" "ReleaseQos2 i \<notin> set es"
  shows "admit_qos2 i (fold (flow_event_step claim) es f1) = (Duplicate, fold (flow_event_step claim) es f1) \<and>
    id_size (inbound_qos2 f1) \<le> unat (server_receive_maximum f)"
proof
  note inv = flow_reach_inv [OF assms(1)]
  have t: "\<not> test (inbound_qos2 f) i" "id_size (inbound_qos2 f) < unat (server_receive_maximum f)"
    and f1: "f1 = f\<lparr>inbound_qos2 := snd (add i (inbound_qos2 f))\<rparr>"
    using assms(2,3) by (auto simp: admit_qos2_def word_le_nat_alt split: if_splits)
  have "ids_inv (inbound_qos2 f)" using inv by (simp add: flow_inv_def)
  from ids.size_ins [OF this, of i] ids.mem_ins [OF this, of i i] t assms(2) f1
  have "test (inbound_qos2 f1) i" "id_size (inbound_qos2 f1) \<le> unat (server_receive_maximum f)"
    by (simp_all add: add_erase_result)
  moreover have "flow_inv f1" using flow_inv_ops(6) [OF inv, of i] assms(3) by simp
  ultimately show "admit_qos2 i (fold (flow_event_step claim) es f1) = (Duplicate, fold (flow_event_step claim) es f1)"
    "id_size (inbound_qos2 f1) \<le> unat (server_receive_maximum f)"
    using inbound_steps assms(2,4) by (simp_all add: admit_qos2_def)
qed

theorem qos2_forwarded_once_witness:
  "\<exists>f1. admit_qos2 7 new_flow = (Forward, f1) \<and> fst (admit_qos2 7 (release_qos2 8 f1)) = Duplicate"
proof -
  have "fst (admit_qos2 7 new_flow) = Forward"
    using empty_ids_inv(2) [of 7] by (simp add: admit_qos2_def new_flow_def) (simp add: empty_ids_def)
  then obtain f1 where f1: "admit_qos2 7 new_flow = (Forward, f1)" by (metis prod.collapse)
  from qos2_forwarded_once [OF reach_new _ f1, of "[ReleaseQos2 8]" "None :: unit claim option"] f1
  show ?thesis by simp
qed

end
