(* ===== verification/Connection.thy ===== *)
theory Connection
  imports Mqtt_Packet
begin

text \<open>
  The small per-connection helpers: the inbound topic alias table
  (\<^verbatim>\<open>src/protocol/mqtt_topic_alias.h\<close>), the capabilities announced in CONNACK
  (\<^verbatim>\<open>mqtt_connack_limits.h\<close>), the CONNECT and keep-alive deadlines
  (\<^verbatim>\<open>mqtt_connection_watch.h\<close>) and the gate between an old and a new connection of one
  client (\<^verbatim>\<open>src/session/mqtt_takeover.h\<close>).
\<close>

subsection \<open>Inbound topic aliases\<close>

datatype alias_result = AliasUnused | AliasResolved | AliasInvalid | AliasUnknown | AliasQuota

text \<open>Which of the allocations of one call succeed: the copy of the topic, the table, its node, an assignment.\<close>

record alias_memory =
  copy_memory :: bool
  table_memory :: bool
  node_memory :: bool
  assign_memory :: bool

text \<open>\<^verbatim>\<open>entries_\<close>: a null pointer until the first topic is stored.\<close>

type_synonym alias_table = "(u16 \<rightharpoonup> bytes) option"

definition ensure_table :: "alias_memory \<Rightarrow> alias_table \<Rightarrow> alias_table" where
  "ensure_table mem entries =
     (case entries of Some t \<Rightarrow> Some t | None \<Rightarrow> if table_memory mem then Some Map.empty else None)"

definition apply_alias ::
  "alias_memory \<Rightarrow> bool \<Rightarrow> u16 \<Rightarrow> u16 \<Rightarrow> bytes \<Rightarrow> alias_table \<Rightarrow> alias_result \<times> bytes \<times> alias_table" where
  "apply_alias mem present alias maximum topic entries =
     (if \<not> present then (AliasUnused, topic, entries)
      else if alias = 0 \<or> alias > maximum then (AliasInvalid, topic, entries)
      else if topic \<noteq> [] then
        if \<not> copy_memory mem then (AliasQuota, topic, entries)
        else (case ensure_table mem entries of
            None \<Rightarrow> (AliasQuota, topic, entries)
          | Some table \<Rightarrow>
              if (case table alias of None \<Rightarrow> node_memory mem | Some _ \<Rightarrow> assign_memory mem)
              then (AliasResolved, topic, Some (table(alias \<mapsto> topic)))
              else (AliasQuota, topic, Some table))
      else (case entries of
          None \<Rightarrow> (AliasUnknown, topic, entries)
        | Some table \<Rightarrow>
            (case table alias of
               None \<Rightarrow> (AliasUnknown, topic, entries)
             | Some stored \<Rightarrow>
                 if assign_memory mem then (AliasResolved, stored, entries)
                 else (AliasQuota, topic, entries))))"

definition TopicAliasInvalid :: reason_code where "TopicAliasInvalid = 0x94"
definition ProtocolError :: reason_code where "ProtocolError = 0x82"
definition QuotaExceeded :: reason_code where "QuotaExceeded = 0x97"

fun inbound_alias_disconnect_reason :: "alias_result \<Rightarrow> reason_code" where
  "inbound_alias_disconnect_reason AliasInvalid = TopicAliasInvalid"
| "inbound_alias_disconnect_reason AliasUnknown = ProtocolError"
| "inbound_alias_disconnect_reason AliasQuota = QuotaExceeded"
| "inbound_alias_disconnect_reason _ = Success"

text \<open>A PUBLISH as the table sees it, and the table after a sequence of them.\<close>

record alias_publish =
  ap_memory :: alias_memory
  ap_present :: bool
  ap_alias :: u16
  ap_maximum :: u16
  ap_topic :: bytes

definition alias_step :: "alias_publish \<Rightarrow> alias_table \<Rightarrow> alias_result \<times> bytes \<times> alias_table" where
  "alias_step p = apply_alias (ap_memory p) (ap_present p) (ap_alias p) (ap_maximum p) (ap_topic p)"

primrec alias_run :: "alias_publish list \<Rightarrow> alias_table \<Rightarrow> (alias_result \<times> bytes) list \<times> alias_table" where
  "alias_run [] entries = ([], entries)"
| "alias_run (p # ps) entries =
     (case alias_step p entries of (r, t, entries') \<Rightarrow>
        (case alias_run ps entries' of (rs, entries'') \<Rightarrow> ((r, t) # rs, entries'')))"

text \<open>The topic last bound to an alias, from the requests and their results.\<close>

primrec last_bound :: "u16 \<Rightarrow> (alias_publish \<times> alias_result \<times> bytes) list \<Rightarrow> bytes option \<Rightarrow> bytes option" where
  "last_bound a [] d = d"
| "last_bound a (x # xs) d =
     (case x of (p, r, t) \<Rightarrow>
        last_bound a xs (if r = AliasResolved \<and> ap_alias p = a \<and> ap_topic p \<noteq> [] then Some (ap_topic p) else d))"

abbreviation bound :: "alias_table \<Rightarrow> u16 \<Rightarrow> bytes option" where
  "bound entries a \<equiv> (case entries of None \<Rightarrow> None | Some table \<Rightarrow> table a)"

lemma alias_step_bound:
  assumes "alias_step p entries = (r, t, entries')"
  shows "bound entries' a =
    (if r = AliasResolved \<and> ap_alias p = a \<and> ap_topic p \<noteq> [] then Some (ap_topic p) else bound entries a)"
  using assms
  by (auto simp: alias_step_def apply_alias_def ensure_table_def split: if_splits option.splits)

lemma alias_run_bound:
  "alias_run ps entries = (rs, entries') \<Longrightarrow> bound entries' a = last_bound a (zip ps rs) (bound entries a)"
proof (induction ps arbitrary: entries rs)
  case (Cons p ps)
  obtain r t e where s: "alias_step p entries = (r, t, e)" by (metis prod_cases3)
  moreover obtain rs' e' where "alias_run ps e = (rs', e')" by fastforce
  ultimately show ?case using Cons.prems Cons.IH [of e rs'] alias_step_bound [OF s, of a] by auto
qed simp




subsection \<open>Capabilities in CONNACK\<close>

record protocol_limits =
  max_packet_size :: u32
  keep_alive_max :: u16
  connect_timeout_seconds :: u32
  limit_max_qos :: byte
  limit_retain_available :: bool
  limit_wildcard_subscription_available :: bool
  limit_subscription_identifier_available :: bool
  limit_shared_subscription_available :: bool
  limit_topic_alias_maximum :: u16
  limit_receive_maximum :: u16

definition connack_properties ::
  "protocol_limits \<Rightarrow> u16 \<Rightarrow> bool \<Rightarrow> bool \<Rightarrow> properties \<Rightarrow> properties" where
  "connack_properties limits client_keep_alive client_requested_session_expiry persistence_enabled p =
     (let q = (if persistence_enabled \<and> limit_max_qos limits > 1 then 1 else limit_max_qos limits);
          p = (if q < 2 then p\<lparr>maximum_qos := q, has_maximum_qos := True\<rparr> else p);
          p = p\<lparr>retain_available := limit_retain_available limits,
                wildcard_subscription_available := limit_wildcard_subscription_available limits,
                subscription_identifier_available := limit_subscription_identifier_available limits,
                shared_subscription_available := limit_shared_subscription_available limits,
                maximum_packet_size := max_packet_size limits,
                receive_maximum := limit_receive_maximum limits,
                topic_alias_maximum := limit_topic_alias_maximum limits\<rparr>;
          p = (if keep_alive_max limits > 0 \<and>
                  (client_keep_alive = 0 \<or> client_keep_alive > keep_alive_max limits)
               then p\<lparr>server_keep_alive := keep_alive_max limits\<rparr> else p)
      in if \<not> persistence_enabled \<and> client_requested_session_expiry
         then p\<lparr>has_session_expiry_interval := True, session_expiry_interval := 0\<rparr> else p)"

definition apply_connack_capabilities ::
  "protocol_limits \<Rightarrow> byte \<Rightarrow> u16 \<Rightarrow> bool \<Rightarrow> bool \<Rightarrow> bool \<times> properties \<Rightarrow> bool \<times> properties" where
  "apply_connack_capabilities limits version client_keep_alive client_requested_session_expiry
     persistence_enabled packet =
     (case packet of (session_present, p) \<Rightarrow>
        let session_present = (persistence_enabled \<and> session_present) in
        if version < 5 then (session_present, p)
        else (session_present, connack_properties limits client_keep_alive
                client_requested_session_expiry persistence_enabled p))"

definition negotiated_keep_alive_seconds :: "u16 \<Rightarrow> u16 \<Rightarrow> byte \<Rightarrow> u16" where
  "negotiated_keep_alive_seconds client_keep_alive maximum version =
     (if version \<ge> 5 \<and> maximum > 0 \<and> (client_keep_alive = 0 \<or> client_keep_alive > maximum)
      then maximum else client_keep_alive)"

text \<open>The keep-alive a client uses after CONNACK: the server's value if it was sent one.\<close>

definition client_view_keep_alive :: "u16 \<Rightarrow> properties \<Rightarrow> u16" where
  "client_view_keep_alive client_keep_alive p =
     (if server_keep_alive p \<noteq> 0 then server_keep_alive p else client_keep_alive)"

lemma connack_server_keep_alive:
  "server_keep_alive (connack_properties limits ka expiry persist p) =
     (if keep_alive_max limits > 0 \<and> (ka = 0 \<or> ka > keep_alive_max limits)
      then keep_alive_max limits else server_keep_alive p)"
  by (auto simp: connack_properties_def Let_def)

lemma connack_maximum_qos:
  "has_maximum_qos (connack_properties limits ka expiry persist p) =
     (persist \<or> limit_max_qos limits < 2 \<or> has_maximum_qos p)"
  "maximum_qos (connack_properties limits ka expiry persist p) =
     (if persist \<and> limit_max_qos limits > 1 then 1
      else if limit_max_qos limits < 2 then limit_max_qos limits else maximum_qos p)"
proof -
  have "\<not> (1 :: byte) < q \<Longrightarrow> q < 2" for q by (simp add: word_less_nat_alt)
  then show "has_maximum_qos (connack_properties limits ka expiry persist p) =
     (persist \<or> limit_max_qos limits < 2 \<or> has_maximum_qos p)"
    by (auto simp: connack_properties_def Let_def)
  show "maximum_qos (connack_properties limits ka expiry persist p) =
     (if persist \<and> limit_max_qos limits > 1 then 1
      else if limit_max_qos limits < 2 then limit_max_qos limits else maximum_qos p)"
    by (simp add: connack_properties_def Let_def)
qed

text \<open>
  C31.  The keep-alive interval that the server times and the one the client learns from CONNACK
  are the same, for every protocol version; for MQTT 5 it is positive and within the configured
  maximum, if there is one.  The quality of service announced to an MQTT 5 client is the
  configured one, or 1 if that is higher and sessions are persistent; without persistence no
  session is reported present.
\<close>

theorem connack_agrees:
  assumes "server_keep_alive p = 0" "\<not> has_maximum_qos p" "limit_max_qos limits \<le> 2"
    "apply_connack_capabilities limits version ka expiry persist (present, p) = (present', p')"
  shows "client_view_keep_alive ka p' = negotiated_keep_alive_seconds ka (keep_alive_max limits) version \<and>
    (version \<ge> 5 \<and> keep_alive_max limits > 0 \<longrightarrow>
       0 < client_view_keep_alive ka p' \<and> client_view_keep_alive ka p' \<le> keep_alive_max limits) \<and>
    (\<not> persist \<longrightarrow> \<not> present') \<and>
    (version \<ge> 5 \<longrightarrow>
       (if has_maximum_qos p' then maximum_qos p' else 2) =
       (if persist then min 1 (limit_max_qos limits) else limit_max_qos limits))"
proof (cases "version < 5")
  case True
  with assms show ?thesis
    by (auto simp: apply_connack_capabilities_def negotiated_keep_alive_seconds_def client_view_keep_alive_def)
next
  case False
  with assms have p': "p' = connack_properties limits ka expiry persist p" "present' = (persist \<and> present)"
    by (auto simp: apply_connack_capabilities_def)
  have q: "limit_max_qos limits = 0 \<or> limit_max_qos limits = 1 \<or> limit_max_qos limits = 2"
    using assms(3) by (auto simp: word_le_nat_alt word_unat_eq_iff)
  have "client_view_keep_alive ka p' = negotiated_keep_alive_seconds ka (keep_alive_max limits) version"
    using False assms(1) unfolding client_view_keep_alive_def negotiated_keep_alive_seconds_def p' connack_server_keep_alive
    by (auto simp: word_gt_0 not_less)
  moreover have "(if has_maximum_qos p' then maximum_qos p' else 2) =
       (if persist then min 1 (limit_max_qos limits) else limit_max_qos limits)"
    using q assms(2) unfolding p' connack_maximum_qos by (auto simp: min_def)
  ultimately show ?thesis
    using p'(2) by (auto simp: negotiated_keep_alive_seconds_def word_gt_0 not_less)
qed

theorem connack_agrees_witness:
  "client_view_keep_alive 0 (snd (apply_connack_capabilities
     \<lparr>max_packet_size = 1048576, keep_alive_max = 3600, connect_timeout_seconds = 10, limit_max_qos = 2,
      limit_retain_available = True, limit_wildcard_subscription_available = True,
      limit_subscription_identifier_available = False, limit_shared_subscription_available = False,
      limit_topic_alias_maximum = 16, limit_receive_maximum = 65535\<rparr> 5 0 False False (True, default_properties))) = 3600"
proof -
  let ?l = "\<lparr>max_packet_size = 1048576, keep_alive_max = 3600, connect_timeout_seconds = 10, limit_max_qos = 2,
      limit_retain_available = True, limit_wildcard_subscription_available = True,
      limit_subscription_identifier_available = False, limit_shared_subscription_available = False,
      limit_topic_alias_maximum = 16, limit_receive_maximum = 65535\<rparr> :: protocol_limits"
  obtain present' p' where e: "apply_connack_capabilities ?l 5 0 False False (True, default_properties) = (present', p')"
    by fastforce
  from connack_agrees [OF _ _ _ e] e show ?thesis
    by (simp add: default_properties_def negotiated_keep_alive_seconds_def)
qed


subsection \<open>Deadlines\<close>

text \<open>Times are the tick counts of the steady clock, in nanoseconds; \<^verbatim>\<open>duration_cast\<close> truncates towards zero.\<close>

type_synonym time_point = int

record connection_watch =
  started :: bool
  suppressed :: bool
  connect_complete :: bool
  watch_connect_timeout_seconds :: u32
  keep_alive_seconds :: u16
  established :: time_point
  last_packet :: time_point

definition new_watch :: connection_watch where
  "new_watch = \<lparr>started = False, suppressed = False, connect_complete = False,
     watch_connect_timeout_seconds = 10, keep_alive_seconds = 0, established = 0, last_packet = 0\<rparr>"

definition watch_start :: "time_point \<Rightarrow> u32 \<Rightarrow> connection_watch \<Rightarrow> connection_watch" where
  "watch_start t timeout w =
     w\<lparr>established := t, last_packet := t, watch_connect_timeout_seconds := timeout, started := True\<rparr>"

definition suppress :: "connection_watch \<Rightarrow> connection_watch" where
  "suppress w = w\<lparr>suppressed := True\<rparr>"

definition observe_packet :: "time_point \<Rightarrow> connection_watch \<Rightarrow> connection_watch" where
  "observe_packet now w = w\<lparr>last_packet := now\<rparr>"

definition observe_connect :: "u16 \<Rightarrow> time_point \<Rightarrow> connection_watch \<Rightarrow> connection_watch" where
  "observe_connect ka now w = w\<lparr>connect_complete := True, keep_alive_seconds := ka, last_packet := now\<rparr>"

datatype deadline_kind = NoDeadline | ConnectDeadline | KeepAliveDeadline

definition epoch_ms :: "time_point \<Rightarrow> int" where
  "epoch_ms t = (if 0 \<le> t then t div 1000000 else - (- t div 1000000))"

definition recv_deadline_ms :: "connection_watch \<Rightarrow> int \<times> deadline_kind" where
  "recv_deadline_ms w =
     (if \<not> started w \<or> suppressed w then (-1, NoDeadline)
      else if \<not> connect_complete w
        then (epoch_ms (established w) + uint (watch_connect_timeout_seconds w) * 1000, ConnectDeadline)
      else if keep_alive_seconds w = 0 then (-1, NoDeadline)
      else (epoch_ms (last_packet w) + uint (keep_alive_seconds w) * 1500, KeepAliveDeadline))"

datatype watch_event = Packet time_point | Connected u16 time_point | Suppress

fun watch_step :: "watch_event \<Rightarrow> connection_watch \<Rightarrow> connection_watch" where
  "watch_step (Packet t) w = observe_packet t w"
| "watch_step (Connected ka t) w = observe_connect ka t w"
| "watch_step Suppress w = suppress w"

primrec negotiated :: "u16 option \<Rightarrow> watch_event list \<Rightarrow> u16 option" where
  "negotiated k [] = k"
| "negotiated k (e # es) = negotiated (case e of Connected ka _ \<Rightarrow> Some ka | _ \<Rightarrow> k) es"

primrec last_time :: "time_point \<Rightarrow> watch_event list \<Rightarrow> time_point" where
  "last_time t [] = t"
| "last_time t (e # es) = last_time (case e of Packet u \<Rightarrow> u | Connected _ u \<Rightarrow> u | Suppress \<Rightarrow> t) es"

lemma watch_run_fields:
  "let w' = fold watch_step es w in
     started w' = started w \<and> suppressed w' = (suppressed w \<or> Suppress \<in> set es) \<and>
     established w' = established w \<and> watch_connect_timeout_seconds w' = watch_connect_timeout_seconds w \<and>
     last_packet w' = last_time (last_packet w) es \<and>
     (if connect_complete w' then Some (keep_alive_seconds w') else None) =
       negotiated (if connect_complete w then Some (keep_alive_seconds w) else None) es"
proof (induction es arbitrary: w)
  case (Cons e es)
  show ?case using Cons.IH [of "watch_step e w"]
    by (cases e) (auto simp: Let_def observe_packet_def observe_connect_def suppress_def)
qed simp

text \<open>
  C32.  Until CONNECT has been handled the deadline is fixed at the time of establishment: no
  packet a client sends moves it.  Afterwards it is one and a half negotiated keep-alive
  intervals after the last packet, or absent if the interval is zero or timing is suppressed.
\<close>

theorem deadline_after_events:
  "recv_deadline_ms (fold watch_step es (watch_start t0 timeout new_watch)) =
     (if Suppress \<in> set es then (-1, NoDeadline)
      else case negotiated None es of
        None \<Rightarrow> (epoch_ms t0 + uint timeout * 1000, ConnectDeadline)
      | Some ka \<Rightarrow>
          if ka = 0 then (-1, NoDeadline)
          else (epoch_ms (last_time t0 es) + uint ka * 1500, KeepAliveDeadline))"
  using watch_run_fields [of es "watch_start t0 timeout new_watch"]
  by (auto simp: recv_deadline_ms_def Let_def watch_start_def new_watch_def split: option.splits if_splits)


subsection \<open>Session takeover\<close>

text \<open>The two atomics of the gate; each call is one atomic step.\<close>

record takeover_gate =
  gate_done :: bool
  gate_phase :: int

definition new_gate :: takeover_gate where
  "new_gate = \<lparr>gate_done = False, gate_phase = 0\<rparr>"

definition arm :: "takeover_gate \<Rightarrow> bool \<times> takeover_gate" where
  "arm g = (if gate_phase g = 0 then (True, g\<lparr>gate_phase := 1\<rparr>) else (False, g))"

definition cancel :: "takeover_gate \<Rightarrow> bool \<times> takeover_gate" where
  "cancel g = (if gate_phase g = 0 then (True, g\<lparr>gate_phase := 2, gate_done := True\<rparr>) else (False, g))"

datatype gate_call = Arm | Cancel

fun gate_step :: "gate_call \<Rightarrow> takeover_gate \<Rightarrow> bool \<times> takeover_gate" where
  "gate_step Arm g = arm g"
| "gate_step Cancel g = cancel g"

primrec gate_run :: "gate_call list \<Rightarrow> takeover_gate \<Rightarrow> bool list \<times> takeover_gate" where
  "gate_run [] g = ([], g)"
| "gate_run (c # cs) g = (case gate_step c g of (r, g') \<Rightarrow> case gate_run cs g' of (rs, g'') \<Rightarrow> (r # rs, g''))"

lemma gate_run_closed: "gate_phase g \<noteq> 0 \<Longrightarrow> gate_run cs g = (replicate (length cs) False, g)"
proof (induction cs)
  case (Cons c cs)
  then show ?case by (cases c) (simp_all add: arm_def cancel_def)
qed simp

text \<open>However the calls interleave, the first one wins and all others fail.\<close>

lemma gate_first_wins:
  "gate_run (c # cs) new_gate =
     (True # replicate (length cs) False,
      \<lparr>gate_done = (c = Cancel), gate_phase = (if c = Arm then 1 else 2)\<rparr>)"
  by (cases c) (simp_all add: new_gate_def arm_def cancel_def gate_run_closed)

end
