(* ===== verification/Topic_Levels.thy ===== *)
theory Topic_Levels
  imports Mqtt_Base
begin

text \<open>
  Topic names and filters: the checks and the splitting into levels of
  \<^verbatim>\<open>src/topic/mqtt_topic_tree.cpp\<close>, and the matching rule of the protocol that the
  tree and the retain store implement.  The bytes of \<^verbatim>\<open>/\<close>, \<^verbatim>\<open>+\<close>, \<^verbatim>\<open>#\<close> and
  \<^verbatim>\<open>$\<close> are written out.
\<close>

abbreviation slash :: byte where "slash \<equiv> 0x2F"
abbreviation plus_byte :: byte where "plus_byte \<equiv> 0x2B"
abbreviation hash_byte :: byte where "hash_byte \<equiv> 0x23"
abbreviation dollar :: byte where "dollar \<equiv> 0x24"

type_synonym level = bytes

abbreviation single_level_wildcard :: level where "single_level_wildcard \<equiv> [plus_byte]"
abbreviation multi_level_wildcard :: level where "multi_level_wildcard \<equiv> [hash_byte]"

subsection \<open>Validation of a filter\<close>

definition filter_char_ok :: "bytes \<Rightarrow> nat \<Rightarrow> bool" where
  "filter_char_ok f i \<longleftrightarrow>
     (if f ! i = hash_byte then (i = 0 \<or> f ! (i - 1) = slash) \<and> i = length f - 1
      else if f ! i = plus_byte then
        (i = 0 \<or> f ! (i - 1) = slash) \<and> (i = length f - 1 \<or> f ! (i + 1) = slash)
      else True)"

definition validate_topic_filter :: "bytes \<Rightarrow> mq_err option" where
  "validate_topic_filter f =
     (if f = [] then Some MQ_ERR_PARAM_V2
      else if list_all (filter_char_ok f) [0..<length f] then None
      else Some MQ_ERR_PARAM_V2)"


subsection \<open>Levels\<close>

text \<open>The loop: \<open>cur\<close> is the part from \<^verbatim>\<open>start\<close> to the current position.\<close>

fun split_loop :: "bytes \<Rightarrow> bytes \<Rightarrow> level list" where
  "split_loop cur [] = (if cur \<noteq> [] then [cur] else [])"
| "split_loop cur (c # cs) = (if c = slash then cur # split_loop [] cs else split_loop (cur @ [c]) cs)"

definition split_topic_levels :: "bytes \<Rightarrow> level list result" where
  "split_topic_levels topic =
     (if topic = [] then Inl MQ_ERR_TOPIC_TREE_INVALID_TOPIC
      else if length topic > 65535 then Inl MQ_ERR_TOPIC_TREE_INVALID_TOPIC
      else Inr (split_loop [] topic))"

definition join_topic_path :: "bytes \<Rightarrow> level \<Rightarrow> bytes" where
  "join_topic_path path child = (if path = [] then child else path @ [slash] @ child)"

text \<open>A path of levels, joined one after the other from the root.\<close>

definition join_levels :: "level list \<Rightarrow> bytes" where
  "join_levels ls = foldl join_topic_path [] ls"


subsection \<open>Reference definitions\<close>

text \<open>Splitting at every separator, also at the end.\<close>

fun split_all :: "bytes \<Rightarrow> level list" where
  "split_all [] = [[]]"
| "split_all (c # cs) =
     (if c = slash then [] # split_all cs
      else case split_all cs of l # ls \<Rightarrow> (c # l) # ls | [] \<Rightarrow> [[c]])"

text \<open>The rules for wildcards in a filter.\<close>

fun filter_levels_ok :: "level list \<Rightarrow> bool" where
  "filter_levels_ok [] = True"
| "filter_levels_ok (l # ls) \<longleftrightarrow>
     (l = multi_level_wildcard \<and> ls = [] \<or> l = single_level_wildcard \<or>
      plus_byte \<notin> set l \<and> hash_byte \<notin> set l) \<and> filter_levels_ok ls"

text \<open>When a filter matches a topic, level by level.\<close>

fun matches :: "level list \<Rightarrow> level list \<Rightarrow> bool" where
  "matches [] [] = True"
| "matches [] (t # ts) = False"
| "matches (f # fs) ts =
     (f = multi_level_wildcard \<and> fs = [] \<or>
      (case ts of [] \<Rightarrow> False
       | t # ts' \<Rightarrow> (f = single_level_wildcard \<or> f = t) \<and> matches fs ts'))"

definition system_level :: "level \<Rightarrow> bool" where
  "system_level l \<longleftrightarrow> l \<noteq> [] \<and> hd l = dollar"

text \<open>A wildcard in the first level does not match a system topic.\<close>

definition topic_matches :: "level list \<Rightarrow> level list \<Rightarrow> bool" where
  "topic_matches fs ts \<longleftrightarrow> matches fs ts \<and>
     \<not> (ts \<noteq> [] \<and> system_level (hd ts) \<and> fs \<noteq> [] \<and> hd fs \<in> {single_level_wildcard, multi_level_wildcard})"

lemma split_all_nonempty [simp]: "split_all cs \<noteq> []"
  by (induction cs) (auto split: list.splits)

lemma split_all_Cons: obtains l ls where "split_all cs = l # ls"
  using split_all_nonempty [of cs] by (cases "split_all cs") auto


subsection \<open>The check of a filter\<close>

text \<open>The loop as a scan; \<open>p\<close> says whether a level starts here.\<close>

fun scan :: "bool \<Rightarrow> bytes \<Rightarrow> bool" where
  "scan p [] = True"
| "scan p (c # cs) \<longleftrightarrow>
     (if c = hash_byte then p \<and> cs = []
      else if c = plus_byte then p \<and> (cs = [] \<or> hd cs = slash) else True) \<and> scan (c = slash) cs"

lemma filter_char_ok_scan:
  "list_all (filter_char_ok (xs @ ys)) [length xs..<length (xs @ ys)] \<longleftrightarrow> scan (xs = [] \<or> last xs = slash) ys"
proof (induction ys arbitrary: xs)
  case (Cons c cs)
  have "[length xs..<length (xs @ c # cs)] = length xs # [length (xs @ [c])..<length ((xs @ [c]) @ cs)]"
    by (simp add: upt_rec)
  moreover have "filter_char_ok (xs @ c # cs) (length xs) \<longleftrightarrow>
      (if c = hash_byte then (xs = [] \<or> last xs = slash) \<and> cs = []
       else if c = plus_byte then (xs = [] \<or> last xs = slash) \<and> (cs = [] \<or> hd cs = slash) else True)"
    by (cases cs; cases xs rule: rev_cases) (auto simp: filter_char_ok_def nth_append)
  ultimately show ?case using Cons.IH [of "xs @ [c]"] by simp
qed simp

lemma scan_levels:
  "scan True f \<longleftrightarrow> filter_levels_ok (split_all f)"
  "scan False f \<longleftrightarrow> plus_byte \<notin> set (hd (split_all f)) \<and> hash_byte \<notin> set (hd (split_all f)) \<and>
     filter_levels_ok (tl (split_all f))"
proof (induction f)
  case (Cons c cs)
  obtain l ls where l: "split_all cs = l # ls" by (rule split_all_Cons)
  have nil: "cs = [] \<longleftrightarrow> l = [] \<and> ls = []" using l by (cases cs) (auto split: list.splits if_splits)
  have hd: "cs \<noteq> [] \<and> hd cs = slash \<longleftrightarrow> l = [] \<and> ls \<noteq> []"
    using l by (cases cs) (auto split: list.splits if_splits)
  { case 1 show ?case using Cons.IH l nil hd by (cases "ls") auto }
  { case 2 show ?case using Cons.IH l nil hd by (cases "ls") auto }
qed simp_all

lemma validate_topic_filter_levels:
  "validate_topic_filter f = None \<longleftrightarrow> f \<noteq> [] \<and> filter_levels_ok (split_all f)"
  using filter_char_ok_scan [of "[]" f] by (simp add: validate_topic_filter_def scan_levels)


subsection \<open>Splitting and joining\<close>

definition drop_empty_end :: "level list \<Rightarrow> level list" where
  "drop_empty_end ls = (if ls \<noteq> [] \<and> last ls = [] then butlast ls else ls)"

lemma split_loop_split_all:
  "split_loop cur cs = drop_empty_end ((cur @ hd (split_all cs)) # tl (split_all cs))"
proof (induction cs arbitrary: cur)
  case (Cons c cs)
  obtain l ls where "split_all cs = l # ls" by (rule split_all_Cons)
  then show ?case using Cons.IH by (auto simp: drop_empty_end_def)
qed (simp add: drop_empty_end_def)

lemma split_levels: "split_loop [] f = drop_empty_end (split_all f)"
  using split_loop_split_all [of "[]" f] by simp

lemma filter_levels_ok_drop: "filter_levels_ok ls \<Longrightarrow> filter_levels_ok (drop_empty_end ls)"
proof -
  have "filter_levels_ok (xs @ [x]) \<Longrightarrow> filter_levels_ok xs" for xs x by (induction xs) auto
  then show "filter_levels_ok ls \<Longrightarrow> ?thesis"
    by (cases ls rule: rev_cases) (auto simp: drop_empty_end_def)
qed

lemma split_all_no_slash: "l \<in> set (split_all f) \<Longrightarrow> slash \<notin> set l"
  by (induction f arbitrary: l) (auto split: list.splits if_splits)

lemma split_loop_no_slash: "l \<in> set (split_loop [] f) \<Longrightarrow> slash \<notin> set l"
  unfolding split_levels drop_empty_end_def by (auto split: if_splits dest: in_set_butlastD split_all_no_slash)

lemma split_loop_nonempty: "f \<noteq> [] \<Longrightarrow> split_loop [] f \<noteq> []"
proof -
  have "cur \<noteq> [] \<or> cs \<noteq> [] \<Longrightarrow> split_loop cur cs \<noteq> []" for cur cs
    by (induction cur cs rule: split_loop.induct) auto
  then show "f \<noteq> [] \<Longrightarrow> ?thesis" by blast
qed

lemma split_loop_level: "slash \<notin> set l \<Longrightarrow> split_loop cur (l @ cs) = split_loop (cur @ l) cs"
  by (induction l arbitrary: cur) auto

lemma foldl_join: "p \<noteq> [] \<Longrightarrow> foldl join_topic_path p ls = p @ concat (map ((#) slash) ls)"
  by (induction ls arbitrary: p) (simp_all add: join_topic_path_def)

lemma split_loop_join:
  "\<forall>l\<in>set ls. slash \<notin> set l \<Longrightarrow> last (cur # ls) \<noteq> [] \<Longrightarrow>
     split_loop cur (concat (map ((#) slash) ls)) = cur # ls"
proof (induction ls arbitrary: cur)
  case (Cons l ls)
  then show ?case using split_loop_level [of l "[]"] by simp
qed simp

text \<open>
  A joined path splits back into its levels if its first and its last level are not empty.
  An empty first level is lost by joining, an empty last one by splitting.
\<close>

definition plain_path :: "level list \<Rightarrow> bool" where
  "plain_path ls \<longleftrightarrow> ls \<noteq> [] \<and> hd ls \<noteq> [] \<and> last ls \<noteq> [] \<and> (\<forall>l\<in>set ls. slash \<notin> set l)"

lemma split_join:
  assumes "plain_path ls"
  shows "split_loop [] (join_levels ls) = ls"
proof -
  obtain l ms where ls: "ls = l # ms" using assms by (cases ls) (auto simp: plain_path_def)
  with assms have l: "l \<noteq> []" "slash \<notin> set l" by (auto simp: plain_path_def)
  then have "join_levels ls = l @ concat (map ((#) slash) ms)"
    by (simp add: ls join_levels_def join_topic_path_def foldl_join)
  with l assms show ?thesis
    using split_loop_level [of l "[]"] split_loop_join [of ms l] by (auto simp: ls plain_path_def)
qed

lemma length_join_levels: "ls \<noteq> [] \<Longrightarrow> hd ls \<noteq> [] \<Longrightarrow> join_levels ls \<noteq> []"
  by (cases ls) (simp_all add: join_levels_def join_topic_path_def foldl_join)

text \<open>
  C30.  A filter passes the check exactly when it is not empty and its levels obey the rules for
  wildcards: a multi-level wildcard is the whole last level, a single-level wildcard a whole
  level.  Splitting gives the levels between the separators, without an empty last one.
\<close>

theorem topic_filter_levels:
  "(validate_topic_filter f = None \<longleftrightarrow> f \<noteq> [] \<and> filter_levels_ok (split_all f)) \<and>
   (f \<noteq> [] \<and> length f \<le> 65535 \<longrightarrow>
      split_topic_levels f = Inr (if last (split_all f) = [] then butlast (split_all f) else split_all f)) \<and>
   (f = [] \<or> length f > 65535 \<longrightarrow> split_topic_levels f = Inl MQ_ERR_TOPIC_TREE_INVALID_TOPIC)"
  using validate_topic_filter_levels [of f]
  by (auto simp: split_topic_levels_def split_levels drop_empty_end_def)

theorem topic_filter_levels_witness:
  "validate_topic_filter [0x61, slash, plus_byte] = None \<and>
   split_topic_levels [0x61, slash, plus_byte] = Inr [[0x61], single_level_wildcard]"
  using topic_filter_levels [of "[0x61, slash, plus_byte]"] by simp

end
