(* ===== verification/Topic_Tree.thy ===== *)
theory Topic_Tree
  imports Topic_Levels Mqtt_Packet "HOL-Library.List_Lexorder" "HOL-Library.Multiset"
begin

text \<open>
  \<^verbatim>\<open>ConcurrentTopicTree\<close> of \<^verbatim>\<open>src/topic/mqtt_topic_tree.{h,cpp}\<close>: the trie of
  subscriptions.  A node has a map from level to child and a set of subscribers, at most one per
  client; both are lists here, in the order in which the unordered containers are traversed.  A
  pointer to a node is its path.  The model runs one operation at a time, so the compare-and-swap
  of a node's contents succeeds at the first attempt; how the copy-on-write updates of several
  threads combine is in \<^verbatim>\<open>Cow_Cell\<close>.  The allocations of node objects are numbered in
  the order the code makes them; \<open>mem i\<close> says whether the \<open>i\<close>-th succeeds.
\<close>

subsection \<open>Nodes\<close>

record subscriber =
  sub_client :: bytes
  sub_info :: subscription_options

datatype tnode = Node (children: "(level \<times> tnode) list") (subscribers: "subscriber list")

definition empty_node :: tnode where
  "empty_node = Node [] []"

definition get_child :: "level \<Rightarrow> tnode \<Rightarrow> tnode option" where
  "get_child l nd = map_of (children nd) l"

text \<open>Replacing the value of a key, or appending a new one.\<close>

fun put :: "'k \<Rightarrow> 'v \<Rightarrow> ('k \<times> 'v) list \<Rightarrow> ('k \<times> 'v) list" where
  "put k v [] = [(k, v)]"
| "put k v ((k', v') # kvs) = (if k' = k then (k, v) # kvs else (k', v') # put k v kvs)"

definition add_child :: "level \<Rightarrow> tnode \<Rightarrow> tnode \<Rightarrow> tnode" where
  "add_child l c nd = Node (put l c (children nd)) (subscribers nd)"

definition remove_child :: "level \<Rightarrow> tnode \<Rightarrow> tnode" where
  "remove_child l nd = Node (filter (\<lambda>(k, _). k \<noteq> l) (children nd)) (subscribers nd)"

definition has_subscriber :: "bytes \<Rightarrow> tnode \<Rightarrow> bool" where
  "has_subscriber c nd \<longleftrightarrow> c \<in> sub_client ` set (subscribers nd)"

definition add_subscriber :: "subscriber \<Rightarrow> tnode \<Rightarrow> tnode result" where
  "add_subscriber s nd =
     (if sub_client s = [] then Inl MQ_ERR_TOPIC_TREE_INVALID_CLIENT
      else Inr (Node (children nd) (filter (\<lambda>t. sub_client t \<noteq> sub_client s) (subscribers nd) @ [s])))"

definition remove_subscriber :: "bytes \<Rightarrow> tnode \<Rightarrow> tnode result" where
  "remove_subscriber c nd =
     (if c = [] then Inl MQ_ERR_TOPIC_TREE_INVALID_CLIENT
      else if \<not> has_subscriber c nd then Inl MQ_ERR_TOPIC_TREE_SUBSCRIBER_NOT_FOUND
      else Inr (Node (children nd) (filter (\<lambda>t. sub_client t \<noteq> c) (subscribers nd))))"


subsection \<open>The tree\<close>

record topic_tree =
  root :: "tnode option"
  total_subscribers :: nat
  total_nodes :: nat

type_synonym node_memory = "nat \<Rightarrow> bool"

text \<open>A node object and the contents of a node take one allocation each.\<close>

definition create_initialized_node :: "node_memory \<Rightarrow> nat \<Rightarrow> tnode result \<times> nat" where
  "create_initialized_node mem i =
     (if \<not> mem i then (Inl MQ_ERR_TOPIC_TREE_MEMORY_ALLOC, i + 1)
      else if \<not> mem (i + 1) then (Inl MQ_ERR_TOPIC_TREE_MEMORY_ALLOC, i + 2)
      else (Inr empty_node, i + 2))"

definition new_tree :: "node_memory \<Rightarrow> nat \<Rightarrow> topic_tree \<times> nat" where
  "new_tree mem i =
     (case create_initialized_node mem i of
        (Inl _, i') \<Rightarrow> (\<lparr>root = None, total_subscribers = 0, total_nodes = 0\<rparr>, i')
      | (Inr nd, i') \<Rightarrow> (\<lparr>root = Some nd, total_subscribers = 0, total_nodes = 1\<rparr>, i'))"

definition clone :: "node_memory \<Rightarrow> nat \<Rightarrow> tnode \<Rightarrow> tnode result \<times> nat" where
  "clone mem i nd = (if mem i then Inr nd else Inl MQ_ERR_TOPIC_TREE_MEMORY_ALLOC, i + 1)"

text \<open>
  \<^verbatim>\<open>get_or_create_node\<close> with creation: the code, the tree below the node with the children
  created on the way, their number, and the next allocation.
\<close>

fun create_path :: "node_memory \<Rightarrow> nat \<Rightarrow> level list \<Rightarrow> tnode \<Rightarrow> mq_err option \<times> tnode \<times> nat \<times> nat" where
  "create_path mem i [] nd = (None, nd, 0, i)"
| "create_path mem i (l # ls) nd =
     (case get_child l nd of
        Some c \<Rightarrow>
          (case create_path mem i ls c of (r, c', n, i') \<Rightarrow> (r, add_child l c' nd, n, i'))
      | None \<Rightarrow>
          (case create_initialized_node mem i of
             (Inl e, i1) \<Rightarrow> (Some e, nd, 0, i1)
           | (Inr c, i1) \<Rightarrow>
               (case clone mem i1 nd of
                  (Inl e, i2) \<Rightarrow> (Some e, nd, 0, i2)
                | (Inr new_nd, i2) \<Rightarrow>
                    (case create_path mem i2 ls c of
                       (r, c', n, i') \<Rightarrow> (r, add_child l c' new_nd, n + 1, i')))))"

text \<open>\<^verbatim>\<open>get_or_create_node\<close> without creation.\<close>

fun find_node :: "level list \<Rightarrow> tnode \<Rightarrow> tnode option" where
  "find_node [] nd = Some nd"
| "find_node (l # ls) nd = (case get_child l nd of None \<Rightarrow> None | Some c \<Rightarrow> find_node ls c)"

text \<open>Writing through a pointer to a node.\<close>

fun update_node :: "level list \<Rightarrow> tnode \<Rightarrow> tnode \<Rightarrow> tnode" where
  "update_node [] nd' nd = nd'"
| "update_node (l # ls) nd' nd =
     (case get_child l nd of None \<Rightarrow> nd | Some c \<Rightarrow> add_child l (update_node ls nd' c) nd)"

definition add_subscriber_to_node ::
  "node_memory \<Rightarrow> nat \<Rightarrow> level list \<Rightarrow> subscriber \<Rightarrow> tnode \<Rightarrow> topic_tree \<Rightarrow> mq_err option \<times> topic_tree \<times> nat" where
  "add_subscriber_to_node mem i ls s rt t =
     (case find_node ls rt of
        None \<Rightarrow> (Some UB_NULL_DEREFERENCE, t, i)
      | Some nd \<Rightarrow>
          let already_exists = has_subscriber (sub_client s) nd in
          (case clone mem i nd of
             (Inl e, i') \<Rightarrow> (Some e, t, i')
           | (Inr new_nd, i') \<Rightarrow>
               (case add_subscriber s new_nd of
                  Inl e \<Rightarrow> (Some e, t, i')
                | Inr nd' \<Rightarrow>
                    (None, t\<lparr>root := Some (update_node ls nd' rt),
                             total_subscribers := (if already_exists then total_subscribers t
                                                   else total_subscribers t + 1)\<rparr>, i'))))"

definition remove_subscriber_from_node ::
  "node_memory \<Rightarrow> nat \<Rightarrow> level list \<Rightarrow> bytes \<Rightarrow> tnode \<Rightarrow> topic_tree \<Rightarrow> mq_err option \<times> topic_tree \<times> nat" where
  "remove_subscriber_from_node mem i ls c rt t =
     (case find_node ls rt of
        None \<Rightarrow> (Some UB_NULL_DEREFERENCE, t, i)
      | Some nd \<Rightarrow>
          if \<not> has_subscriber c nd then (Some MQ_ERR_NOT_FOUND_V2, t, i)
          else (case clone mem i nd of
             (Inl e, i') \<Rightarrow> (Some e, t, i')
           | (Inr new_nd, i') \<Rightarrow>
               (case remove_subscriber c new_nd of
                  Inl e \<Rightarrow> (Some e, t, i')
                | Inr nd' \<Rightarrow>
                    (None, t\<lparr>root := Some (update_node ls nd' rt),
                             total_subscribers := sz_sub (total_subscribers t) 1\<rparr>, i'))))"

definition subscribe ::
  "node_memory \<Rightarrow> nat \<Rightarrow> bytes \<Rightarrow> bytes \<Rightarrow> subscription_options \<Rightarrow> topic_tree \<Rightarrow> mq_err option \<times> topic_tree \<times> nat" where
  "subscribe mem i filt client options t =
     (case root t of
        None \<Rightarrow> (Some MQ_ERR_TOPIC_TREE, t, i)
      | Some rt \<Rightarrow>
          if client = [] then (Some MQ_ERR_PARAM_V2, t, i)
          else (case validate_topic_filter filt of
             Some e \<Rightarrow> (Some e, t, i)
           | None \<Rightarrow>
               (case split_topic_levels filt of
                  Inl _ \<Rightarrow> (Some MQ_ERR_PARAM_V2, t, i)
                | Inr levels \<Rightarrow>
                    if levels = [] then (Some MQ_ERR_PARAM_V2, t, i)
                    else (case create_path mem i levels rt of
                       (r, rt', n, i') \<Rightarrow>
                         let t = t\<lparr>root := Some rt', total_nodes := total_nodes t + n\<rparr> in
                         (case r of
                            Some e \<Rightarrow> (Some e, t, i')
                          | None \<Rightarrow>
                              add_subscriber_to_node mem i' levels
                                \<lparr>sub_client = client, sub_info = options\<rparr> rt' t)))))"

definition unsubscribe ::
  "node_memory \<Rightarrow> nat \<Rightarrow> bytes \<Rightarrow> bytes \<Rightarrow> topic_tree \<Rightarrow> mq_err option \<times> topic_tree \<times> nat" where
  "unsubscribe mem i filt client t =
     (case root t of
        None \<Rightarrow> (Some MQ_ERR_TOPIC_TREE, t, i)
      | Some rt \<Rightarrow>
          if filt = [] \<or> client = [] then (Some MQ_ERR_PARAM_V2, t, i)
          else (case split_topic_levels filt of
             Inl _ \<Rightarrow> (Some MQ_ERR_PARAM_V2, t, i)
           | Inr levels \<Rightarrow>
               if levels = [] then (Some MQ_ERR_PARAM_V2, t, i)
               else (case find_node levels rt of
                  None \<Rightarrow> (Some MQ_ERR_NOT_FOUND_V2, t, i)
                | Some _ \<Rightarrow> remove_subscriber_from_node mem i levels client rt t)))"


subsection \<open>Matching\<close>

text \<open>\<open>at_root\<close> is the test \<^verbatim>\<open>level_index == 0\<close>.\<close>

fun find_subscribers_recursive :: "bool \<Rightarrow> level list \<Rightarrow> tnode \<Rightarrow> subscriber list" where
  "find_subscribers_recursive at_root [] nd =
     subscribers nd @
     (case get_child multi_level_wildcard nd of None \<Rightarrow> [] | Some w \<Rightarrow> subscribers w)"
| "find_subscribers_recursive at_root (l # ls) nd =
     (case get_child l nd of None \<Rightarrow> [] | Some c \<Rightarrow> find_subscribers_recursive False ls c) @
     (if at_root \<and> system_level l then []
      else
        (case get_child single_level_wildcard nd of None \<Rightarrow> []
         | Some c \<Rightarrow> find_subscribers_recursive False ls c) @
        (case get_child multi_level_wildcard nd of None \<Rightarrow> [] | Some w \<Rightarrow> subscribers w))"

text \<open>\<^verbatim>\<open>std::unique\<close>: the first of each run of equal subscribers, equality being that of the client.\<close>

fun unique_ids :: "subscriber list \<Rightarrow> subscriber list" where
  "unique_ids [] = []"
| "unique_ids [s] = [s]"
| "unique_ids (s # s' # ss) =
     (if sub_client s = sub_client s' then unique_ids (s # ss) else s # unique_ids (s' # ss))"

text \<open>\<^verbatim>\<open>std::sort\<close> by client is \<open>srt\<close>: it is not stable, so only its order is known.\<close>

definition find_subscribers ::
  "(subscriber list \<Rightarrow> subscriber list) \<Rightarrow> bytes \<Rightarrow> topic_tree \<Rightarrow> subscriber list result" where
  "find_subscribers srt topic t =
     (case root t of
        None \<Rightarrow> Inl MQ_ERR_TOPIC_TREE
      | Some rt \<Rightarrow>
          if topic = [] then Inl MQ_ERR_PARAM_V2
          else bindE (split_topic_levels topic) (\<lambda>levels.
            Inr (unique_ids (srt (find_subscribers_recursive True levels rt)))))"


subsection \<open>The subscriptions of a client\<close>

lemma child_size: "(l, c) \<in> set cs \<Longrightarrow> size c < size (Node cs ss)"
  by (induction cs) auto

function collect_client_subscriptions :: "bytes \<Rightarrow> bytes \<Rightarrow> tnode \<Rightarrow> bytes list" where
  "collect_client_subscriptions path client (Node cs ss) =
     (if has_subscriber client (Node cs ss) then [path] else []) @
     concat (map (\<lambda>(l, c). collect_client_subscriptions (join_topic_path path l) client c) cs)"
  by pat_completeness auto
termination
  by (relation "measure (\<lambda>(_, _, nd). size nd)") (auto dest: child_size)

definition get_client_subscriptions :: "bytes \<Rightarrow> topic_tree \<Rightarrow> bytes list result" where
  "get_client_subscriptions client t =
     (case root t of
        None \<Rightarrow> Inl MQ_ERR_TOPIC_TREE
      | Some rt \<Rightarrow> Inr (collect_client_subscriptions [] client rt))"

fun unsubscribe_each ::
  "node_memory \<Rightarrow> nat \<Rightarrow> bytes \<Rightarrow> bytes list \<Rightarrow> topic_tree \<Rightarrow> nat \<times> topic_tree \<times> nat" where
  "unsubscribe_each mem i client [] t = (0, t, i)"
| "unsubscribe_each mem i client (f # fs) t =
     (case unsubscribe mem i f client t of
        (r, t', i') \<Rightarrow>
          (case unsubscribe_each mem i' client fs t' of
             (n, t'', i'') \<Rightarrow> (if r = None then n + 1 else n, t'', i'')))"

definition unsubscribe_all :: "node_memory \<Rightarrow> nat \<Rightarrow> bytes \<Rightarrow> topic_tree \<Rightarrow> nat \<times> topic_tree \<times> nat" where
  "unsubscribe_all mem i client t =
     (if client = [] then (0, t, i)
      else case get_client_subscriptions client t of
        Inl _ \<Rightarrow> (0, t, i)
      | Inr subscriptions \<Rightarrow> unsubscribe_each mem i client subscriptions t)"


subsection \<open>Removing empty nodes\<close>

fun remove_children :: "node_memory \<Rightarrow> nat \<Rightarrow> level list \<Rightarrow> tnode \<Rightarrow> mq_err option \<times> tnode \<times> nat \<times> nat" where
  "remove_children mem i [] nd = (None, nd, 0, i)"
| "remove_children mem i (l # ls) nd =
     (case clone mem i nd of
        (Inl e, i') \<Rightarrow> (Some e, nd, 0, i')
      | (Inr new_nd, i') \<Rightarrow>
          if get_child l new_nd = None then (Some MQ_ERR_NOT_FOUND_V2, nd, 0, i')
          else (case remove_children mem i' ls (remove_child l new_nd) of
             (r, nd', n, i'') \<Rightarrow> (r, nd', n + 1, i'')))"

text \<open>The code, whether to delete the node, the node, the number of nodes removed below it.\<close>

function (sequential) cleanup_node :: "node_memory \<Rightarrow> nat \<Rightarrow> tnode \<Rightarrow> mq_err option \<times> bool \<times> tnode \<times> nat \<times> nat"
  and cleanup_children ::
    "node_memory \<Rightarrow> nat \<Rightarrow> (level \<times> tnode) list \<Rightarrow>
     mq_err option \<times> (level \<times> tnode) list \<times> level list \<times> nat \<times> nat" where
  "cleanup_node mem i (Node cs ss) =
     (case cleanup_children mem i cs of
        (Some e, cs', _, n, i') \<Rightarrow> (Some e, False, Node cs' ss, n, i')
      | (None, cs', rm, n, i') \<Rightarrow>
          (case remove_children mem i' rm (Node cs' ss) of
             (Some e, nd', m, i'') \<Rightarrow> (Some e, False, nd', n + m, i'')
           | (None, nd', m, i'') \<Rightarrow>
               (None, subscribers nd' = [] \<and> children nd' = [], nd', n + m, i'')))"
| "cleanup_children mem i [] = (None, [], [], 0, i)"
| "cleanup_children mem i ((l, c) # cs) =
     (case cleanup_node mem i c of
        (Some e, _, c', n, i') \<Rightarrow> (Some e, (l, c') # cs, [], n, i')
      | (None, del, c', n, i') \<Rightarrow>
          (case cleanup_children mem i' cs of
             (r, cs', rm, m, i'') \<Rightarrow> (r, (l, c') # cs', (if del then [l] else []) @ rm, n + m, i'')))"
  by pat_completeness auto
termination
  by (relation "measure (\<lambda>x. case x of Inl (_, _, nd) \<Rightarrow> 2 * size nd | Inr (_, _, cs) \<Rightarrow> 2 * size_list (size_prod (\<lambda>_. 0) size) cs + 1)")
    auto

definition cleanup_empty_nodes :: "node_memory \<Rightarrow> nat \<Rightarrow> topic_tree \<Rightarrow> nat result \<times> topic_tree \<times> nat" where
  "cleanup_empty_nodes mem i t =
     (case root t of
        None \<Rightarrow> (Inr 0, t, i)
      | Some rt \<Rightarrow>
          (case cleanup_node mem i rt of
             (r, _, rt', n, i') \<Rightarrow>
               let t' = t\<lparr>root := Some rt', total_nodes := sz_sub (total_nodes t) n\<rparr> in
               (case r of Some e \<Rightarrow> (Inl e, t', i')
                | None \<Rightarrow> (Inr (sz_sub (total_nodes t) (total_nodes t')), t', i'))))"


subsection \<open>Maps as lists\<close>

lemma map_of_put [simp]: "map_of (put k v kvs) = (map_of kvs)(k \<mapsto> v)"
  by (induction kvs) auto

lemma fst_put: "fst ` set (put k v kvs) = insert k (fst ` set kvs)"
  by (simp flip: dom_map_of_conv_image_fst)

lemma distinct_put: "distinct (map fst kvs) \<Longrightarrow> distinct (map fst (put k v kvs))"
proof (induction kvs)
  case (Cons kv kvs)
  then show ?case by (cases kv) (auto simp: fst_put)
qed simp

lemma put_in: "(k', v') \<in> set (put k v kvs) \<Longrightarrow> (k', v') = (k, v) \<or> (k', v') \<in> set kvs"
  by (induction kvs) (auto split: if_splits)

lemma map_of_filter_key: "map_of (filter (\<lambda>(k, _). k \<noteq> l) kvs) = (map_of kvs)(l := None)"
  by (induction kvs) auto

lemma sum_put:
  "distinct (map fst kvs) \<Longrightarrow>
     sum_list (map (\<lambda>(_, v). w v) (put k v kvs)) + (case map_of kvs k of None \<Rightarrow> 0 | Some v' \<Rightarrow> w v') =
     sum_list (map (\<lambda>(_, v). w v) kvs) + (w v :: nat)"
proof (induction kvs)
  case (Cons kv kvs)
  then show ?case by (cases kv) (auto split: option.splits dest: map_of_SomeD)
qed simp


subsection \<open>Well-formed trees\<close>

text \<open>
  At most one child per level and one subscriber per client, recursively; below a multi-level
  wildcard there is nothing.
\<close>

inductive node_ok :: "tnode \<Rightarrow> bool" where
  "distinct (map fst cs) \<Longrightarrow> distinct (map sub_client ss) \<Longrightarrow>
   (\<And>l c. (l, c) \<in> set cs \<Longrightarrow> node_ok c) \<Longrightarrow>
   (\<And>c. (multi_level_wildcard, c) \<in> set cs \<Longrightarrow> children c = []) \<Longrightarrow> node_ok (Node cs ss)"

inductive_simps node_ok_Node: "node_ok (Node cs ss)"

lemma node_ok_iff:
  "node_ok nd \<longleftrightarrow> distinct (map fst (children nd)) \<and> distinct (map sub_client (subscribers nd)) \<and>
     (\<forall>l c. get_child l nd = Some c \<longrightarrow> node_ok c) \<and>
     (\<forall>c. get_child multi_level_wildcard nd = Some c \<longrightarrow> children c = [])"
proof (cases nd)
  case (Node cs ss)
  then show ?thesis
    unfolding Node node_ok_Node get_child_def by (auto simp: map_of_eq_Some_iff dest: map_of_SomeD)
qed

text \<open>The abstract state: what a client has asked for at each path.\<close>

definition info_at :: "tnode \<Rightarrow> bytes \<Rightarrow> subscription_options option" where
  "info_at nd c = map_of (map (\<lambda>s. (sub_client s, sub_info s)) (subscribers nd)) c"

definition subs_of :: "tnode \<Rightarrow> level list \<Rightarrow> bytes \<Rightarrow> subscription_options option" where
  "subs_of nd ls c = (case find_node ls nd of None \<Rightarrow> None | Some nd' \<Rightarrow> info_at nd' c)"

lemma subs_of_Nil [simp]: "subs_of nd [] c = info_at nd c"
  by (simp add: subs_of_def)

lemma subs_of_Cons: "subs_of nd (l # ls) c = (case get_child l nd of None \<Rightarrow> None | Some ch \<Rightarrow> subs_of ch ls c)"
  by (simp add: subs_of_def split: option.splits)

lemma subs_of_append: "find_node ls nd = Some x \<Longrightarrow> subs_of nd (ls @ ks) c = subs_of x ks c"
  by (induction ls arbitrary: nd) (auto simp: subs_of_Cons split: option.splits)

lemma get_child_add [simp]: "get_child l (add_child l' c nd) = (if l = l' then Some c else get_child l nd)"
  by (simp add: get_child_def add_child_def)

lemma subscribers_add_child [simp]: "subscribers (add_child l c nd) = subscribers nd"
  by (simp add: add_child_def)

lemma children_add_child [simp]: "children (add_child l c nd) = put l c (children nd)"
  by (simp add: add_child_def)

lemma info_at_add_child [simp]: "info_at (add_child l c nd) = info_at nd"
  by (simp add: info_at_def fun_eq_iff)

lemma subs_of_add_child:
  "subs_of (add_child l c nd) ls d =
     (case ls of [] \<Rightarrow> info_at nd d | l' # ls' \<Rightarrow> if l' = l then subs_of c ls' d else subs_of nd ls d)"
  by (cases ls) (simp_all add: subs_of_Cons)

lemma node_ok_add_child:
  "node_ok nd \<Longrightarrow> node_ok c \<Longrightarrow> (l = multi_level_wildcard \<Longrightarrow> children c = []) \<Longrightarrow> node_ok (add_child l c nd)"
  using node_ok_iff [of nd] node_ok_iff [of "add_child l c nd"] by (simp add: distinct_put)

lemma node_ok_child: "node_ok nd \<Longrightarrow> get_child l nd = Some c \<Longrightarrow> node_ok c"
  unfolding node_ok_iff [of nd] by blast

lemma hash_leaf: "node_ok nd \<Longrightarrow> get_child multi_level_wildcard nd = Some c \<Longrightarrow> children c = []"
  unfolding node_ok_iff [of nd] by blast

lemma empty_node_ok [simp]: "node_ok empty_node" "info_at empty_node c = None" "get_child l empty_node = None"
  by (simp_all add: empty_node_def node_ok_Node info_at_def get_child_def)

lemma subs_of_empty [simp]: "subs_of empty_node ls c = None"
  by (cases ls) (simp_all add: subs_of_Cons)


subsection \<open>Counting\<close>

function count_nodes :: "tnode \<Rightarrow> nat" where
  "count_nodes (Node cs ss) = Suc (sum_list (map (\<lambda>(_, c). count_nodes c) cs))"
  by pat_completeness auto
termination by (relation "measure size") (auto dest: child_size)

function count_subs :: "tnode \<Rightarrow> nat" where
  "count_subs (Node cs ss) = length ss + sum_list (map (\<lambda>(_, c). count_subs c) cs)"
  by pat_completeness auto
termination by (relation "measure size") (auto dest: child_size)

lemma count_nodes_alt: "count_nodes nd = Suc (sum_list (map (\<lambda>(_, c). count_nodes c) (children nd)))"
  by (cases nd) simp

lemma count_subs_alt: "count_subs nd = length (subscribers nd) + sum_list (map (\<lambda>(_, c). count_subs c) (children nd))"
  by (cases nd) simp

lemma count_add_child:
  assumes "distinct (map fst (children nd))"
  shows "count_nodes (add_child l c nd) + (case get_child l nd of None \<Rightarrow> 0 | Some c' \<Rightarrow> count_nodes c') =
      count_nodes nd + count_nodes c"
    "count_subs (add_child l c nd) + (case get_child l nd of None \<Rightarrow> 0 | Some c' \<Rightarrow> count_subs c') =
      count_subs nd + count_subs c"
  using sum_put [OF assms, of count_nodes l c] sum_put [OF assms, of count_subs l c]
  unfolding count_nodes_alt [of nd] count_nodes_alt [of "add_child l c nd"]
    count_subs_alt [of nd] count_subs_alt [of "add_child l c nd"] get_child_def
  by simp_all

lemma count_empty_node [simp]: "count_nodes empty_node = 1" "count_subs empty_node = 0"
  by (simp_all add: empty_node_def)


subsection \<open>Creating a path\<close>

definition grown :: "level list \<Rightarrow> tnode \<Rightarrow> mq_err option \<times> tnode \<times> nat \<times> nat \<Rightarrow> bool" where
  "grown ls nd x \<longleftrightarrow> (case x of (r, nd', n, i) \<Rightarrow>
     node_ok nd' \<and> (\<forall>ks c. subs_of nd' ks c = subs_of nd ks c) \<and> (r = None \<longrightarrow> find_node ls nd' \<noteq> None) \<and>
     (r \<noteq> None \<longrightarrow> r = Some MQ_ERR_TOPIC_TREE_MEMORY_ALLOC) \<and>
     count_nodes nd' = count_nodes nd + n \<and> count_subs nd' = count_subs nd \<and> (ls = [] \<longrightarrow> nd' = nd))"

lemma grown_child:
  assumes "node_ok nd" "grown ls c (r, c', n, i)" "l = multi_level_wildcard \<Longrightarrow> ls = []"
    and c: "get_child l nd = Some c \<and> m = n \<or> get_child l nd = None \<and> c = empty_node \<and> m = n + 1"
  shows "grown (l # ls) nd (r, add_child l c' nd, m, j)"
proof -
  note g = assms(2) [unfolded grown_def prod.case]
  have d: "distinct (map fst (children nd))" using assms(1) node_ok_iff by blast
  have "children c = []" if "l = multi_level_wildcard"
    using c that assms(1) hash_leaf by (auto simp: empty_node_def)
  then have ok: "node_ok (add_child l c' nd)"
    using g assms(1,3) by (intro node_ok_add_child) auto
  have subs: "subs_of (add_child l c' nd) ks d = subs_of nd ks d" for ks d
    using g c by (cases ks) (auto simp: subs_of_add_child subs_of_Cons)
  show ?thesis
    using g c ok subs count_add_child [OF d, of l c'] by (auto simp: grown_def)
qed

lemma grown_fail: "node_ok nd \<Longrightarrow> grown (l # ls) nd (Some MQ_ERR_TOPIC_TREE_MEMORY_ALLOC, nd, 0, i)"
  by (simp add: grown_def)

lemma create_path_grown:
  "node_ok nd \<Longrightarrow> filter_levels_ok ls \<Longrightarrow> grown ls nd (create_path mem i ls nd)"
proof (induction ls arbitrary: i nd)
  case Nil
  then show ?case by (simp add: grown_def)
next
  case (Cons l ls)
  have last: "l = multi_level_wildcard \<Longrightarrow> ls = []" using Cons.prems(2) by auto
  have ok: "filter_levels_ok ls" using Cons.prems(2) by simp
  show ?case
  proof (cases "get_child l nd")
    case (Some c)
    obtain r c' n j where e: "create_path mem i ls c = (r, c', n, j)" by (metis prod_cases4)
    have "node_ok c" using Cons.prems(1) Some by (rule node_ok_child)
    from Cons.IH [OF this ok, of i] e have "grown ls c (r, c', n, j)" by simp
    from grown_child [OF Cons.prems(1) this last, of l n j] Some e show ?thesis by simp
  next
    case None
    show ?thesis
    proof (cases "mem i \<and> mem (i + 1) \<and> mem (i + 2)")
      case True
      obtain r c' n j where e: "create_path mem (i + 3) ls empty_node = (r, c', n, j)" by (metis prod_cases4)
      from Cons.IH [OF empty_node_ok(1) ok, of "i + 3"] e have "grown ls empty_node (r, c', n, j)" by simp
      from grown_child [OF Cons.prems(1) this last, of l "n + 1" j] None e True show ?thesis
        by (simp add: create_initialized_node_def clone_def numeral_3_eq_3)
    qed (use None Cons.prems(1) in \<open>auto simp: create_initialized_node_def clone_def intro!: grown_fail\<close>)
  qed
qed


subsection \<open>Writing a node\<close>

lemma info_at_cong: "subscribers x = subscribers y \<Longrightarrow> info_at x = info_at y"
  by (simp add: info_at_def fun_eq_iff)

lemma get_child_cong: "children x = children y \<Longrightarrow> get_child l x = get_child l y"
  by (simp add: get_child_def)

lemma update_node:
  assumes "find_node ls nd = Some x" "node_ok nd" "node_ok x'" "children x' = children x"
  shows "node_ok (update_node ls x' nd)" "children (update_node ls x' nd) = [] \<longleftrightarrow> children nd = []"
    "subs_of (update_node ls x' nd) ks c = (if ks = ls then info_at x' c else subs_of nd ks c)"
    "count_nodes (update_node ls x' nd) = count_nodes nd"
    "count_subs (update_node ls x' nd) + length (subscribers x) = count_subs nd + length (subscribers x')"
  using assms(1,2)
proof (induction ls arbitrary: nd ks)
  case Nil
  { case 1 then show ?case using assms by simp }
  { case 2 then show ?case using assms by simp }
  { case 3 then show ?case using assms(4) by (cases ks) (simp_all add: subs_of_Cons get_child_def) }
  { case 4 then show ?case using assms(4) by (simp add: count_nodes_alt [of x'] count_nodes_alt [of x]) }
  { case 5 then show ?case using assms(4) by (simp add: count_subs_alt [of x'] count_subs_alt [of x]) }
next
  case (Cons l ls)
  have child: "\<exists>c. get_child l nd = Some c \<and> find_node ls c = Some x \<and> node_ok c \<and> distinct (map fst (children nd))"
    if "find_node (l # ls) nd = Some x" "node_ok nd" for nd
    using that node_ok_iff [of nd] by (auto split: option.splits)
  { case 1
    then obtain c where c: "get_child l nd = Some c" "find_node ls c = Some x" "node_ok c" using child by blast
    have "children (update_node ls x' c) = []" if "l = multi_level_wildcard"
      using that c 1(2) Cons.IH(2) [OF c(2,3)] hash_leaf by simp
    with c 1 Cons.IH(1) [OF c(2,3)] show ?case by (simp add: node_ok_add_child) }
  { case 2
    then obtain c where c: "get_child l nd = Some c" using child by blast
    then have "children nd \<noteq> []" by (auto simp: get_child_def)
    moreover have "put k v kvs \<noteq> []" for k v and kvs :: "(level \<times> tnode) list" by (cases "(k, v, kvs)" rule: put.cases) auto
    ultimately show ?case using c by simp }
  { case 3
    then obtain c where c: "get_child l nd = Some c" "find_node ls c = Some x" "node_ok c" using child by blast
    then show ?case using Cons.IH(3) [OF c(2,3)] by (cases ks) (auto simp: subs_of_add_child subs_of_Cons) }
  { case 4
    then obtain c where c: "get_child l nd = Some c" "find_node ls c = Some x" "node_ok c" "distinct (map fst (children nd))"
      using child by blast
    then show ?case using Cons.IH(4) [OF c(2,3)] count_add_child(1) [OF c(4), of l "update_node ls x' c"] by simp }
  { case 5
    then obtain c where c: "get_child l nd = Some c" "find_node ls c = Some x" "node_ok c" "distinct (map fst (children nd))"
      using child by blast
    then show ?case using Cons.IH(5) [OF c(2,3)] count_add_child(2) [OF c(4), of l "update_node ls x' c"] by simp }
qed


subsection \<open>Subscribing and unsubscribing\<close>

definition tree_ok :: "topic_tree \<Rightarrow> bool" where
  "tree_ok t \<longleftrightarrow> (case root t of
     None \<Rightarrow> total_subscribers t = 0 \<and> total_nodes t = 0
   | Some rt \<Rightarrow> node_ok rt \<and> total_subscribers t = count_subs rt \<and> total_nodes t = count_nodes rt)"

text \<open>The subscriptions held by a tree.\<close>

definition tree_subs :: "topic_tree \<Rightarrow> level list \<times> bytes \<Rightarrow> subscription_options option" where
  "tree_subs t p = (case root t of None \<Rightarrow> None | Some rt \<Rightarrow> subs_of rt (fst p) (snd p))"

lemma tree_subs_root: "root t = Some rt \<Longrightarrow> tree_subs t p = subs_of rt (fst p) (snd p)"
  by (simp add: tree_subs_def)

lemma tree_subs_none: "root t = None \<Longrightarrow> tree_subs t p = None"
  by (simp add: tree_subs_def)

lemma find_node_ok: "find_node ls nd = Some x \<Longrightarrow> node_ok nd \<Longrightarrow> node_ok x"
proof (induction ls arbitrary: nd)
  case (Cons l ls)
  then show ?case using node_ok_child [of nd l] by (auto split: option.splits)
qed simp

lemma filter_length: "distinct (map f xs) \<Longrightarrow>
    length (filter (\<lambda>x. f x \<noteq> k) xs) + (if k \<in> f ` set xs then 1 else 0) = length xs"
  by (induction xs) (auto simp: filter_id_conv)

lemma info_filter: "map_of (map (\<lambda>s. (sub_client s, sub_info s)) (filter (\<lambda>t. sub_client t \<noteq> c) ss)) =
    (map_of (map (\<lambda>s. (sub_client s, sub_info s)) ss))(c := None)"
  by (induction ss) auto

lemma info_has: "has_subscriber c nd \<longleftrightarrow> info_at nd c \<noteq> None"
  by (auto simp: has_subscriber_def info_at_def map_of_eq_None_iff image_image)

lemma node_ok_subs: "node_ok nd \<Longrightarrow> distinct (map sub_client ss) \<Longrightarrow> node_ok (Node (children nd) ss)"
proof (cases nd)
  case (Node cs ss')
  then show "node_ok nd \<Longrightarrow> distinct (map sub_client ss) \<Longrightarrow> ?thesis" by (simp add: node_ok_Node)
qed

lemma add_subscriber_ok:
  assumes "node_ok nd" "add_subscriber s nd = Inr nd'"
  shows "node_ok nd'" "children nd' = children nd" "info_at nd' = (info_at nd)(sub_client s \<mapsto> sub_info s)"
    "length (subscribers nd') = length (subscribers nd) + (if has_subscriber (sub_client s) nd then 0 else 1)"
proof -
  have nd': "nd' = Node (children nd) (filter (\<lambda>t. sub_client t \<noteq> sub_client s) (subscribers nd) @ [s])"
    using assms(2) by (simp add: add_subscriber_def split: if_splits)
  have d: "distinct (map sub_client (subscribers nd))" using assms(1) node_ok_iff by blast
  show "children nd' = children nd" by (simp add: nd')
  show "node_ok nd'" unfolding nd' by (rule node_ok_subs [OF assms(1)]) (auto simp: distinct_map_filter d)
  show "info_at nd' = (info_at nd)(sub_client s \<mapsto> sub_info s)"
    by (auto simp: nd' info_at_def fun_eq_iff map_add_def info_filter split: option.splits)
  show "length (subscribers nd') = length (subscribers nd) + (if has_subscriber (sub_client s) nd then 0 else 1)"
    using filter_length [OF d, of "sub_client s"] by (auto simp: nd' has_subscriber_def)
qed

lemma remove_subscriber_ok:
  assumes "node_ok nd" "remove_subscriber c nd = Inr nd'"
  shows "node_ok nd'" "children nd' = children nd" "info_at nd' = (info_at nd)(c := None)"
    "length (subscribers nd') + 1 = length (subscribers nd)"
proof -
  have nd': "nd' = Node (children nd) (filter (\<lambda>t. sub_client t \<noteq> c) (subscribers nd))"
    and has: "has_subscriber c nd"
    using assms(2) by (simp_all add: remove_subscriber_def split: if_splits)
  have d: "distinct (map sub_client (subscribers nd))" using assms(1) node_ok_iff by blast
  show "children nd' = children nd" by (simp add: nd')
  show "node_ok nd'" unfolding nd' by (rule node_ok_subs [OF assms(1)]) (auto simp: distinct_map_filter d)
  show "info_at nd' = (info_at nd)(c := None)"
    by (simp add: nd' info_at_def fun_eq_iff info_filter)
  show "length (subscribers nd') + 1 = length (subscribers nd)"
    using filter_length [OF d, of c] has by (auto simp: nd' has_subscriber_def)
qed

definition path_of :: "bytes \<Rightarrow> level list" where
  "path_of f = drop_empty_end (split_all f)"

lemma split_topic_levels_path:
  "split_topic_levels f = (if f = [] \<or> length f > 65535 then Inl MQ_ERR_TOPIC_TREE_INVALID_TOPIC else Inr (path_of f))"
  by (simp add: split_topic_levels_def split_levels path_of_def)

lemma path_of_nonempty: "f \<noteq> [] \<Longrightarrow> path_of f \<noteq> []"
  using split_loop_nonempty [of f] by (simp add: path_of_def split_levels)

text \<open>Why a subscription is refused before the tree is touched.\<close>

definition subscribe_refused :: "bytes \<Rightarrow> bytes \<Rightarrow> topic_tree \<Rightarrow> mq_err option" where
  "subscribe_refused f c t =
     (if root t = None then Some MQ_ERR_TOPIC_TREE
      else if c = [] \<or> f = [] \<or> \<not> filter_levels_ok (split_all f) \<or> length f > 65535 then Some MQ_ERR_PARAM_V2
      else None)"

lemma subscribe_unfold:
  "subscribe mem i f c opts t =
     (case subscribe_refused f c t of
        Some e \<Rightarrow> (Some e, t, i)
      | None \<Rightarrow>
          (case create_path mem i (path_of f) (the (root t)) of
             (r, rt', n, i') \<Rightarrow>
               let t = t\<lparr>root := Some rt', total_nodes := total_nodes t + n\<rparr> in
               (case r of
                  Some e \<Rightarrow> (Some e, t, i')
                | None \<Rightarrow> add_subscriber_to_node mem i' (path_of f) \<lparr>sub_client = c, sub_info = opts\<rparr> rt' t)))"
proof -
  have v: "validate_topic_filter f \<in> {None, Some MQ_ERR_PARAM_V2}" by (simp add: validate_topic_filter_def)
  show ?thesis
  proof (cases "f = [] \<or> \<not> filter_levels_ok (split_all f)")
    case True
    with v have "validate_topic_filter f = Some MQ_ERR_PARAM_V2" using validate_topic_filter_levels [of f] by auto
    with True show ?thesis by (cases "root t") (auto simp: subscribe_def subscribe_refused_def)
  next
    case False
    then have "validate_topic_filter f = None" using validate_topic_filter_levels [of f] by simp
    with False show ?thesis
      by (cases "root t"; cases "c = []"; cases "length f > 65535")
        (simp_all add: subscribe_def subscribe_refused_def split_topic_levels_path path_of_nonempty)
  qed
qed

lemma add_subscriber_to_node_ok:
  assumes "root t = Some rt" "tree_ok t" "find_node ls rt \<noteq> None" "sub_client s \<noteq> []"
    and "add_subscriber_to_node mem i ls s rt t = (r, t', i')"
  shows "tree_ok t' \<and> (if r = None then tree_subs t' = (tree_subs t)((ls, sub_client s) \<mapsto> sub_info s)
     else r = Some MQ_ERR_TOPIC_TREE_MEMORY_ALLOC \<and> t' = t)"
proof -
  obtain nd where nd: "find_node ls rt = Some nd" using assms(3) by blast
  have rt: "node_ok rt" "total_subscribers t = count_subs rt" "total_nodes t = count_nodes rt"
    using assms(1,2) by (simp_all add: tree_ok_def)
  note ok = find_node_ok [OF nd rt(1)]
  obtain nd' where nd': "add_subscriber s nd = Inr nd'" using assms(4) by (simp add: add_subscriber_def)
  note a = add_subscriber_ok [OF ok nd']
  note u = update_node [OF nd rt(1) a(1,2)]
  have abs: "tree_subs t' = (tree_subs t)((ls, sub_client s) \<mapsto> sub_info s)"
    if "root t' = Some (update_node ls nd' rt)"
    using that assms(1) nd u(3) a(3) by (auto simp: tree_subs_def fun_eq_iff subs_of_def)
  show ?thesis
  proof (cases "mem i")
    case True
    then have t': "r = None" "t' = t\<lparr>root := Some (update_node ls nd' rt),
        total_subscribers := (if has_subscriber (sub_client s) nd then total_subscribers t else total_subscribers t + 1)\<rparr>"
      using assms(5) nd nd' by (auto simp: add_subscriber_to_node_def clone_def Let_def)
    with abs u a rt show ?thesis by (simp add: tree_ok_def split: if_splits)
  next
    case False
    then have "r = Some MQ_ERR_TOPIC_TREE_MEMORY_ALLOC \<and> t' = t"
      using assms(5) nd by (auto simp: add_subscriber_to_node_def clone_def Let_def)
    with assms(2) show ?thesis by simp
  qed
qed

lemma subscribe_ok:
  assumes "tree_ok t" "subscribe mem i f c opts t = (r, t', i')"
  shows "tree_ok t' \<and>
     (case subscribe_refused f c t of
        Some e \<Rightarrow> r = Some e \<and> t' = t
      | None \<Rightarrow> if r = None then tree_subs t' = (tree_subs t)((path_of f, c) \<mapsto> opts)
                else r = Some MQ_ERR_TOPIC_TREE_MEMORY_ALLOC \<and> tree_subs t' = tree_subs t)"
proof (cases "subscribe_refused f c t")
  case None
  then obtain rt where rt: "root t = Some rt" and c: "c \<noteq> []" and f: "filter_levels_ok (path_of f)"
    by (auto simp: subscribe_refused_def path_of_def filter_levels_ok_drop split: if_splits)
  obtain q rt' n j where e: "create_path mem i (path_of f) rt = (q, rt', n, j)" by (metis prod_cases4)
  have ok: "node_ok rt" "total_subscribers t = count_subs rt" "total_nodes t = count_nodes rt"
    using assms(1) rt by (simp_all add: tree_ok_def)
  from create_path_grown [OF ok(1) f, of mem i] e have g: "grown (path_of f) rt (q, rt', n, j)" by simp
  let ?t = "t\<lparr>root := Some rt', total_nodes := total_nodes t + n\<rparr>"
  have t: "tree_ok ?t" "tree_subs ?t = tree_subs t"
    using g ok rt by (auto simp: grown_def tree_ok_def tree_subs_def fun_eq_iff)
  show ?thesis
  proof (cases q)
    case (Some x)
    with g assms(2) None rt e t show ?thesis by (auto simp: subscribe_unfold grown_def Let_def)
  next
    case q: None
    with g have "find_node (path_of f) rt' \<noteq> None" by (simp add: grown_def)
    moreover have "add_subscriber_to_node mem j (path_of f) \<lparr>sub_client = c, sub_info = opts\<rparr> rt' ?t = (r, t', i')"
      using assms(2) None rt e q by (simp add: subscribe_unfold Let_def)
    ultimately show ?thesis
      using add_subscriber_to_node_ok [of ?t rt' "path_of f" "\<lparr>sub_client = c, sub_info = opts\<rparr>" mem j r t' i'] t c None
      by (auto split: if_splits)
  qed
next
  case (Some e)
  then have "r = Some e" "t' = t" using assms(2) by (simp_all add: subscribe_unfold)
  with Some assms(1) show ?thesis by simp
qed

definition unsubscribe_refused :: "bytes \<Rightarrow> bytes \<Rightarrow> topic_tree \<Rightarrow> mq_err option" where
  "unsubscribe_refused f c t =
     (if root t = None then Some MQ_ERR_TOPIC_TREE
      else if f = [] \<or> c = [] \<or> length f > 65535 then Some MQ_ERR_PARAM_V2
      else if tree_subs t (path_of f, c) = None then Some MQ_ERR_NOT_FOUND_V2
      else None)"

lemma unsubscribe_ok:
  assumes "tree_ok t" "unsubscribe mem i f c t = (r, t', i')"
  shows "tree_ok t' \<and>
     (case unsubscribe_refused f c t of
        Some e \<Rightarrow> r = Some e \<and> t' = t
      | None \<Rightarrow> if mem i then r = None \<and> tree_subs t' = (tree_subs t)((path_of f, c) := None)
                else r = Some MQ_ERR_TOPIC_TREE_MEMORY_ALLOC \<and> t' = t)"
proof (cases "root t = None \<or> f = [] \<or> c = [] \<or> length f > 65535")
  case True
  then have "unsubscribe mem i f c t = (unsubscribe_refused f c t, t, i) \<and> unsubscribe_refused f c t \<noteq> None"
    by (cases "root t") (auto simp: unsubscribe_def unsubscribe_refused_def split_topic_levels_path)
  then have "unsubscribe_refused f c t = r" "t' = t" "r \<noteq> None" using assms(2) by simp_all
  then show ?thesis using assms(1) by (cases r) simp_all
next
  case False
  then obtain rt where rt: "root t = Some rt" by (cases "root t") auto
  have ok: "node_ok rt" "total_subscribers t = count_subs rt" "total_nodes t = count_nodes rt"
    using assms(1) rt by (simp_all add: tree_ok_def)
  have u: "unsubscribe mem i f c t =
      (if find_node (path_of f) rt = None then (Some MQ_ERR_NOT_FOUND_V2, t, i)
       else remove_subscriber_from_node mem i (path_of f) c rt t)"
    using False rt by (simp add: unsubscribe_def split_topic_levels_path path_of_nonempty split: option.splits)
  have q: "unsubscribe_refused f c t = (if tree_subs t (path_of f, c) = None then Some MQ_ERR_NOT_FOUND_V2 else None)"
    using False rt by (simp add: unsubscribe_refused_def)
  show ?thesis
  proof (cases "tree_subs t (path_of f, c)")
    case None
    then have "unsubscribe mem i f c t = (Some MQ_ERR_NOT_FOUND_V2, t, i)"
      unfolding u using rt
      by (cases "find_node (path_of f) rt")
        (simp_all add: tree_subs_def subs_of_def info_has remove_subscriber_from_node_def)
    with assms(2) have "r = Some MQ_ERR_NOT_FOUND_V2" "t' = t" by simp_all
    with q None assms(1) show ?thesis by simp
  next
    case (Some info)
    then obtain nd where nd: "find_node (path_of f) rt = Some nd" and has: "has_subscriber c nd"
      using rt by (auto simp: tree_subs_def subs_of_def info_has split: option.splits)
    note nok = find_node_ok [OF nd ok(1)]
    obtain nd' where nd': "remove_subscriber c nd = Inr nd'" using has False by (simp add: remove_subscriber_def)
    note a = remove_subscriber_ok [OF nok nd']
    note up = update_node [OF nd ok(1) a(1,2)]
    have pos: "count_subs rt \<ge> 1" using up(5) a(4) by simp
    have s: "subs_of (update_node (path_of f) nd' rt) ks d = (if (ks, d) = (path_of f, c) then None else subs_of rt ks d)" for ks d
    proof (cases "ks = path_of f")
      case True
      have "subs_of rt ks d = info_at nd d" by (simp add: True nd subs_of_def)
      with True show ?thesis by (simp add: up(3) a(3))
    qed (simp add: up(3))
    have e: "unsubscribe mem i f c t = (if mem i then (None, t\<lparr>root := Some (update_node (path_of f) nd' rt),
        total_subscribers := sz_sub (total_subscribers t) 1\<rparr>, i + 1) else (Some MQ_ERR_TOPIC_TREE_MEMORY_ALLOC, t, i + 1))"
      unfolding u by (simp add: nd has nd' remove_subscriber_from_node_def clone_def)
    show ?thesis
    proof (cases "mem i")
      case True
      with e assms(2) have "(None, t\<lparr>root := Some (update_node (path_of f) nd' rt),
        total_subscribers := sz_sub (total_subscribers t) 1\<rparr>, i + 1) = (r, t', i')" by simp
      then have t': "r = None" "t' = t\<lparr>root := Some (update_node (path_of f) nd' rt),
        total_subscribers := sz_sub (total_subscribers t) 1\<rparr>" by simp_all
      have "tree_ok t'" using up(1,4,5) a(4) ok pos by (simp add: t' tree_ok_def)
      moreover have "tree_subs t' = (tree_subs t)((path_of f, c) := None)"
        by (rule ext) (simp add: t' tree_subs_def rt s prod_eq_iff)
      ultimately show ?thesis using q Some True t'(1) by simp
    next
      case False
      with e assms(2) have "r = Some MQ_ERR_TOPIC_TREE_MEMORY_ALLOC" "t' = t" by simp_all
      with q Some False assms(1) show ?thesis by simp
    qed
  qed
qed


subsection \<open>Matching a topic\<close>

definition matches_from :: "bool \<Rightarrow> level list \<Rightarrow> level list \<Rightarrow> bool" where
  "matches_from at_root fs ts \<longleftrightarrow> (if at_root then topic_matches fs ts else matches fs ts)"

lemma info_at_subscriber:
  "node_ok nd \<Longrightarrow> s \<in> set (subscribers nd) \<longleftrightarrow> info_at nd (sub_client s) = Some (sub_info s)"
proof -
  assume "node_ok nd"
  then have d: "distinct (map fst (map (\<lambda>s. (sub_client s, sub_info s)) (subscribers nd)))"
    using node_ok_iff [of nd] by (simp add: comp_def)
  have "x = s" if "sub_client s = sub_client x" "sub_info s = sub_info x" for x
    using that by simp
  then have "s \<in> set (subscribers nd) \<longleftrightarrow> (sub_client s, sub_info s) \<in> (\<lambda>s. (sub_client s, sub_info s)) ` set (subscribers nd)"
    unfolding image_iff by blast
  then show ?thesis by (simp add: info_at_def map_of_eq_Some_iff [OF d])
qed

lemma matches_Nil: "matches fs [] \<longleftrightarrow> fs = [] \<or> fs = [multi_level_wildcard]"
  by (cases fs) auto

lemma hash_subscribers:
  assumes "node_ok nd"
  shows "(case get_child multi_level_wildcard nd of None \<Rightarrow> False | Some w \<Rightarrow> s \<in> set (subscribers w)) \<longleftrightarrow>
      subs_of nd [multi_level_wildcard] (sub_client s) = Some (sub_info s)"
proof (cases "get_child multi_level_wildcard nd")
  case (Some w)
  then show ?thesis using info_at_subscriber [OF node_ok_child [OF assms Some], of s] by (simp add: subs_of_Cons)
qed (simp add: subs_of_Cons)

lemma matches_Cons:
  "matches fs (t # ts) \<longleftrightarrow> fs = [multi_level_wildcard] \<or>
     (\<exists>gs. (fs = single_level_wildcard # gs \<or> fs = t # gs) \<and> matches gs ts)"
  by (cases fs) auto

lemma topic_matches_Cons:
  "topic_matches fs (t # ts) \<longleftrightarrow> (if system_level t
     then \<exists>gs. fs = t # gs \<and> matches gs ts else matches fs (t # ts))"
  by (auto simp: topic_matches_def matches_Cons system_level_def)

lemma matches_from_Cons:
  "matches_from at_root fs (t # ts) \<longleftrightarrow> (\<exists>gs. fs = t # gs \<and> matches gs ts) \<or>
     \<not> (at_root \<and> system_level t) \<and> ((\<exists>gs. fs = single_level_wildcard # gs \<and> matches gs ts) \<or> fs = [multi_level_wildcard])"
  unfolding matches_from_def topic_matches_Cons matches_Cons by (cases at_root; cases "system_level t"; simp; blast)

text \<open>The subscriptions found below a node are those whose path from it matches.\<close>

lemma find_subscribers_recursive_iff:
  "node_ok nd \<Longrightarrow> s \<in> set (find_subscribers_recursive at_root ts nd) \<longleftrightarrow>
     (\<exists>fs. matches_from at_root fs ts \<and> subs_of nd fs (sub_client s) = Some (sub_info s))"
proof (induction ts arbitrary: at_root nd)
  case Nil
  have m: "matches_from at_root fs [] \<longleftrightarrow> fs = [] \<or> fs = [multi_level_wildcard]" for fs
    by (simp add: matches_from_def topic_matches_def matches_Nil)
  have "s \<in> set (find_subscribers_recursive at_root [] nd) \<longleftrightarrow> s \<in> set (subscribers nd) \<or>
      (case get_child multi_level_wildcard nd of None \<Rightarrow> False | Some w \<Rightarrow> s \<in> set (subscribers w))"
    by (cases "get_child multi_level_wildcard nd") simp_all
  also have "\<dots> \<longleftrightarrow> subs_of nd [] (sub_client s) = Some (sub_info s) \<or>
      subs_of nd [multi_level_wildcard] (sub_client s) = Some (sub_info s)"
    unfolding hash_subscribers [OF Nil] info_at_subscriber [OF Nil] subs_of_Nil ..
  finally show ?case unfolding m by blast
next
  case (Cons t ts)
  let ?has = "\<lambda>fs. subs_of nd fs (sub_client s) = Some (sub_info s)"
  have child: "(case get_child l nd of None \<Rightarrow> False
      | Some c \<Rightarrow> s \<in> set (find_subscribers_recursive False ts c)) \<longleftrightarrow> (\<exists>fs. matches fs ts \<and> ?has (l # fs))" for l
  proof (cases "get_child l nd")
    case (Some c)
    show ?thesis using Cons.IH [OF node_ok_child [OF Cons.prems Some], of False]
      by (simp add: Some subs_of_Cons matches_from_def)
  qed (simp add: subs_of_Cons)
  have hash: "(case get_child multi_level_wildcard nd of None \<Rightarrow> False | Some w \<Rightarrow> s \<in> set (subscribers w)) \<longleftrightarrow>
      ?has [multi_level_wildcard]"
    by (rule hash_subscribers [OF Cons.prems])
  have "s \<in> set (find_subscribers_recursive at_root (t # ts) nd) \<longleftrightarrow>
      (case get_child t nd of None \<Rightarrow> False | Some c \<Rightarrow> s \<in> set (find_subscribers_recursive False ts c)) \<or>
      \<not> (at_root \<and> system_level t) \<and>
        ((case get_child single_level_wildcard nd of None \<Rightarrow> False
          | Some c \<Rightarrow> s \<in> set (find_subscribers_recursive False ts c)) \<or>
         (case get_child multi_level_wildcard nd of None \<Rightarrow> False | Some w \<Rightarrow> s \<in> set (subscribers w)))"
    by (simp add: option.case_distrib [of set] option.case_distrib [of "(\<in>) s"] cong: option.case_cong)
  also have "\<dots> \<longleftrightarrow>
      (\<exists>fs. matches fs ts \<and> ?has (t # fs)) \<or>
      \<not> (at_root \<and> system_level t) \<and>
        ((\<exists>fs. matches fs ts \<and> ?has (single_level_wildcard # fs)) \<or> ?has [multi_level_wildcard])"
    unfolding child hash ..
  also have "\<dots> \<longleftrightarrow> (\<exists>fs. matches_from at_root fs (t # ts) \<and> ?has fs)"
    unfolding matches_from_Cons by blast
  finally show ?case .
qed


subsection \<open>One entry for each client\<close>

text \<open>What \<^verbatim>\<open>std::sort\<close> with the comparison of the client ids promises.\<close>

locale client_sort =
  fixes srt :: "subscriber list \<Rightarrow> subscriber list"
  assumes permutes: "mset (srt ss) = mset ss"
    and ordered: "sorted (map sub_client (srt ss))"
begin

lemma set_srt: "set (srt ss) = set ss"
  using permutes [of ss] by (metis set_mset_mset)

end

interpretation key_sort: client_sort "sort_key sub_client"
  by unfold_locales simp_all

lemma unique_ids_subset: "set (unique_ids ss) \<subseteq> set ss"
  by (induction ss rule: unique_ids.induct) auto

lemma unique_ids_clients: "sub_client ` set (unique_ids ss) = sub_client ` set ss"
  by (induction ss rule: unique_ids.induct) auto

lemma unique_ids_sorted:
  "sorted (map sub_client ss) \<Longrightarrow> sorted (map sub_client (unique_ids ss)) \<and> distinct (map sub_client (unique_ids ss))"
proof (induction ss rule: unique_ids.induct)
  case (3 s s' ss)
  show ?case
  proof (cases "sub_client s = sub_client s'")
    case False
    have "sub_client s \<notin> sub_client ` set (unique_ids (s' # ss))"
      using 3(3) False unfolding unique_ids_clients by auto
    moreover have "\<forall>x\<in>set (unique_ids (s' # ss)). sub_client s \<le> sub_client x"
      using 3(3) False unique_ids_subset [of "s' # ss"] by auto
    ultimately show ?thesis using 3 False by simp
  qed (use 3 in auto)
qed simp_all

context client_sort
begin

lemma find_subscribers_ok:
  assumes "tree_ok t" "find_subscribers srt topic t = Inr ss"
  shows "sorted (map sub_client ss) \<and> distinct (map sub_client ss) \<and>
     sub_client ` set ss = {c. \<exists>fs. topic_matches fs (path_of topic) \<and> tree_subs t (fs, c) \<noteq> None} \<and>
     (\<forall>s\<in>set ss. \<exists>fs. topic_matches fs (path_of topic) \<and> tree_subs t (fs, sub_client s) = Some (sub_info s))"
proof -
  obtain rt where rt: "root t = Some rt" and
    ss: "ss = unique_ids (srt (find_subscribers_recursive True (path_of topic) rt))"
    using assms(2) by (auto simp: find_subscribers_def split_topic_levels_path bindE_def split: option.splits if_splits)
  have ok: "node_ok rt" using assms(1) rt by (simp add: tree_ok_def)
  let ?found = "find_subscribers_recursive True (path_of topic) rt"
  have f: "s \<in> set ?found \<longleftrightarrow> (\<exists>fs. topic_matches fs (path_of topic) \<and> tree_subs t (fs, sub_client s) = Some (sub_info s))" for s
    using find_subscribers_recursive_iff [OF ok] rt by (simp add: matches_from_def tree_subs_def)
  have "sub_client ` set ss = sub_client ` set ?found" by (simp add: ss unique_ids_clients set_srt)
  also have "\<dots> = {c. \<exists>fs. topic_matches fs (path_of topic) \<and> tree_subs t (fs, c) \<noteq> None}"
  proof (intro equalityI subsetI)
    fix c assume "c \<in> {c. \<exists>fs. topic_matches fs (path_of topic) \<and> tree_subs t (fs, c) \<noteq> None}"
    then obtain fs x where "topic_matches fs (path_of topic)" "tree_subs t (fs, c) = Some x" by blast
    then have "\<lparr>sub_client = c, sub_info = x\<rparr> \<in> set ?found" unfolding f by auto
    then show "c \<in> sub_client ` set ?found" by force
  next
    fix c assume "c \<in> sub_client ` set ?found"
    then obtain s where s: "c = sub_client s" "s \<in> set ?found" by blast
    from s(2) obtain fs where "topic_matches fs (path_of topic)" "tree_subs t (fs, c) = Some (sub_info s)"
      unfolding f s(1) by blast
    then show "c \<in> {c. \<exists>fs. topic_matches fs (path_of topic) \<and> tree_subs t (fs, c) \<noteq> None}" by auto
  qed
  finally have clients: "sub_client ` set ss = \<dots>" .
  have "s \<in> set ?found" if "s \<in> set ss" for s
    using that unique_ids_subset [of "srt ?found"] unfolding ss set_srt by blast
  with clients show ?thesis
    using unique_ids_sorted [OF ordered [of ?found]] by (simp add: f flip: ss)
qed

end



subsection \<open>The subscriptions of a client are dropped\<close>

lemma collect_client_subscriptions_set:
  "node_ok nd \<Longrightarrow> set (collect_client_subscriptions path c nd) =
     {foldl join_topic_path path ls |ls. subs_of nd ls c \<noteq> None}"
proof (induction path c nd rule: collect_client_subscriptions.induct)
  case (1 path c cs ss)
  have d: "distinct (map fst cs)" and ok: "\<And>l ch. (l, ch) \<in> set cs \<Longrightarrow> node_ok ch"
    using 1(2) by (simp_all add: node_ok_Node)
  have in_cs: "subs_of (Node cs ss) (l # ls) c \<noteq> None \<longleftrightarrow> (\<exists>ch. (l, ch) \<in> set cs \<and> subs_of ch ls c \<noteq> None)" for l ls
    by (simp add: subs_of_Cons get_child_def split: option.split flip: map_of_eq_Some_iff [OF d])
  have "set (concat (map (\<lambda>(l, ch). collect_client_subscriptions (join_topic_path path l) c ch) cs)) =
      {foldl join_topic_path path (l # ls) |l ls. subs_of (Node cs ss) (l # ls) c \<noteq> None}" (is "?l = ?r")
  proof (intro equalityI subsetI)
    fix p assume "p \<in> ?l"
    then obtain l ch where i: "(l, ch) \<in> set cs" "p \<in> set (collect_client_subscriptions (join_topic_path path l) c ch)"
      by auto
    from 1(1) [OF i(1) refl ok [OF i(1)]] i(2) obtain ls where
      "p = foldl join_topic_path (join_topic_path path l) ls" "subs_of ch ls c \<noteq> None" by blast
    with i(1) in_cs show "p \<in> ?r" by fastforce
  next
    fix p assume "p \<in> ?r"
    then obtain l ls ch where i: "p = foldl join_topic_path path (l # ls)" "(l, ch) \<in> set cs" "subs_of ch ls c \<noteq> None"
      using in_cs by blast
    from 1(1) [OF i(2) refl ok [OF i(2)]] i(1,3)
    have "p \<in> set (collect_client_subscriptions (join_topic_path path l) c ch)" by auto
    with i(2) show "p \<in> ?l" by force
  qed
  moreover have "{foldl join_topic_path path ls |ls. subs_of (Node cs ss) ls c \<noteq> None} =
      {path |x. info_at (Node cs ss) c \<noteq> None} \<union> {foldl join_topic_path path (l # ls) |l ls. subs_of (Node cs ss) (l # ls) c \<noteq> None}"
    (is "?A = ?B \<union> ?C")
  proof -
    have "P \<in> ?A \<longleftrightarrow> P \<in> ?B \<union> ?C" for P
    proof -
      have "(\<exists>ls. P = foldl join_topic_path path ls \<and> subs_of (Node cs ss) ls c \<noteq> None) \<longleftrightarrow>
          (P = path \<and> info_at (Node cs ss) c \<noteq> None) \<or>
          (\<exists>l ls. P = foldl join_topic_path path (l # ls) \<and> subs_of (Node cs ss) (l # ls) c \<noteq> None)"
        by (metis foldl_Nil list.exhaust subs_of_Nil)
      then show ?thesis by simp
    qed
    then show ?thesis by blast
  qed
  ultimately show ?case by (simp add: info_has)
qed

lemma unsubscribe_each_ok:
  "tree_ok t \<Longrightarrow> \<forall>i. mem i \<Longrightarrow> c \<noteq> [] \<Longrightarrow> unsubscribe_each mem i c fs t = (n, t', i') \<Longrightarrow>
     tree_ok t' \<and> (\<forall>ls d. tree_subs t' (ls, d) =
       (if d = c \<and> (\<exists>f\<in>set fs. f \<noteq> [] \<and> length f \<le> 65535 \<and> path_of f = ls) then None else tree_subs t (ls, d)))"
proof (induction fs arbitrary: i t n)
  case (Cons f fs)
  obtain r t1 i1 where u: "unsubscribe mem i f c t = (r, t1, i1)" by (metis prod_cases3)
  obtain m where e: "unsubscribe_each mem i1 c fs t1 = (m, t', i')"
    using Cons.prems(4) u by (auto split: prod.splits)
  note ok = unsubscribe_ok [OF Cons.prems(1) u]
  have t1: "tree_ok t1" using ok by simp
  have "tree_subs t1 (ls, d) = (if d = c \<and> f \<noteq> [] \<and> length f \<le> 65535 \<and> path_of f = ls then None else tree_subs t (ls, d))" for ls d
    using ok Cons.prems(2,3)
    by (auto simp: unsubscribe_refused_def tree_subs_none split: if_splits)
  with Cons.IH [OF t1 Cons.prems(2,3) e] show ?case by auto
qed simp

lemma unsubscribe_each_tree_ok:
  "tree_ok t \<Longrightarrow> unsubscribe_each mem i c fs t = (n, t', i') \<Longrightarrow> tree_ok t'"
proof (induction fs arbitrary: i t n)
  case (Cons f fs)
  obtain r t1 i1 where u: "unsubscribe mem i f c t = (r, t1, i1)" by (metis prod_cases3)
  then obtain m where "unsubscribe_each mem i1 c fs t1 = (m, t', i')"
    using Cons.prems(2) by (auto split: prod.splits)
  then show ?case using Cons.IH unsubscribe_ok [OF Cons.prems(1) u] by blast
qed simp


lemma join_split_all: "split_all f = l # ls \<Longrightarrow> l @ concat (map ((#) slash) ls) = f"
proof (induction f arbitrary: l ls)
  case (Cons c cs)
  obtain m ms where m: "split_all cs = m # ms" by (rule split_all_Cons)
  show ?case using Cons.prems Cons.IH [OF m] by (auto simp: m split: if_splits)
qed simp

lemma last_split_all: "last (split_all f) = [] \<longleftrightarrow> f = [] \<or> last f = slash"
proof (induction f)
  case (Cons c cs)
  obtain m ms where m: "split_all cs = m # ms" by (rule split_all_Cons)
  moreover have "cs = [] \<longleftrightarrow> m = [] \<and> ms = []" using m by (cases cs) (auto split: list.splits if_splits)
  ultimately show ?case using Cons.IH by auto
qed simp

lemma split_all_snoc: "split_all (f @ [slash]) = split_all f @ [[]]"
proof (induction f)
  case (Cons c cs)
  obtain m ms where "split_all cs = m # ms" by (rule split_all_Cons)
  with Cons show ?case by auto
qed simp

text \<open>A filter whose path survives joining: no separator at the start, not two at the end.\<close>

definition plain_filter :: "bytes \<Rightarrow> bool" where
  "plain_filter f \<longleftrightarrow> f \<noteq> [] \<and> hd f \<noteq> slash \<and> \<not> (last f = slash \<and> last (butlast f) = slash)"

lemma hd_split_all: "hd (split_all f) = [] \<longleftrightarrow> f = [] \<or> hd f = slash"
  by (cases f) (auto split: list.splits)

lemma path_of_cases:
  "f \<noteq> [] \<Longrightarrow> path_of f = (if last f = slash then split_all (butlast f) else split_all f)"
proof (cases f rule: rev_cases)
  case (snoc g c)
  then show ?thesis
    using last_split_all [of f] by (cases "c = slash") (simp_all add: path_of_def drop_empty_end_def split_all_snoc)
qed simp

lemma plain_filter_path:
  assumes "plain_filter f"
  shows "plain_path (path_of f)" "length (join_levels (path_of f)) \<le> length f"
proof -
  define g where "g = (if last f = slash then butlast f else f)"
  have f: "f \<noteq> []" "hd f \<noteq> slash" using assms by (simp_all add: plain_filter_def)
  have p: "path_of f = split_all g" using path_of_cases [OF f(1)] by (simp add: g_def)
  have ne: "g \<noteq> []" using f by (cases f rule: rev_cases) (auto simp: g_def)
  then have hd: "hd g \<noteq> slash" using f by (cases f rule: rev_cases) (auto simp: g_def hd_append)
  have last: "last g \<noteq> slash" using assms ne by (auto simp: g_def plain_filter_def)
  show "plain_path (path_of f)"
    using ne hd last split_all_no_slash [of _ g] by (auto simp: p plain_path_def hd_split_all last_split_all)
  obtain l ls where l: "split_all g = l # ls" by (rule split_all_Cons)
  with hd_split_all [of g] ne hd have "l \<noteq> []" by simp
  then have "join_levels (path_of f) = g"
    using join_split_all [OF l] by (simp add: p l join_levels_def join_topic_path_def foldl_join)
  then show "length (join_levels (path_of f)) \<le> length f" by (simp add: g_def)
qed

lemma unsubscribe_all_ok:
  assumes "tree_ok t" "\<forall>i. mem i" "c \<noteq> []" "unsubscribe_all mem i c t = (n, t', i')"
  shows "tree_ok t'" "d \<noteq> c \<Longrightarrow> tree_subs t' (ls, d) = tree_subs t (ls, d)"
    "tree_subs t' (ls, c) \<in> {None, tree_subs t (ls, c)}"
    "plain_filter f \<Longrightarrow> length f \<le> 65535 \<Longrightarrow> tree_subs t' (path_of f, c) = None"
proof -
  have "tree_ok t' \<and> (d \<noteq> c \<longrightarrow> tree_subs t' (ls, d) = tree_subs t (ls, d)) \<and>
    tree_subs t' (ls, c) \<in> {None, tree_subs t (ls, c)} \<and>
    (plain_filter f \<and> length f \<le> 65535 \<longrightarrow> tree_subs t' (path_of f, c) = None)"
  proof (cases "root t")
    case None
    then have "t' = t" using assms(3,4) by (simp add: unsubscribe_all_def get_client_subscriptions_def)
    with assms(1) None show ?thesis by (simp add: tree_subs_none)
  next
    case (Some rt)
    have ok: "node_ok rt" using assms(1) Some by (simp add: tree_ok_def)
    let ?fs = "collect_client_subscriptions [] c rt"
    have e: "unsubscribe_each mem i c ?fs t = (n, t', i')"
      using assms(3,4) Some by (simp add: unsubscribe_all_def get_client_subscriptions_def)
    note u = unsubscribe_each_ok [OF assms(1-3) e]
    have "tree_subs t' (path_of f, c) = None" if f: "plain_filter f" "length f \<le> 65535"
    proof (cases "tree_subs t (path_of f, c)")
      case (Some x)
      note p = plain_filter_path [OF f(1)]
      let ?g = "join_levels (path_of f)"
      have "?g \<in> set ?fs"
        using Some tree_subs_root [OF \<open>root t = Some rt\<close>] unfolding collect_client_subscriptions_set [OF ok]
        by (auto simp: join_levels_def)
      moreover have "?g \<noteq> []" using p(1) length_join_levels by (simp add: plain_path_def)
      moreover have "path_of ?g = path_of f" using split_join [OF p(1)] by (simp add: path_of_def split_levels)
      moreover have "length ?g \<le> 65535" using p(2) f(2) by simp
      ultimately have "\<exists>g\<in>set ?fs. g \<noteq> [] \<and> length g \<le> 65535 \<and> path_of g = path_of f" by blast
      with u show ?thesis by simp
    qed (use u in simp)
    with u show ?thesis by simp
  qed
  then show "tree_ok t'" "d \<noteq> c \<Longrightarrow> tree_subs t' (ls, d) = tree_subs t (ls, d)"
    "tree_subs t' (ls, c) \<in> {None, tree_subs t (ls, c)}"
    "plain_filter f \<Longrightarrow> length f \<le> 65535 \<Longrightarrow> tree_subs t' (path_of f, c) = None" by blast+
qed


subsection \<open>Empty nodes are removed\<close>

text \<open>\<open>nd'\<close> has the subscriptions of \<open>nd\<close> and \<open>n\<close> nodes less.\<close>

definition trimmed :: "tnode \<Rightarrow> tnode \<Rightarrow> nat \<Rightarrow> bool" where
  "trimmed nd nd' n \<longleftrightarrow> node_ok nd' \<and> (\<forall>ls c. subs_of nd' ls c = subs_of nd ls c) \<and>
     count_subs nd' = count_subs nd \<and> count_nodes nd' + n = count_nodes nd \<and> (children nd = [] \<longrightarrow> children nd' = [])"

lemma trimmed_refl: "node_ok nd \<Longrightarrow> trimmed nd nd 0"
  by (simp add: trimmed_def)

lemma trimmed_trans: "trimmed a b m \<Longrightarrow> trimmed b c n \<Longrightarrow> trimmed a c (m + n)"
  by (simp add: trimmed_def)

lemma node_ok_Cons:
  "node_ok (Node ((l, c) # cs) ss) \<longleftrightarrow> l \<notin> fst ` set cs \<and> node_ok c \<and> (l = multi_level_wildcard \<longrightarrow> children c = []) \<and> node_ok (Node cs ss)"
  unfolding node_ok_Node by (auto simp: image_iff)

lemma trimmed_Cons:
  assumes "node_ok (Node ((l, c) # cs) ss)" "trimmed c c' n" "trimmed (Node cs ss) (Node cs' ss) m" "map fst cs' = map fst cs"
  shows "trimmed (Node ((l, c) # cs) ss) (Node ((l, c') # cs') ss) (n + m)"
proof -
  have "fst ` set cs' = fst ` set cs" using assms(4) by (metis list.set_map)
  then have ok: "node_ok (Node ((l, c') # cs') ss)"
    using assms(1-3) unfolding node_ok_Cons by (simp add: trimmed_def)
  have "subs_of (Node ((l, c') # cs') ss) ks d = subs_of (Node ((l, c) # cs) ss) ks d" for ks d
  proof (cases ks)
    case Nil
    then show ?thesis by (simp add: info_at_def)
  next
    case (Cons k ks')
    have "subs_of (Node cs' ss) (k # ks') d = subs_of (Node cs ss) (k # ks') d" using assms(3) by (simp add: trimmed_def)
    then show ?thesis using assms(2) Cons by (auto simp: subs_of_Cons get_child_def trimmed_def)
  qed
  with ok assms(2,3) show ?thesis by (simp add: trimmed_def)
qed

lemma sum_filter_key:
  "distinct (map fst kvs) \<Longrightarrow> map_of kvs l = Some v \<Longrightarrow>
     sum_list (map (\<lambda>(_, v). w v) (filter (\<lambda>(k, _). k \<noteq> l) kvs)) + (w v :: nat) = sum_list (map (\<lambda>(_, v). w v) kvs)"
proof (induction kvs)
  case (Cons kv kvs)
  obtain k u where kv: "kv = (k, u)" by (cases kv)
  show ?case
  proof (cases "k = l")
    case True
    then have "filter (\<lambda>(k, _). k \<noteq> l) kvs = kvs" using Cons.prems by (auto simp: kv filter_id_conv image_iff)
    with True Cons.prems show ?thesis by (simp add: kv)
  qed (use Cons in \<open>simp add: kv\<close>)
qed simp

lemma trimmed_remove_child:
  assumes "node_ok nd" "get_child l nd = Some (Node [] [])"
  shows "trimmed nd (remove_child l nd) 1"
proof (cases nd)
  case (Node cs ss)
  have d: "distinct (map fst cs)" and m: "map_of cs l = Some (Node [] [])"
    using assms by (simp_all add: Node node_ok_Node get_child_def)
  have "subs_of (remove_child l nd) ks c = subs_of nd ks c" for ks c
    using m subs_of_empty [unfolded empty_node_def]
    by (cases ks) (auto simp: Node remove_child_def subs_of_Cons get_child_def map_of_filter_key info_at_def)
  moreover have "node_ok (remove_child l nd)"
    using assms(1) d by (auto simp: Node remove_child_def node_ok_Node distinct_map_filter)
  ultimately show ?thesis
    using sum_filter_key [OF d m, of count_nodes] sum_filter_key [OF d m, of count_subs]
    by (simp add: trimmed_def Node remove_child_def)
qed


lemma remove_children_ok:
  "node_ok nd \<Longrightarrow> distinct ls \<Longrightarrow> \<forall>l\<in>set ls. get_child l nd = Some (Node [] []) \<Longrightarrow>
   remove_children mem i ls nd = (r, nd', n, i') \<Longrightarrow>
     trimmed nd nd' n \<and> (if r = None then children nd' = filter (\<lambda>(k, _). k \<notin> set ls) (children nd)
       else r = Some MQ_ERR_TOPIC_TREE_MEMORY_ALLOC)"
proof (induction ls arbitrary: i nd n)
  case Nil
  then show ?case by (auto simp: trimmed_refl)
next
  case (Cons l ls)
  show ?case
  proof (cases "mem i")
    case False
    then show ?thesis using Cons.prems by (auto simp: clone_def trimmed_refl)
  next
    case True
    have l: "get_child l nd = Some (Node [] [])" using Cons.prems(3) by simp
    let ?nd = "remove_child l nd"
    note t = trimmed_remove_child [OF Cons.prems(1) l]
    obtain m where e: "remove_children mem (i + 1) ls ?nd = (r, nd', m, i')" and n: "n = m + 1"
      using Cons.prems(4) True l by (auto simp: clone_def split: prod.splits)
    have "\<forall>k\<in>set ls. get_child k ?nd = Some (Node [] [])"
      using Cons.prems(2,3) by (auto simp: remove_child_def get_child_def map_of_filter_key)
    with t Cons.prems(2) Cons.IH [OF _ _ _ e]
    have "trimmed ?nd nd' m \<and> (if r = None then children nd' = filter (\<lambda>(k, _). k \<notin> set ls) (children ?nd)
       else r = Some MQ_ERR_TOPIC_TREE_MEMORY_ALLOC)" by (simp add: trimmed_def)
    moreover have "filter (\<lambda>(k, _). k \<notin> set ls) (children ?nd) = filter (\<lambda>(k, _). k \<notin> set (l # ls)) (children nd)"
      by (auto simp: remove_child_def intro!: filter_cong)
    ultimately show ?thesis using trimmed_trans [OF t, of nd' m] n by auto
  qed
qed

text \<open>Below the root no node is left without children and subscribers.\<close>

inductive pruned :: "tnode \<Rightarrow> bool" where
  "(\<And>l c. (l, c) \<in> set cs \<Longrightarrow> pruned c) \<Longrightarrow> (\<And>l c. (l, c) \<in> set cs \<Longrightarrow> c \<noteq> Node [] []) \<Longrightarrow> pruned (Node cs ss)"

inductive_simps pruned_Node: "pruned (Node cs ss)"

lemma pruned_used:
  "pruned nd \<Longrightarrow> node_ok nd \<Longrightarrow> nd \<noteq> Node [] [] \<Longrightarrow> \<exists>ks c. subs_of nd ks c \<noteq> None"
proof (induction rule: pruned.induct)
  case (1 cs ss)
  show ?case
  proof (cases ss)
    case (Cons s ss')
    then have "subs_of (Node cs ss) [] (sub_client s) \<noteq> None" by (simp add: info_at_def)
    then show ?thesis by blast
  next
    case Nil
    with 1(5) obtain l ch cs' where cs: "cs = (l, ch) # cs'" by (cases cs) auto
    then have "(l, ch) \<in> set cs" by simp
    with 1(3,2) 1(4) cs obtain ks c where "subs_of ch ks c \<noteq> None" by (metis node_ok_Cons)
    then have "subs_of (Node cs ss) (l # ks) c \<noteq> None" by (simp add: cs subs_of_Cons get_child_def)
    then show ?thesis by blast
  qed
qed

lemma pruned_find:
  "pruned nd \<Longrightarrow> node_ok nd \<Longrightarrow> find_node (l # ls) nd = Some x \<Longrightarrow> pruned x \<and> x \<noteq> Node [] [] \<and> node_ok x"
proof (induction ls arbitrary: l nd)
  case Nil
  then show ?case
    by (cases nd) (auto simp: pruned_Node node_ok_Node get_child_def split: option.splits dest!: map_of_SomeD)
next
  case (Cons k ks)
  obtain c where c: "get_child l nd = Some c" "find_node (k # ks) c = Some x"
    using Cons.prems(3) by (auto split: option.splits)
  have "pruned c" using Cons.prems(1) c(1) by (cases nd) (auto simp: pruned_Node get_child_def dest: map_of_SomeD)
  with Cons.IH [OF _ node_ok_child [OF Cons.prems(2) c(1)] c(2)] show ?case by blast
qed


definition cleaned_node :: "tnode \<Rightarrow> mq_err option \<times> bool \<times> tnode \<times> nat \<times> nat \<Rightarrow> bool" where
  "cleaned_node nd x \<longleftrightarrow> (case x of (r, del, nd', n, _) \<Rightarrow>
     trimmed nd nd' n \<and> (if r = None then pruned nd' \<and> (del \<longleftrightarrow> nd' = Node [] [])
       else r = Some MQ_ERR_TOPIC_TREE_MEMORY_ALLOC))"

definition cleaned_children ::
  "subscriber list \<Rightarrow> (level \<times> tnode) list \<Rightarrow> mq_err option \<times> (level \<times> tnode) list \<times> level list \<times> nat \<times> nat \<Rightarrow> bool" where
  "cleaned_children ss cs x \<longleftrightarrow> (case x of (r, cs', rm, n, _) \<Rightarrow>
     trimmed (Node cs ss) (Node cs' ss) n \<and> map fst cs' = map fst cs \<and>
     (if r = None then (\<forall>(l, c)\<in>set cs'. pruned c) \<and> distinct rm \<and> (\<forall>l. l \<in> set rm \<longleftrightarrow> (l, Node [] []) \<in> set cs')
      else r = Some MQ_ERR_TOPIC_TREE_MEMORY_ALLOC))"

lemma cleaned_children_Cons:
  assumes ok: "node_ok (Node ((l, c) # cs) ss)" and c: "cleaned_node c (None, del, c', n, i)"
    and cs: "cleaned_children ss cs (r, cs', rm, m, j)"
  shows "cleaned_children ss ((l, c) # cs) (r, (l, c') # cs', (if del then [l] else []) @ rm, n + m, j)"
proof -
  have t: "trimmed c c' n" "pruned c'" "del \<longleftrightarrow> c' = Node [] []" using c by (simp_all add: cleaned_node_def)
  have u: "trimmed (Node cs ss) (Node cs' ss) m" "map fst cs' = map fst cs" using cs by (simp_all add: cleaned_children_def)
  have "l \<notin> fst ` set cs" using ok by (simp add: node_ok_Cons)
  then have l: "l \<notin> fst ` set cs'" using u(2) by (metis list.set_map)
  show ?thesis
  proof (cases r)
    case (Some e)
    with cs u trimmed_Cons [OF ok t(1) u] show ?thesis by (simp add: cleaned_children_def)
  next
    case None
    with cs have r: "\<forall>(l, c)\<in>set cs'. pruned c" "distinct rm" "\<And>k. k \<in> set rm \<longleftrightarrow> (k, Node [] []) \<in> set cs'"
      by (simp_all add: cleaned_children_def)
    from r(3) [of l] l have "l \<notin> set rm" by force
    with None r t(2,3) u trimmed_Cons [OF ok t(1) u] show ?thesis by (auto simp: cleaned_children_def)
  qed
qed

lemma cleaned_node_Node:
  assumes ok: "node_ok (Node cs ss)" and cs: "cleaned_children ss cs (None, cs', rm, n, i)"
    and e: "remove_children mem i rm (Node cs' ss) = (r, nd', m, j)"
  shows "cleaned_node (Node cs ss) (r, r = None \<and> subscribers nd' = [] \<and> children nd' = [], nd', n + m, j)"
proof -
  have t: "trimmed (Node cs ss) (Node cs' ss) n" and p: "\<forall>(l, c)\<in>set cs'. pruned c" "distinct rm"
    and rm: "\<And>l. l \<in> set rm \<longleftrightarrow> (l, Node [] []) \<in> set cs'"
    using cs by (simp_all add: cleaned_children_def)
  have ok': "node_ok (Node cs' ss)" using t by (simp add: trimmed_def)
  then have "distinct (map fst cs')" by (simp add: node_ok_Node)
  then have "\<forall>l\<in>set rm. get_child l (Node cs' ss) = Some (Node [] [])" by (simp add: rm get_child_def)
  from remove_children_ok [OF ok' p(2) this e]
  have u: "trimmed (Node cs' ss) nd' m"
    and r: "if r = None then children nd' = filter (\<lambda>(k, _). k \<notin> set rm) cs' else r = Some MQ_ERR_TOPIC_TREE_MEMORY_ALLOC"
    by simp_all
  have "pruned nd'" if "r = None"
    using that r p(1) rm by (cases nd') (auto simp: pruned_Node)
  with r trimmed_trans [OF t u] show ?thesis by (cases nd') (auto simp: cleaned_node_def)
qed

lemma cleanup_cleaned:
  "node_ok nd \<Longrightarrow> cleaned_node nd (cleanup_node mem i nd)"
  "node_ok (Node cs ss) \<Longrightarrow> cleaned_children ss cs (cleanup_children mem i cs)"
proof (induction mem i nd and mem i cs arbitrary: and ss rule: cleanup_node_cleanup_children.induct)
  case (1 mem i cs ss)
  obtain r cs' rm n j where e: "cleanup_children mem i cs = (r, cs', rm, n, j)" by (metis prod_cases5)
  with 1 have c: "cleaned_children ss cs (r, cs', rm, n, j)" by simp
  show ?case
  proof (cases r)
    case (Some x)
    then show ?thesis using c e by (simp add: cleaned_node_def cleaned_children_def)
  next
    case None
    obtain q nd' m k where f: "remove_children mem j rm (Node cs' ss) = (q, nd', m, k)" by (metis prod_cases4)
    from cleaned_node_Node [OF 1(2) c [unfolded None] f] show ?thesis
      using e f None by (cases q) simp_all
  qed
next
  case (2 mem i)
  then show ?case by (simp add: cleaned_children_def trimmed_refl)
next
  case (3 mem i l c cs)
  have ok: "node_ok c" "node_ok (Node cs ss)" using 3(3) by (simp_all add: node_ok_Cons)
  obtain r del c' n j where e: "cleanup_node mem i c = (r, del, c', n, j)" by (metis prod_cases5)
  with 3(1) [OF ok(1)] have c: "cleaned_node c (r, del, c', n, j)" by simp
  show ?case
  proof (cases r)
    case (Some x)
    then have "trimmed c c' n" using c by (simp add: cleaned_node_def)
    from trimmed_Cons [OF 3(3) this trimmed_refl [OF ok(2)] refl] show ?thesis
      using c e Some by (simp add: cleaned_children_def cleaned_node_def)
  next
    case None
    obtain q cs' rm m k where f: "cleanup_children mem j cs = (q, cs', rm, m, k)" by (metis prod_cases5)
    with 3(2) [OF e [symmetric] None refl refl refl ok(2)]
    have "cleaned_children ss cs (q, cs', rm, m, k)" by simp
    from cleaned_children_Cons [OF 3(3) c [unfolded None] this] show ?thesis using e f None by simp
  qed
qed

lemma cleanup_empty_nodes_ok:
  assumes "tree_ok t" "cleanup_empty_nodes mem i t = (r, t', i')"
  shows "tree_ok t' \<and> tree_subs t' = tree_subs t \<and>
    (case r of Inl e \<Rightarrow> e = MQ_ERR_TOPIC_TREE_MEMORY_ALLOC
     | Inr n \<Rightarrow> total_nodes t' + n = total_nodes t \<and> (\<forall>rt. root t' = Some rt \<longrightarrow> pruned rt))"
proof (cases "root t")
  case None
  then show ?thesis using assms by (auto simp: cleanup_empty_nodes_def)
next
  case (Some rt)
  have ok: "node_ok rt" "total_subscribers t = count_subs rt" "total_nodes t = count_nodes rt"
    using assms(1) Some by (simp_all add: tree_ok_def)
  obtain q del rt' n j where e: "cleanup_node mem i rt = (q, del, rt', n, j)" by (metis prod_cases5)
  with cleanup_cleaned(1) [OF ok(1), of mem i] have c: "cleaned_node rt (q, del, rt', n, j)" by simp
  then have t: "trimmed rt rt' n" by (simp add: cleaned_node_def)
  let ?t = "t\<lparr>root := Some rt', total_nodes := count_nodes rt'\<rparr>"
  have n: "sz_sub (total_nodes t) n = count_nodes rt'" "count_nodes rt' \<le> count_nodes rt"
    using t ok(3) by (auto simp: trimmed_def)
  have "t' = ?t" "r = (case q of Some e \<Rightarrow> Inl e | None \<Rightarrow> Inr (count_nodes rt - count_nodes rt'))"
    using assms(2) Some e n ok(3) by (auto simp: cleanup_empty_nodes_def Let_def split: option.splits)
  moreover have "tree_ok ?t" "tree_subs ?t = tree_subs t"
    using t ok Some by (auto simp: trimmed_def tree_ok_def tree_subs_def fun_eq_iff)
  ultimately show ?thesis using c n ok(3) by (auto simp: cleaned_node_def split: option.splits)
qed



subsection \<open>What is counted\<close>

text \<open>The entries of type \<open>'a\<close> that \<open>S\<close> reads off the subscribers of every node.\<close>

definition entries :: "(subscriber list \<Rightarrow> 'a set) \<Rightarrow> tnode \<Rightarrow> (level list \<times> 'a) set" where
  "entries S nd = {(ls, x). \<exists>nd'. find_node ls nd = Some nd' \<and> x \<in> S (subscribers nd')}"

lemma entries_Node:
  assumes "distinct (map fst cs)"
  shows "entries S (Node cs ss) =
    Pair [] ` S ss \<union> (\<Union>(l, c)\<in>set cs. (\<lambda>(ls, x). (l # ls, x)) ` entries S c)"
proof -
  have "(ls, x) \<in> entries S (Node cs ss) \<longleftrightarrow>
      (ls, x) \<in> Pair [] ` S ss \<union> (\<Union>(l, c)\<in>set cs. (\<lambda>(ls, x). (l # ls, x)) ` entries S c)" for ls x
  proof (cases ls)
    case Nil
    then show ?thesis by (auto simp: entries_def)
  next
    case (Cons l ks)
    have "(ls, x) \<in> entries S (Node cs ss) \<longleftrightarrow> (\<exists>c. (l, c) \<in> set cs \<and> (ks, x) \<in> entries S c)"
      by (simp add: Cons entries_def get_child_def split: option.split flip: map_of_eq_Some_iff [OF assms])
    then show ?thesis by (force simp: Cons)
  qed
  then show ?thesis by (auto simp: set_eq_iff)
qed

lemma card_entries:
  assumes W: "\<And>cs ss. distinct (map sub_client ss) \<Longrightarrow>
      W (Node cs ss) = card (S ss) + sum_list (map (\<lambda>(_, c). W c) cs)" and S: "\<And>ss. finite (S ss)"
  shows "node_ok nd \<Longrightarrow> finite (entries S nd) \<and> card (entries S nd) = W nd"
proof (induction rule: node_ok.induct)
  case (1 cs ss)
  let ?f = "\<lambda>(l, c). (\<lambda>(ls, x). (l # ls, x)) ` entries S c"
  have d: "distinct cs" using 1(1) by (simp add: distinct_map)
  have f: "finite (?f x)" "card (?f x) = W (snd x)" if "x \<in> set cs" for x
    using that 1(5) [of "fst x" "snd x"] by (auto simp: card_image inj_on_def case_prod_beta prod_eq_iff)
  have "?f x \<inter> ?f y = {}" if "x \<in> set cs" "y \<in> set cs" "x \<noteq> y" for x y
  proof -
    have "fst x \<noteq> fst y" using that 1(1) by (metis eq_key_imp_eq_value prod.collapse)
    then show ?thesis by (auto split: prod.splits)
  qed
  with f have "card (\<Union>x\<in>set cs. ?f x) = (\<Sum>x\<in>set cs. W (snd x))" by (subst card_UN_disjoint) auto
  also have "\<dots> = sum_list (map (\<lambda>(_, c). W c) cs)"
    using d by (simp add: sum_list_distinct_conv_sum_set case_prod_beta)
  finally have c: "card (\<Union>x\<in>set cs. ?f x) = sum_list (map (\<lambda>(_, c). W c) cs)" .
  have fin: "finite (\<Union>x\<in>set cs. ?f x)" using f by auto
  have "Pair [] ` S ss \<inter> (\<Union>x\<in>set cs. ?f x) = {}" by auto
  then have "card (Pair [] ` S ss \<union> (\<Union>x\<in>set cs. ?f x)) = W (Node cs ss)"
    using S [of ss] fin c W [OF 1(2)] by (simp add: card_Un_disjoint card_image inj_on_def)
  then show ?case using S fin by (simp add: entries_Node [OF 1(1)])
qed

lemma count_subs_card:
  assumes "node_ok nd"
  shows "finite {(ls, c). subs_of nd ls c \<noteq> None}" "card {(ls, c). subs_of nd ls c \<noteq> None} = count_subs nd"
proof -
  have len: "card (sub_client ` set ss) = length ss" if "distinct (map sub_client ss)" for ss
    using distinct_card [OF that] by simp
  have "finite (entries (\<lambda>ss. sub_client ` set ss) nd) \<and> card (entries (\<lambda>ss. sub_client ` set ss) nd) = count_subs nd"
    by (intro card_entries [OF _ _ assms]) (simp_all add: len)
  moreover have "entries (\<lambda>ss. sub_client ` set ss) nd = {(ls, c). subs_of nd ls c \<noteq> None}"
    by (auto simp: entries_def subs_of_def info_has simp flip: has_subscriber_def split: option.splits)
  ultimately show "finite {(ls, c). subs_of nd ls c \<noteq> None}" "card {(ls, c). subs_of nd ls c \<noteq> None} = count_subs nd"
    by simp_all
qed

lemma count_nodes_card:
  assumes "node_ok nd"
  shows "card {ls. find_node ls nd \<noteq> None} = count_nodes nd"
proof -
  have "card (entries (\<lambda>_. {()}) nd) = count_nodes nd"
    using card_entries [of count_nodes "\<lambda>_. {()}", OF _ _ assms] by simp
  moreover have "entries (\<lambda>_. {()}) nd = (\<lambda>ls. (ls, ())) ` {ls. find_node ls nd \<noteq> None}"
    by (auto simp: entries_def)
  ultimately show ?thesis by (simp add: card_image inj_on_def)
qed


subsection \<open>Reachable trees\<close>

inductive tree_reach :: "topic_tree \<Rightarrow> bool" where
  new: "new_tree mem i = (t, i') \<Longrightarrow> tree_reach t"
| subscribe: "tree_reach t \<Longrightarrow> subscribe mem i f c opts t = (r, t', i') \<Longrightarrow> tree_reach t'"
| unsubscribe: "tree_reach t \<Longrightarrow> unsubscribe mem i f c t = (r, t', i') \<Longrightarrow> tree_reach t'"
| unsubscribe_all: "tree_reach t \<Longrightarrow> unsubscribe_all mem i c t = (n, t', i') \<Longrightarrow> tree_reach t'"
| cleanup: "tree_reach t \<Longrightarrow> cleanup_empty_nodes mem i t = (q, t', i') \<Longrightarrow> tree_reach t'"

lemma tree_reach_ok: "tree_reach t \<Longrightarrow> tree_ok t"
proof (induction rule: tree_reach.induct)
  case (new mem i t i')
  then show ?case
    by (auto simp: new_tree_def create_initialized_node_def tree_ok_def split: if_splits)
next
  case (subscribe t mem i f c opts r t' i')
  then show ?case using subscribe_ok by blast
next
  case (unsubscribe t mem i f c r t' i')
  then show ?case using unsubscribe_ok by blast
next
  case (unsubscribe_all t mem i c n t' i')
  then show ?case
    using unsubscribe_each_tree_ok [of t mem i c _ n t' i']
    by (auto simp: unsubscribe_all_def split: if_splits sum.splits)
next
  case (cleanup t mem i q t' i')
  then show ?case using cleanup_empty_nodes_ok by blast
qed



subsection \<open>Properties\<close>

text \<open>
  C2.  The tree implements a map from pairs of a path and a client to subscription options.
  Subscribing is refused, and leaves the tree as it is, if the tree has no root, the client id
  is empty or the filter is not valid or too long; otherwise it enters the options under the
  levels of the filter, whatever was there before, or runs out of memory and leaves the map as
  it is.  Unsubscribing removes the entry, or reports that there is none.
\<close>

theorem subscriptions_refine:
  assumes "tree_reach t"
  shows "(case subscribe mem i f c opts t of (r, t', _) \<Rightarrow>
       case subscribe_refused f c t of
         Some e \<Rightarrow> r = Some e \<and> t' = t
       | None \<Rightarrow> if r = None then tree_subs t' = (tree_subs t)((path_of f, c) \<mapsto> opts)
                 else r = Some MQ_ERR_TOPIC_TREE_MEMORY_ALLOC \<and> tree_subs t' = tree_subs t) \<and>
    (case unsubscribe mem i f c t of (r, t', _) \<Rightarrow>
       case unsubscribe_refused f c t of
         Some e \<Rightarrow> r = Some e \<and> t' = t
       | None \<Rightarrow> if mem i then r = None \<and> tree_subs t' = (tree_subs t)((path_of f, c) := None)
                 else r = Some MQ_ERR_TOPIC_TREE_MEMORY_ALLOC \<and> t' = t)"
proof -
  note ok = tree_reach_ok [OF assms]
  obtain r t' j where s: "subscribe mem i f c opts t = (r, t', j)" by (metis prod_cases3)
  obtain q u k where u: "unsubscribe mem i f c t = (q, u, k)" by (metis prod_cases3)
  show ?thesis using subscribe_ok [OF ok s] unsubscribe_ok [OF ok u] by (simp add: s u)
qed

lemma first_tree: "tree_reach \<lparr>root = Some empty_node, total_subscribers = 0, total_nodes = 1\<rparr>"
  by (rule tree_reach.new [of "\<lambda>_. True" 0 _ 2]) (simp add: new_tree_def create_initialized_node_def)

theorem subscriptions_refine_witness:
  "\<forall>opts. case subscribe (\<lambda>_. True) 2 [0x61] [0x63] opts \<lparr>root = Some empty_node, total_subscribers = 0, total_nodes = 1\<rparr> of
     (r, t', _) \<Rightarrow> r = None \<and> tree_subs t' ([[0x61]], [0x63]) = Some opts"
  using subscriptions_refine [OF first_tree, where mem = "\<lambda>_. True" and i = 2 and f = "[0x61]" and c = "[0x63]"]
  by (simp add: Let_def has_subscriber_def subscribe_refused_def path_of_def drop_empty_end_def subscribe_def validate_topic_filter_def
      filter_char_ok_def split_topic_levels_def create_initialized_node_def clone_def get_child_def empty_node_def
      add_subscriber_to_node_def add_subscriber_def add_child_def tree_subs_def subs_of_def info_at_def)



text \<open>
  C13.  The two counters of a reachable tree are exact: the number of subscriptions held and the
  number of nodes.  Removing the empty nodes changes no subscription and keeps the counters exact;
  it reports the number of nodes removed, and afterwards every node but the root has a
  subscription at or below it.
\<close>

theorem counters_and_cleanup:
  assumes "tree_reach t" "root t = Some rt" "cleanup_empty_nodes mem i t = (r, t', i')"
  shows "total_subscribers t = card {p. tree_subs t p \<noteq> None} \<and> finite {p. tree_subs t p \<noteq> None} \<and>
    total_nodes t = card {ls. find_node ls rt \<noteq> None} \<and>
    tree_subs t' = tree_subs t \<and> tree_reach t' \<and>
    (case r of Inl e \<Rightarrow> e = MQ_ERR_TOPIC_TREE_MEMORY_ALLOC
     | Inr n \<Rightarrow> total_nodes t' + n = total_nodes t \<and>
         (\<forall>rt' l ls. root t' = Some rt' \<and> find_node (l # ls) rt' \<noteq> None \<longrightarrow>
            (\<exists>ks c. tree_subs t' (l # ls @ ks, c) \<noteq> None)))"
proof -
  have t: "tree_ok t" "node_ok rt" using tree_reach_ok [OF assms(1)] assms(2) by (simp_all add: tree_ok_def)
  have t': "tree_reach t'" using assms(1,3) by (rule tree_reach.cleanup)
  note c = cleanup_empty_nodes_ok [OF t(1) assms(3)]
  have "{p. tree_subs t p \<noteq> None} = {(ls, c). subs_of rt ls c \<noteq> None}" by (auto simp: tree_subs_root [OF assms(2)])
  then have n: "total_subscribers t = card {p. tree_subs t p \<noteq> None}" "finite {p. tree_subs t p \<noteq> None}"
    using count_subs_card [OF t(2)] t(1) assms(2) by (simp_all add: tree_ok_def)
  have m: "total_nodes t = card {ls. find_node ls rt \<noteq> None}"
    using count_nodes_card [OF t(2)] t(1) assms(2) by (simp add: tree_ok_def)
  have "\<exists>ks c. tree_subs t' (l # ls @ ks, c) \<noteq> None"
    if "pruned rt'" "root t' = Some rt'" "find_node (l # ls) rt' \<noteq> None" for rt' l ls
  proof -
    from that(3) obtain x where x: "find_node (l # ls) rt' = Some x" by blast
    have "node_ok rt'" using tree_reach_ok [OF t'] that(2) by (simp add: tree_ok_def)
    from pruned_find [OF that(1) this x] pruned_used obtain ks c where "subs_of x ks c \<noteq> None" by blast
    then have "subs_of rt' ((l # ls) @ ks) c \<noteq> None" using subs_of_append [OF x] by simp
    then show ?thesis by (auto simp: tree_subs_root [OF that(2)])
  qed
  with c n m t' show ?thesis by (cases r) simp_all
qed

theorem counters_and_cleanup_witness:
  "cleanup_empty_nodes (\<lambda>_. True) 0 \<lparr>root = Some empty_node, total_subscribers = 0, total_nodes = 1\<rparr> =
     (Inr 0, \<lparr>root = Some empty_node, total_subscribers = 0, total_nodes = 1\<rparr>, 0) \<and>
   1 = card {ls. find_node ls empty_node \<noteq> None}"
  using counters_and_cleanup [OF first_tree, of empty_node "\<lambda>_. True" 0 "Inr 0"
      "\<lparr>root = Some empty_node, total_subscribers = 0, total_nodes = 1\<rparr>" 0]
  by (simp add: cleanup_empty_nodes_def empty_node_def Let_def)

text \<open>
  C29.  Dropping a client removes every subscription it made with a filter that does not begin
  with a separator and does not end with two, if memory suffices; it touches no other client and
  adds nothing.
\<close>

theorem unsubscribe_all_drops:
  assumes "tree_reach t" "\<forall>i. mem i" "c \<noteq> []" "unsubscribe_all mem i c t = (n, t', i')"
  shows "(\<forall>ls d. d \<noteq> c \<longrightarrow> tree_subs t' (ls, d) = tree_subs t (ls, d)) \<and>
    (\<forall>ls. tree_subs t' (ls, c) \<in> {None, tree_subs t (ls, c)}) \<and>
    (\<forall>f. f \<noteq> [] \<and> hd f \<noteq> slash \<and> \<not> (last f = slash \<and> last (butlast f) = slash) \<and> length f \<le> 65535 \<longrightarrow>
       tree_subs t' (path_of f, c) = None)"
  using unsubscribe_all_ok [OF tree_reach_ok [OF assms(1)] assms(2-4)]
  unfolding plain_filter_def by blast

theorem unsubscribe_all_drops_witness:
  "case unsubscribe_all (\<lambda>_. True) 0 [0x63] \<lparr>root = Some empty_node, total_subscribers = 0, total_nodes = 1\<rparr> of
     (n, t', _) \<Rightarrow> n = 0 \<and> tree_subs t' (path_of [0x61], [0x63]) = None"
proof -
  let ?t = "\<lparr>root = Some empty_node, total_subscribers = 0, total_nodes = 1\<rparr>"
  have e: "unsubscribe_all (\<lambda>_. True) 0 [0x63] ?t = (0, ?t, 0)"
    by (simp add: unsubscribe_all_def get_client_subscriptions_def empty_node_def has_subscriber_def)
  have "tree_subs ?t (path_of [0x61], [0x63]) = None"
    using unsubscribe_all_drops [OF first_tree _ _ e] by simp
  with e show ?thesis by simp
qed

text \<open>
  A filter that begins with a separator is different: its path is joined without the empty first
  level, so the subscription is not found again and stays.
\<close>

theorem unsubscribe_all_leaves_leading_slash:
  "let mem = (\<lambda>_. True);
       (r, t, i) = subscribe mem 2 [slash, 0x61] [0x63] opts
         \<lparr>root = Some empty_node, total_subscribers = 0, total_nodes = 1\<rparr>;
       (n, t', i') = unsubscribe_all mem i [0x63] t
   in r = None \<and> n = 0 \<and> tree_subs t' ([[], [0x61]], [0x63]) = Some opts"
  by (simp add: Let_def subscribe_def validate_topic_filter_def filter_char_ok_def upt_rec
      split_topic_levels_def create_initialized_node_def clone_def get_child_def empty_node_def
      add_subscriber_to_node_def add_subscriber_def add_child_def unsubscribe_all_def get_client_subscriptions_def
      has_subscriber_def join_topic_path_def unsubscribe_def tree_subs_def subs_of_def info_at_def)

end
