(* ===== verification/Cow_Cell.thy ===== *)
theory Cow_Cell
  imports Topic_Tree
begin

text \<open>
  The contents of a node under concurrent updates: the cell of \<^verbatim>\<open>TopicTreeNode\<close>, its
  \<^verbatim>\<open>get_intermediate_node\<close> and \<^verbatim>\<open>compare_and_swap_intermediate_node\<close>, the reference counts of
  \<^verbatim>\<open>IntermediateNode\<close>, and the retry loop of \<^verbatim>\<open>add_subscriber_to_node\<close> and
  \<^verbatim>\<open>remove_subscriber_from_node\<close> in \<^verbatim>\<open>src/topic/mqtt_topic_tree.cpp\<close>.  Each access to an
  atomic variable is one step; threads interleave.  Addresses are not used twice, so that an
  access to a released object shows as \<open>fault\<close>.  Thread \<open>t\<close> applies \<open>ops t\<close> to a copy of the contents.
\<close>

type_synonym addr = nat

datatype pc =
    Start nat
  | Loaded nat addr
  | Held nat addr
  | Ready nat addr addr
  | Won addr
  | Won_held addr
  | Lost nat addr addr
  | Drop nat addr
  | Refused addr mq_err
  | Done "mq_err option"

record 'c cow =
  cell :: addr
  heap :: "addr \<Rightarrow> (nat \<times> 'c) option"
  nxt :: addr
  pcs :: "pc list"
  fault :: bool
  commits :: "nat list"

definition max_retries :: nat where
  "max_retries = 100"

definition intrusive_ptr_add_ref :: "addr \<Rightarrow> 'c cow \<Rightarrow> 'c cow" where
  "intrusive_ptr_add_ref a s =
     (case heap s a of
        None \<Rightarrow> s\<lparr>fault := True\<rparr>
      | Some (rc, c) \<Rightarrow> s\<lparr>heap := (heap s)(a \<mapsto> (rc + 1, c))\<rparr>)"

definition intrusive_ptr_release :: "addr \<Rightarrow> 'c cow \<Rightarrow> 'c cow" where
  "intrusive_ptr_release a s =
     (case heap s a of
        None \<Rightarrow> s\<lparr>fault := True\<rparr>
      | Some (rc, c) \<Rightarrow> s\<lparr>heap := (heap s)(a := (if rc = 1 then None else Some (rc - 1, c)))\<rparr>)"

definition goto :: "nat \<Rightarrow> pc \<Rightarrow> 'c cow \<Rightarrow> 'c cow" where
  "goto t p s = s\<lparr>pcs := (pcs s)[t := p]\<rparr>"

text \<open>A step of thread \<open>t\<close>.\<close>

definition step :: "(nat \<Rightarrow> 'c \<Rightarrow> 'c result) \<Rightarrow> nat \<Rightarrow> 'c cow \<Rightarrow> 'c cow" where
  "step ops t s =
     (if t \<ge> length (pcs s) then s
      else case pcs s ! t of
        Start n \<Rightarrow>
          goto t (if n < max_retries then Loaded n (cell s) else Done (Some MQ_ERR_TOPIC_TREE_CONCURRENT)) s
      | Loaded n a \<Rightarrow> goto t (Held n a) (intrusive_ptr_add_ref a s)
      | Held n a \<Rightarrow>
          (case heap s a of
             None \<Rightarrow> s\<lparr>fault := True\<rparr>
           | Some (_, c) \<Rightarrow>
               (case ops t c of
                  Inl e \<Rightarrow> goto t (Refused a e) s
                | Inr c' \<Rightarrow>
                    goto t (Ready n a (nxt s)) (s\<lparr>heap := (heap s)(nxt s \<mapsto> (1, c')), nxt := nxt s + 1\<rparr>)))
      | Ready n a b \<Rightarrow>
          if cell s = a then goto t (Won a) (s\<lparr>cell := b, commits := commits s @ [t]\<rparr>)
          else goto t (Lost n a b) s
      | Won a \<Rightarrow> goto t (Won_held a) (intrusive_ptr_release a s)
      | Won_held a \<Rightarrow> goto t (Done None) (intrusive_ptr_release a s)
      | Lost n a b \<Rightarrow> goto t (Drop n b) (intrusive_ptr_release a s)
      | Drop n b \<Rightarrow> goto t (Start (n + 1)) (s\<lparr>heap := (heap s)(b := None)\<rparr>)
      | Refused a e \<Rightarrow> goto t (Done (Some e)) (intrusive_ptr_release a s)
      | Done r \<Rightarrow> s)"

definition start :: "nat \<Rightarrow> 'c \<Rightarrow> 'c cow" where
  "start k c = \<lparr>cell = 0, heap = [0 \<mapsto> (1, c)], nxt = 1, pcs = replicate k (Start 0), fault = False, commits = []\<rparr>"

definition run :: "(nat \<Rightarrow> 'c \<Rightarrow> 'c result) \<Rightarrow> nat list \<Rightarrow> 'c cow \<Rightarrow> 'c cow" where
  "run ops sched s = fold (step ops) sched s"


subsection \<open>Reference counts\<close>

fun holds :: "pc \<Rightarrow> addr \<Rightarrow> nat" where
  "holds (Held n a) x = of_bool (x = a)"
| "holds (Ready n a b) x = of_bool (x = a) + of_bool (x = b)"
| "holds (Won a) x = 2 * of_bool (x = a)"
| "holds (Won_held a) x = of_bool (x = a)"
| "holds (Lost n a b) x = of_bool (x = a) + of_bool (x = b)"
| "holds (Drop n b) x = of_bool (x = b)"
| "holds (Refused a e) x = of_bool (x = a)"
| "holds _ x = 0"

definition refs :: "'c cow \<Rightarrow> addr \<Rightarrow> nat" where
  "refs s x = of_bool (cell s = x) + sum_list (map (\<lambda>p. holds p x) (pcs s))"

definition counted :: "'c cow \<Rightarrow> bool" where
  "counted s \<longleftrightarrow> (\<forall>x. case heap s x of None \<Rightarrow> refs s x = 0 | Some (rc, _) \<Rightarrow> rc = refs s x \<and> rc > 0)"

fun own_copy :: "pc \<Rightarrow> addr option" where
  "own_copy (Ready n a b) = Some b"
| "own_copy (Lost n a b) = Some b"
| "own_copy (Drop n b) = Some b"
| "own_copy _ = None"

fun known :: "pc \<Rightarrow> addr option" where
  "known (Loaded n a) = Some a"
| "known (Held n a) = Some a"
| "known (Ready n a b) = Some a"
| "known (Won a) = Some a"
| "known (Won_held a) = Some a"
| "known (Lost n a b) = Some a"
| "known (Refused a e) = Some a"
| "known _ = None"

text \<open>
  A copy that is not published yet is known to one thread only; every address in use has been
  given out.
\<close>

definition addresses_ok :: "'c cow \<Rightarrow> bool" where
  "addresses_ok s \<longleftrightarrow> cell s < nxt s \<and> (\<forall>x\<ge>nxt s. heap s x = None) \<and>
     (\<forall>t<length (pcs s). \<forall>a. known (pcs s ! t) = Some a \<longrightarrow> a < nxt s) \<and>
     (\<forall>t<length (pcs s). \<forall>b. own_copy (pcs s ! t) = Some b \<longrightarrow> b < nxt s \<and> b \<noteq> cell s \<and>
        (\<forall>u<length (pcs s). known (pcs s ! u) \<noteq> Some b \<and> (u \<noteq> t \<longrightarrow> own_copy (pcs s ! u) \<noteq> Some b)))"

definition value_at :: "'c cow \<Rightarrow> addr \<Rightarrow> 'c option" where
  "value_at s a = map_option snd (heap s a)"

definition copies_ok :: "(nat \<Rightarrow> 'c \<Rightarrow> 'c result) \<Rightarrow> 'c cow \<Rightarrow> bool" where
  "copies_ok ops s \<longleftrightarrow> (\<forall>t<length (pcs s). \<forall>n a b. pcs s ! t = Ready n a b \<longrightarrow>
     (\<exists>c c'. value_at s a = Some c \<and> value_at s b = Some c' \<and> ops t c = Inr c'))"

text \<open>The operations of the committed threads, one after the other.\<close>

fun replay :: "(nat \<Rightarrow> 'c \<Rightarrow> 'c result) \<Rightarrow> nat list \<Rightarrow> 'c \<Rightarrow> 'c result" where
  "replay ops [] c = Inr c"
| "replay ops (t # ts) c = bindE (ops t c) (replay ops ts)"

definition cow_inv :: "(nat \<Rightarrow> 'c \<Rightarrow> 'c result) \<Rightarrow> 'c \<Rightarrow> 'c cow \<Rightarrow> bool" where
  "cow_inv ops c s \<longleftrightarrow> counted s \<and> addresses_ok s \<and> copies_ok ops s \<and>
     (\<exists>c'. value_at s (cell s) = Some c' \<and> replay ops (commits s) c = Inr c')"



subsection \<open>The invariant is kept\<close>

lemma sum_list_update_nat:
  "t < length xs \<Longrightarrow> sum_list (map f (xs[t := p])) + (f (xs ! t) :: nat) = sum_list (map f xs) + f p"
  using sum_list_update [of t "map f xs" "f p"] elem_le_sum_list [of t "map f xs"] by (simp add: map_update)

lemma sum_list_only:
  "t < length xs \<Longrightarrow> \<forall>u<length xs. u \<noteq> t \<longrightarrow> f (xs ! u) = (0 :: nat) \<Longrightarrow> sum_list (map f xs) = f (xs ! t)"
proof (induction xs arbitrary: t)
  case (Cons x xs)
  show ?case
  proof (cases t)
    case 0
    have "f (xs ! u) = 0" if "u < length xs" for u using Cons.prems(2) [rule_format, of "Suc u"] that 0 by simp
    then have "\<forall>y\<in>set xs. f y = 0" by (metis in_set_conv_nth)
    then show ?thesis using 0 by (simp add: sum_list_eq_0_iff)
  next
    case (Suc u)
    have "f x = 0" using Cons.prems(2) [rule_format, of 0] Suc by simp
    moreover have "\<forall>v<length xs. v \<noteq> u \<longrightarrow> f (xs ! v) = 0"
      using Cons.prems(2) [rule_format, of "Suc v" for v] Suc by simp
    ultimately show ?thesis using Cons.IH [of u] Cons.prems(1) Suc by simp
  qed
qed simp

lemma goto_simps [simp]:
  "cell (goto t p s) = cell s" "heap (goto t p s) = heap s" "nxt (goto t p s) = nxt s"
  "pcs (goto t p s) = (pcs s)[t := p]" "fault (goto t p s) = fault s" "commits (goto t p s) = commits s"
  by (simp_all add: goto_def)

lemma refs_step:
  assumes "t < length (pcs s)" "pcs s' = (pcs s)[t := p]"
  shows "refs s' x + of_bool (cell s = x) + holds (pcs s ! t) x = refs s x + of_bool (cell s' = x) + holds p x"
  using sum_list_update_nat [OF assms(1), of "\<lambda>p. holds p x" p] assms(2) by (simp add: refs_def)

lemma holds_known: "holds p x > 0 \<Longrightarrow> known p = Some x \<or> own_copy p = Some x"
  by (cases p) (auto simp: of_bool_def split: if_splits)

lemma addresses_own:
  assumes "addresses_ok s" "t < length (pcs s)" "own_copy (pcs s ! t) = Some b"
  shows "b < nxt s" "b \<noteq> cell s" "u < length (pcs s) \<Longrightarrow> known (pcs s ! u) \<noteq> Some b"
    "u < length (pcs s) \<Longrightarrow> u \<noteq> t \<Longrightarrow> own_copy (pcs s ! u) \<noteq> Some b"
  using assms unfolding addresses_ok_def by blast+

lemma refs_own_copy:
  assumes "addresses_ok s" "t < length (pcs s)" "own_copy (pcs s ! t) = Some b"
  shows "refs s b = 1"
proof -
  note o = addresses_own [OF assms]
  have "holds (pcs s ! u) b = 0" if "u < length (pcs s)" "u \<noteq> t" for u
    using o(3) [OF that(1)] o(4) [OF that] holds_known [of "pcs s ! u" b] by (metis gr0I)
  then have "sum_list (map (\<lambda>p. holds p b) (pcs s)) = holds (pcs s ! t) b"
    by (intro sum_list_only [OF assms(2)]) simp
  moreover have "holds (pcs s ! t) b = 1" using assms(3) o(3) [OF assms(2)] by (cases "pcs s ! t") simp_all
  ultimately show ?thesis using o(2) by (simp add: refs_def)
qed

lemma counted_at: "counted s \<Longrightarrow> case heap s x of None \<Rightarrow> refs s x = 0 | Some (rc, _) \<Rightarrow> rc = refs s x \<and> rc > 0"
  unfolding counted_def by (rule spec)

lemma counted_alive: "counted s \<Longrightarrow> refs s x > 0 \<Longrightarrow> \<exists>c. heap s x = Some (refs s x, c)"
  using counted_at [of s x] by (cases "heap s x") auto

lemma counted_dead: "counted s \<Longrightarrow> heap s x = None \<Longrightarrow> refs s x = 0"
  using counted_at [of s x] by simp

lemma counted_count: "counted s \<Longrightarrow> heap s x = Some (rc, c) \<Longrightarrow> rc = refs s x \<and> rc > 0"
  using counted_at [of s x] by simp

lemma refs_holds: "t < length (pcs s) \<Longrightarrow> holds (pcs s ! t) x \<le> refs s x"
  using member_le_sum_list [of "holds (pcs s ! t) x" "map (\<lambda>p. holds p x) (pcs s)"] by (simp add: refs_def)

text \<open>Counting stays right if the heap changes at one address only, as its references do.\<close>

lemma counted_update:
  assumes "counted s" "heap s' = (heap s)(a := v)" "\<And>x. x \<noteq> a \<Longrightarrow> refs s' x = refs s x"
    and "case v of None \<Rightarrow> refs s' a = 0 | Some (rc, _) \<Rightarrow> rc = refs s' a \<and> rc > 0"
  shows "counted s'"
  unfolding counted_def
proof
  fix x
  show "case heap s' x of None \<Rightarrow> refs s' x = 0 | Some (rc, _) \<Rightarrow> rc = refs s' x \<and> rc > 0"
  proof (cases "x = a")
    case True
    with assms(2,4) show ?thesis by (cases v) auto
  next
    case False
    with counted_at [OF assms(1), of x] assms(2) assms(3) [of x] show ?thesis by (cases "heap s x") auto
  qed
qed


lemma addresses_update:
  assumes "addresses_ok s" "t < length (pcs s)" "pcs s' = (pcs s)[t := p]" "nxt s \<le> nxt s'" "cell s' < nxt s'"
    and "\<And>x. x \<ge> nxt s' \<Longrightarrow> heap s' x = None"
    and k: "\<And>a. known p = Some a \<Longrightarrow> a < nxt s' \<and> (\<forall>u<length (pcs s). u \<noteq> t \<longrightarrow> own_copy (pcs s ! u) \<noteq> Some a)"
    and o: "\<And>b. own_copy p = Some b \<Longrightarrow> b < nxt s' \<and> b \<noteq> cell s' \<and> known p \<noteq> Some b \<and>
      (\<forall>u<length (pcs s). u \<noteq> t \<longrightarrow> known (pcs s ! u) \<noteq> Some b \<and> own_copy (pcs s ! u) \<noteq> Some b)"
    and c: "\<And>u. u < length (pcs s) \<Longrightarrow> u \<noteq> t \<Longrightarrow> own_copy (pcs s ! u) \<noteq> Some (cell s')"
  shows "addresses_ok s'"
proof -
  have len: "length (pcs s') = length (pcs s)" by (simp add: assms(3))
  have p: "pcs s' ! u = (if u = t then p else pcs s ! u)" if "u < length (pcs s)" for u
    using that by (simp add: assms(3) nth_list_update)
  have kn: "a < nxt s" if "u < length (pcs s)" "known (pcs s ! u) = Some a" for u a
    using assms(1) that unfolding addresses_ok_def by blast
  show ?thesis
    unfolding addresses_ok_def len
  proof (intro conjI allI impI)
    fix u a assume u: "u < length (pcs s)" "known (pcs s' ! u) = Some a"
    show "a < nxt s'"
    proof (cases "u = t")
      case False
      with u have "a < nxt s" using kn by (simp add: p)
      with assms(4) show ?thesis by simp
    qed (use u k p in auto)
  next
    fix u b assume u: "u < length (pcs s)" "own_copy (pcs s' ! u) = Some b"
    { show "b < nxt s'"
      proof (cases "u = t")
        case False
        with u addresses_own(1) [OF assms(1), of u b] have "b < nxt s" by (simp add: p)
        with assms(4) show ?thesis by simp
      qed (use u o p in auto) }
    { show "b \<noteq> cell s'"
      proof (cases "u = t")
        case False
        with u c [of u] show ?thesis by (auto simp: p)
      qed (use u o p in auto) }
    { fix v assume v: "v < length (pcs s)"
      show "known (pcs s' ! v) \<noteq> Some b"
      proof (cases "u = t"; cases "v = t")
        assume "u \<noteq> t" "v \<noteq> t"
        then show ?thesis using u v addresses_own(3) [OF assms(1), of u b v] by (simp add: p)
      next
        assume "u \<noteq> t" "v = t"
        then show ?thesis using u v k [of b] by (auto simp: p)
      qed (use u v o [of b] in \<open>auto simp: p\<close>)
      show "own_copy (pcs s' ! v) \<noteq> Some b" if "v \<noteq> u"
      proof (cases "u = t"; cases "v = t")
        assume "u \<noteq> t" "v \<noteq> t"
        then show ?thesis using u v that addresses_own(4) [OF assms(1), of u b v] by (simp add: p)
      next
        assume "u \<noteq> t" "v = t"
        then show ?thesis using u v o [of b] by (auto simp: p)
      qed (use u v o [of b] that in \<open>auto simp: p\<close>) }
  qed (use assms in auto)
qed

text \<open>An object never changes its contents.\<close>

definition stable :: "'c cow \<Rightarrow> 'c cow \<Rightarrow> bool" where
  "stable s s' \<longleftrightarrow> (\<forall>x c c'. value_at s x = Some c \<and> value_at s' x = Some c' \<longrightarrow> c' = c)"

lemma value_alive: "counted s \<Longrightarrow> refs s x > 0 \<Longrightarrow> \<exists>c. value_at s x = Some c"
  using counted_alive [of s x] by (auto simp: value_at_def)

lemma copies_update:
  assumes "copies_ok ops s" "t < length (pcs s)" "pcs s' = (pcs s)[t := p]" "counted s'" "stable s s'"
    and new: "\<And>n a b. p = Ready n a b \<Longrightarrow> \<exists>c c'. value_at s' a = Some c \<and> value_at s' b = Some c' \<and> ops t c = Inr c'"
  shows "copies_ok ops s'"
  unfolding copies_ok_def
proof (intro allI impI)
  fix u n a b assume u: "u < length (pcs s')" "pcs s' ! u = Ready n a b"
  show "\<exists>c c'. value_at s' a = Some c \<and> value_at s' b = Some c' \<and> ops u c = Inr c'"
  proof (cases "u = t")
    case True
    with u assms(2,3) new show ?thesis by simp
  next
    case False
    with u assms(3) have r: "u < length (pcs s)" "pcs s ! u = Ready n a b" by simp_all
    with assms(1) obtain c c' where c: "value_at s a = Some c" "value_at s b = Some c'" "ops u c = Inr c'"
      unfolding copies_ok_def by blast
    have "refs s' a > 0" "refs s' b > 0" using refs_holds [OF u(1), of a] refs_holds [OF u(1), of b] u(2) by auto
    then obtain d d' where d: "value_at s' a = Some d" "value_at s' b = Some d'" using value_alive [OF assms(4)] by blast
    then have "d = c" "d' = c'" using c(1,2) assms(5) unfolding stable_def by blast+
    with c(3) d show ?thesis by blast
  qed
qed


lemma inv_update:
  assumes i: "cow_inv ops c s" and t: "t < length (pcs s)" "pcs s' = (pcs s)[t := p]"
    and s': "counted s'" "addresses_ok s'" "stable s s'" "cell s' = cell s" "commits s' = commits s"
    and new: "\<And>n a b. p = Ready n a b \<Longrightarrow> \<exists>c c'. value_at s' a = Some c \<and> value_at s' b = Some c' \<and> ops t c = Inr c'"
  shows "cow_inv ops c s'"
proof -
  have "copies_ok ops s" using i by (simp add: cow_inv_def)
  from copies_update [OF this t s'(1,3) new] have copies: "copies_ok ops s'" .
  obtain d where d: "value_at s (cell s) = Some d" "replay ops (commits s) c = Inr d" using i by (auto simp: cow_inv_def)
  obtain d' where d': "value_at s' (cell s') = Some d'"
    using value_alive [OF s'(1), of "cell s'"] by (auto simp: refs_def)
  then have "d' = d" using d(1) s'(3,4) unfolding stable_def by auto
  with copies d d' s' show ?thesis by (simp add: cow_inv_def)
qed

lemma inv_parts: "cow_inv ops c s \<Longrightarrow> counted s" "cow_inv ops c s \<Longrightarrow> addresses_ok s"
  by (simp_all add: cow_inv_def)

lemma address_bounds:
  assumes "addresses_ok s"
  shows "cell s < nxt s" "x \<ge> nxt s \<Longrightarrow> heap s x = None"
    "u < length (pcs s) \<Longrightarrow> known (pcs s ! u) = Some a \<Longrightarrow> a < nxt s"
  using assms unfolding addresses_ok_def by blast+

lemma own_not_cell: "addresses_ok s \<Longrightarrow> u < length (pcs s) \<Longrightarrow> own_copy (pcs s ! u) \<noteq> Some (cell s)"
  using addresses_own(2) by blast

lemma own_not_known:
  "addresses_ok s \<Longrightarrow> t < length (pcs s) \<Longrightarrow> known (pcs s ! t) = Some a \<Longrightarrow> u < length (pcs s) \<Longrightarrow> own_copy (pcs s ! u) \<noteq> Some a"
  using addresses_own(3) [of s u a t] by blast

text \<open>A step of a thread that changes only what the thread holds of one address.\<close>

lemma inv_local:
  assumes i: "cow_inv ops c s" and t: "t < length (pcs s)" "pcs s' = (pcs s)[t := p]"
    and h: "heap s' = (heap s)(a := v)" "\<And>c'. v = Some c' \<Longrightarrow> value_at s a = Some (snd c')"
    and s': "cell s' = cell s" "nxt s' = nxt s" "commits s' = commits s"
    and r: "\<And>x. x \<noteq> a \<Longrightarrow> holds p x = holds (pcs s ! t) x"
      "case v of None \<Rightarrow> refs s a + holds p a = holds (pcs s ! t) a
       | Some (rc, _) \<Rightarrow> rc + holds (pcs s ! t) a = refs s a + holds p a \<and> rc > 0"
    and k: "known p \<in> {None, known (pcs s ! t), Some (cell s)}" "own_copy p \<in> {None, own_copy (pcs s ! t)}"
    and new: "\<And>n a b. p \<noteq> Ready n a b"
  shows "cow_inv ops c s'"
proof (rule inv_update [OF i t])
  note ok = inv_parts [OF i]
  have refs: "refs s' x + holds (pcs s ! t) x = refs s x + holds p x" for x
    using refs_step [OF t, of x] s'(1) by simp
  show "counted s'"
  proof (rule counted_update [OF ok(1) h(1)])
    show "refs s' x = refs s x" if "x \<noteq> a" for x using refs [of x] r(1) [OF that] by simp
    show "case v of None \<Rightarrow> refs s' a = 0 | Some (rc, _) \<Rightarrow> rc = refs s' a \<and> rc > 0"
      using refs [of a] r(2) by (cases v) auto
  qed
  show "addresses_ok s'"
  proof (rule addresses_update [OF ok(2) t])
    show "nxt s \<le> nxt s'" "cell s' < nxt s'" using s' address_bounds(1) [OF ok(2)] by simp_all
    show "heap s' x = None" if "x \<ge> nxt s'" for x
    proof -
      have "heap s x = None" using that s'(2) address_bounds(2) [OF ok(2)] by simp
      moreover have "v = None" if "x = a"
        using h(2) calculation that by (cases v) (auto simp: value_at_def)
      ultimately show ?thesis using h(1) by simp
    qed
    show "b < nxt s' \<and> (\<forall>u<length (pcs s). u \<noteq> t \<longrightarrow> own_copy (pcs s ! u) \<noteq> Some b)" if "known p = Some b" for b
    proof -
      have "known (pcs s ! t) = Some b \<or> b = cell s" using that k(1) by auto
      then show ?thesis
        using address_bounds(1,3) [OF ok(2)] own_not_cell [OF ok(2)] own_not_known [OF ok(2) t(1)] t(1) s'(2) by auto
    qed
    show "b < nxt s' \<and> b \<noteq> cell s' \<and> known p \<noteq> Some b \<and>
        (\<forall>u<length (pcs s). u \<noteq> t \<longrightarrow> known (pcs s ! u) \<noteq> Some b \<and> own_copy (pcs s ! u) \<noteq> Some b)"
      if "own_copy p = Some b" for b
    proof -
      have o: "own_copy (pcs s ! t) = Some b" using that k(2) by auto
      note own = addresses_own [OF ok(2) t(1) o]
      have "known p \<noteq> Some b" using k(1) own(2) own(3) [OF t(1)] by auto
      with own s' show ?thesis by auto
    qed
    show "own_copy (pcs s ! u) \<noteq> Some (cell s')" if "u < length (pcs s)" "u \<noteq> t" for u
      using own_not_cell [OF ok(2) that(1)] s'(1) by simp
  qed
  show "stable s s'"
    unfolding stable_def
  proof (intro allI impI)
    fix x d d' assume d: "value_at s x = Some d \<and> value_at s' x = Some d'"
    show "d' = d"
    proof (cases "x = a")
      case True
      with d h(1) obtain rc where "v = Some (rc, d')" by (auto simp: value_at_def)
      with h(2) d True show ?thesis by simp
    qed (use d h(1) in \<open>auto simp: value_at_def\<close>)
  qed
qed (use s' new in simp_all)

lemma inv_release:
  assumes i: "cow_inv ops c s" and t: "t < length (pcs s)"
    and r: "\<And>x. holds (pcs s ! t) x = holds p x + of_bool (x = a)"
    and k: "known p \<in> {None, known (pcs s ! t)}" "own_copy p \<in> {None, own_copy (pcs s ! t)}"
    and new: "\<And>n a b. p \<noteq> Ready n a b"
  shows "cow_inv ops c (goto t p (intrusive_ptr_release a s)) \<and> fault (intrusive_ptr_release a s) = fault s"
proof -
  note ok = inv_parts [OF i]
  have pos: "refs s a > 0" using refs_holds [OF t, of a] r [of a] by simp
  then obtain d where d: "heap s a = Some (refs s a, d)" using counted_alive [OF ok(1)] by blast
  have "cow_inv ops c (goto t p (intrusive_ptr_release a s))"
  proof (rule inv_local [OF i t, of _ p a "if refs s a = 1 then None else Some (refs s a - 1, d)"])
    show "holds p x = holds (pcs s ! t) x" if "x \<noteq> a" for x using r [of x] that by simp
    show "case if refs s a = 1 then None else Some (refs s a - 1, d) of
        None \<Rightarrow> refs s a + holds p a = holds (pcs s ! t) a
      | Some (rc, _) \<Rightarrow> rc + holds (pcs s ! t) a = refs s a + holds p a \<and> rc > 0"
      using pos r [of a] by auto
  qed (use k new d in \<open>auto simp: intrusive_ptr_release_def goto_def value_at_def split: if_splits\<close>)
  then show ?thesis using d by (simp add: intrusive_ptr_release_def)
qed


lemma inv_copy:
  assumes i: "cow_inv ops c s" and t: "t < length (pcs s)" "pcs s ! t = Held n a"
    and d: "value_at s a = Some d" "ops t d = Inr d'"
  shows "cow_inv ops c (goto t (Ready n a (nxt s)) (s\<lparr>heap := (heap s)(nxt s \<mapsto> (1, d')), nxt := nxt s + 1\<rparr>))"
    (is "cow_inv ops c ?s")
proof -
  note ok = inv_parts [OF i]
  note bounds = address_bounds [OF ok(2)]
  have a: "a < nxt s" using bounds(3) [OF t(1)] t(2) by simp
  have p: "pcs ?s = (pcs s)[t := Ready n a (nxt s)]" by simp
  have refs: "refs ?s x = refs s x + of_bool (x = nxt s)" for x
    using refs_step [OF t(1) p, of x] t(2) by simp
  have "refs s (nxt s) = 0" using counted_dead [OF ok(1)] bounds(2) by simp
  then have "counted ?s"
    by (intro counted_update [OF ok(1), of _ "nxt s" "Some (1, d')"]) (simp_all add: refs [simplified])
  moreover have "addresses_ok ?s"
  proof (rule addresses_update [OF ok(2) t(1) p])
    show "b < nxt ?s \<and> (\<forall>u<length (pcs s). u \<noteq> t \<longrightarrow> own_copy (pcs s ! u) \<noteq> Some b)" if "known (Ready n a (nxt s)) = Some b" for b
      using that a own_not_known [OF ok(2) t(1)] t(2) by auto
    show "b < nxt ?s \<and> b \<noteq> cell ?s \<and> known (Ready n a (nxt s)) \<noteq> Some b \<and>
        (\<forall>u<length (pcs s). u \<noteq> t \<longrightarrow> known (pcs s ! u) \<noteq> Some b \<and> own_copy (pcs s ! u) \<noteq> Some b)"
      if "own_copy (Ready n a (nxt s)) = Some b" for b
      using that a bounds(1) bounds(3) addresses_own(1) [OF ok(2)] by fastforce
    show "own_copy (pcs s ! u) \<noteq> Some (cell ?s)" if "u < length (pcs s)" "u \<noteq> t" for u
      using own_not_cell [OF ok(2) that(1)] by simp
  qed (use bounds in auto)
  moreover have "stable s ?s" using bounds(2) [of "nxt s"] by (auto simp: stable_def value_at_def split: if_splits)
  ultimately show ?thesis
    using a d by (intro inv_update [OF i t(1) p]) (auto simp: value_at_def)
qed

lemma replay_append: "replay ops (ts @ us) c = bindE (replay ops ts c) (replay ops us)"
  by (induction ts arbitrary: c) (simp_all add: bindE_def split: sum.splits)

lemma inv_commit:
  assumes i: "cow_inv ops c s" and t: "t < length (pcs s)" "pcs s ! t = Ready n (cell s) b"
  shows "cow_inv ops c (goto t (Won (cell s)) (s\<lparr>cell := b, commits := commits s @ [t]\<rparr>))" (is "cow_inv ops c ?s")
proof -
  note ok = inv_parts [OF i]
  note bounds = address_bounds [OF ok(2)]
  have own: "own_copy (pcs s ! t) = Some b" using t(2) by simp
  note o = addresses_own [OF ok(2) t(1) own]
  have p: "pcs ?s = (pcs s)[t := Won (cell s)]" by simp
  have refs: "refs ?s x = refs s x" for x
    using refs_step [OF t(1) p, of x] t(2) by (auto simp: of_bool_def split: if_splits)
  have counted: "counted ?s" using ok(1) unfolding counted_def refs by simp
  have addresses: "addresses_ok ?s"
  proof (rule addresses_update [OF ok(2) t(1) p])
    show "x < nxt ?s \<and> (\<forall>u<length (pcs s). u \<noteq> t \<longrightarrow> own_copy (pcs s ! u) \<noteq> Some x)" if "known (Won (cell s)) = Some x" for x
      using that bounds(1) own_not_cell [OF ok(2)] by simp
    show "own_copy (pcs s ! u) \<noteq> Some (cell ?s)" if "u < length (pcs s)" "u \<noteq> t" for u
      using o(4) [OF that] by simp
  qed (use bounds o in auto)
  have copies: "copies_ok ops s" using i by (simp add: cow_inv_def)
  then obtain d d' where d: "value_at s (cell s) = Some d" "value_at s b = Some d'" "ops t d = Inr d'"
    using t unfolding copies_ok_def by blast
  have "stable s ?s" by (auto simp: stable_def value_at_def)
  then have copies': "copies_ok ops ?s" by (rule copies_update [OF copies t(1) p counted]) simp
  have "replay ops (commits s) c = Inr d" using i d(1) by (auto simp: cow_inv_def)
  then have "replay ops (commits s @ [t]) c = Inr d'" using d(3) by (simp add: replay_append bindE_def)
  with counted addresses copies' d(2) show ?thesis by (simp add: cow_inv_def value_at_def)
qed

lemma inv_same:
  assumes "cow_inv ops c s" "t < length (pcs s)" "\<And>x. holds p x = holds (pcs s ! t) x"
    "known p \<in> {None, known (pcs s ! t), Some (cell s)}" "own_copy p \<in> {None, own_copy (pcs s ! t)}" "\<And>n a b. p \<noteq> Ready n a b"
  shows "cow_inv ops c (goto t p s)"
proof -
  obtain d where "heap s (cell s) = Some (refs s (cell s), d)"
    using counted_alive [OF inv_parts(1) [OF assms(1)], of "cell s"] by (auto simp: refs_def)
  then show ?thesis
    using counted_count [OF inv_parts(1) [OF assms(1)], of "cell s"] assms(3-)
    by (intro inv_local [OF assms(1,2), of _ p "cell s" "heap s (cell s)"]) (auto simp: value_at_def)
qed

lemma step_inv:
  assumes i: "cow_inv ops c s" and f: "\<not> fault (step ops t s)"
  shows "cow_inv ops c (step ops t s)"
proof (cases "t < length (pcs s)")
  case False
  then show ?thesis using i by (simp add: step_def)
next
  case t: True
  note ok = inv_parts [OF i]
  show ?thesis
  proof (cases "pcs s ! t")
    case (Start n)
    then show ?thesis using t by (auto simp: step_def intro!: inv_same [OF i t])
  next
    case (Loaded n a)
    with t f obtain rc d where a: "heap s a = Some (rc, d)"
      by (cases "heap s a") (auto simp: step_def intrusive_ptr_add_ref_def)
    with Loaded t counted_count [OF ok(1) a] show ?thesis
      by (auto simp: step_def intrusive_ptr_add_ref_def value_at_def
          intro!: inv_local [OF i t, of _ "Held n a" a "Some (rc + 1, d)"])
  next
    case (Held n a)
    with t f obtain rc d where a: "heap s a = Some (rc, d)" by (cases "heap s a") (auto simp: step_def)
    show ?thesis
    proof (cases "ops t d")
      case (Inl e)
      then show ?thesis using a t Held by (auto simp: step_def intro!: inv_same [OF i t])
    next
      case (Inr d')
      with a t Held inv_copy [OF i t Held] show ?thesis by (simp add: step_def value_at_def)
    qed
  next
    case (Ready n a b)
    then show ?thesis
      using t inv_commit [OF i t] by (auto simp: step_def intro!: inv_same [OF i t])
  next
    case (Won a)
    then show ?thesis using t inv_release [OF i t, of "Won_held a" a] by (simp add: step_def)
  next
    case (Won_held a)
    then show ?thesis using t inv_release [OF i t, of "Done None" a] by (simp add: step_def)
  next
    case (Lost n a b)
    then show ?thesis using t inv_release [OF i t, of "Drop n b" a] by (simp add: step_def)
  next
    case (Drop n b)
    with refs_own_copy [OF ok(2) t] t show ?thesis
      by (auto simp: step_def intro!: inv_local [OF i t, of _ "Start (n + 1)" b None])
  next
    case (Refused a e)
    then show ?thesis using t inv_release [OF i t, of "Done (Some e)" a] by (simp add: step_def)
  next
    case (Done r)
    then show ?thesis using t i by (simp add: step_def)
  qed
qed



subsection \<open>Who has committed, and progress\<close>

fun winner :: "pc \<Rightarrow> bool" where
  "winner (Won a) = True"
| "winner (Won_held a) = True"
| "winner (Done r) = (r = None)"
| "winner _ = False"

text \<open>Steps of its own that a thread needs at most.\<close>

fun rank :: "pc \<Rightarrow> nat" where
  "rank (Start n) = 6 * (max_retries - n) + 1"
| "rank (Loaded n a) = 6 * (max_retries - n)"
| "rank (Held n a) = 6 * (max_retries - n) - 1"
| "rank (Ready n a b) = 6 * (max_retries - n) - 2"
| "rank (Lost n a b) = 6 * (max_retries - n) - 3"
| "rank (Drop n b) = 6 * (max_retries - n) - 4"
| "rank (Won a) = 2"
| "rank (Won_held a) = 1"
| "rank (Refused a e) = 1"
| "rank (Done r) = 0"

fun attempt :: "pc \<Rightarrow> bool" where
  "attempt (Loaded n a) = (n < max_retries)"
| "attempt (Held n a) = (n < max_retries)"
| "attempt (Ready n a b) = (n < max_retries)"
| "attempt (Lost n a b) = (n < max_retries)"
| "attempt (Drop n b) = (n < max_retries)"
| "attempt _ = True"

definition progress_inv :: "'c cow \<Rightarrow> bool" where
  "progress_inv s \<longleftrightarrow> distinct (commits s) \<and> set (commits s) = {t. t < length (pcs s) \<and> winner (pcs s ! t)} \<and>
     (\<forall>t<length (pcs s). attempt (pcs s ! t))"

lemma ptr_simps [simp]:
  "pcs (intrusive_ptr_release a s) = pcs s" "commits (intrusive_ptr_release a s) = commits s"
  "pcs (intrusive_ptr_add_ref a s) = pcs s" "commits (intrusive_ptr_add_ref a s) = commits s"
  by (simp_all add: intrusive_ptr_release_def intrusive_ptr_add_ref_def split: option.splits)

text \<open>A step of thread \<open>t\<close> seen from the program counters: only its own changes.\<close>

definition advances :: "nat \<Rightarrow> 'c cow \<Rightarrow> 'c cow \<Rightarrow> bool" where
  "advances t s s' \<longleftrightarrow> pcs s' = (pcs s)[t := pcs s' ! t] \<and> attempt (pcs s' ! t) \<and>
     rank (pcs s' ! t) \<le> rank (pcs s ! t) - 1 \<and>
     (if winner (pcs s' ! t) \<and> \<not> winner (pcs s ! t) then commits s' = commits s @ [t]
      else commits s' = commits s \<and> (winner (pcs s' ! t) \<longleftrightarrow> winner (pcs s ! t)))"

lemma step_advances:
  assumes "t < length (pcs s)" "attempt (pcs s ! t)" "\<not> fault (step ops t s)"
  shows "advances t s (step ops t s)"
proof (cases "pcs s ! t")
  case (Held n a)
  then obtain rc d where "heap s a = Some (rc, d)" using assms by (cases "heap s a") (auto simp: step_def)
  then show ?thesis using assms Held by (cases "ops t d") (auto simp: advances_def step_def max_retries_def)
next
  case (Done r)
  then have "step ops t s = s" using assms by (simp add: step_def)
  moreover have "(pcs s)[t := Done r] = pcs s" using list_update_id [of "pcs s" t] Done by simp
  ultimately show ?thesis using assms Done by (auto simp: advances_def)
qed (use assms in \<open>auto simp: advances_def step_def max_retries_def\<close>)

lemma advances_progress:
  assumes "progress_inv s" "t < length (pcs s)" "advances t s s'"
  shows "progress_inv s'"
proof -
  obtain p where p: "pcs s' = (pcs s)[t := p]" "attempt p"
    "if winner p \<and> \<not> winner (pcs s ! t) then commits s' = commits s @ [t]
      else commits s' = commits s \<and> (winner p \<longleftrightarrow> winner (pcs s ! t))"
    using assms(3) unfolding advances_def by blast
  have i: "distinct (commits s)" "\<And>u. u \<in> set (commits s) \<longleftrightarrow> u < length (pcs s) \<and> winner (pcs s ! u)"
    "\<And>u. u < length (pcs s) \<Longrightarrow> attempt (pcs s ! u)"
    using assms(1) by (auto simp: progress_inv_def)
  have "attempt (pcs s' ! u)" if "u < length (pcs s)" for u
    using that p(1,2) i(3) by (cases "u = t") simp_all
  moreover have "distinct (commits s') \<and> (\<forall>u. u \<in> set (commits s') \<longleftrightarrow> u < length (pcs s) \<and> winner (pcs s' ! u))"
    using p(3) assms(2) i(1,2) by (auto simp: p(1) nth_list_update split: if_splits)
  ultimately show ?thesis by (auto simp: progress_inv_def p(1))
qed

lemma step_keeps_fault: "fault s \<Longrightarrow> fault (step ops t s)"
  by (auto simp: step_def intrusive_ptr_release_def intrusive_ptr_add_ref_def split: pc.splits option.splits sum.splits)

lemma step_outside: "t \<ge> length (pcs s) \<Longrightarrow> step ops t s = s"
  by (simp add: step_def)

lemma run_snoc: "run ops (sched @ [t]) s = step ops t (run ops sched s)"
  by (simp add: run_def)

lemma start_inv: "cow_inv ops c (start k c)" "progress_inv (start k c)"
proof -
  have "refs (start k c) x = of_bool (x = 0)" for x
    by (auto simp: refs_def start_def sum_list_replicate)
  then show "cow_inv ops c (start k c)"
    by (auto simp: cow_inv_def counted_def addresses_ok_def copies_ok_def value_at_def start_def)
  show "progress_inv (start k c)" by (auto simp: progress_inv_def start_def)
qed

lemma run_inv:
  assumes "\<not> fault (run ops sched (start k c))"
  shows "cow_inv ops c (run ops sched (start k c)) \<and> progress_inv (run ops sched (start k c)) \<and>
    length (pcs (run ops sched (start k c))) = k \<and>
    (\<forall>t<k. rank (pcs (run ops sched (start k c)) ! t) \<le> 601 - count_list sched t)"
  using assms
proof (induction sched rule: rev_induct)
  case Nil
  then show ?case using start_inv by (auto simp: run_def start_def max_retries_def)
next
  case (snoc u sched)
  let ?s = "run ops sched (start k c)"
  have f: "\<not> fault (step ops u ?s)" using snoc.prems by (simp add: run_snoc)
  then have "\<not> fault ?s" using step_keeps_fault by blast
  note IH = snoc.IH [OF this]
  show ?case
  proof (cases "u < k")
    case False
    then show ?thesis using IH by (simp add: run_snoc step_outside count_list_append)
  next
    case True
    then have u: "u < length (pcs ?s)" "attempt (pcs ?s ! u)" using IH by (simp_all add: progress_inv_def)
    note a = step_advances [OF u f]
    then obtain p where p: "pcs (step ops u ?s) = (pcs ?s)[u := p]" "rank p \<le> rank (pcs ?s ! u) - 1"
      unfolding advances_def by blast
    have "rank (pcs (step ops u ?s) ! t) \<le> 601 - count_list (sched @ [u]) t" if "t < k" for t
      using IH that True p by (auto simp: nth_list_update count_list_append)
    with IH step_inv [OF _ f] advances_progress [OF _ u(1) a] p(1) show ?thesis by (simp add: run_snoc)
  qed
qed


subsection \<open>Properties\<close>

text \<open>
  C12.  As long as no thread touches a released copy, updates of a node by any number of threads
  in any order lose nothing: the contents are the start contents with the operations of the
  committed threads applied one after the other, a thread has committed, once, exactly when its
  swap succeeded, and a thread that has taken 601 steps has returned.
\<close>

theorem cow_updates_linearize:
  assumes "\<not> fault (run ops sched (start k c))"
  shows "let s = run ops sched (start k c) in
    (\<exists>c'. map_option snd (heap s (cell s)) = Some c' \<and> replay ops (commits s) c = Inr c') \<and>
    distinct (commits s) \<and>
    (\<forall>t<k. (pcs s ! t = Done None \<longrightarrow> t \<in> set (commits s)) \<and>
           (\<forall>e. pcs s ! t = Done (Some e) \<longrightarrow> t \<notin> set (commits s)) \<and>
           (count_list sched t \<ge> 601 \<longrightarrow> (\<exists>r. pcs s ! t = Done r)))"
proof -
  let ?s = "run ops sched (start k c)"
  have "\<exists>r. pcs ?s ! t = Done r" if "t < k" "count_list sched t \<ge> 601" for t
  proof -
    have "rank (pcs ?s ! t) = 0" "attempt (pcs ?s ! t)"
      using run_inv [OF assms] that by (auto simp: progress_inv_def)
    then show ?thesis by (cases "pcs ?s ! t") (auto simp: max_retries_def)
  qed
  with run_inv [OF assms] show ?thesis
    by (auto simp: Let_def cow_inv_def progress_inv_def value_at_def)
qed

theorem cow_updates_linearize_witness:
  "\<forall>opts. let s = run (\<lambda>t. add_subscriber \<lparr>sub_client = [of_nat t], sub_info = opts\<rparr>) [0, 0, 0, 0, 0, 0, 1, 1, 1, 1, 1, 1] (start 2 empty_node)
   in commits s = [0, 1] \<and> (\<exists>c'. map_option snd (heap s (cell s)) = Some c' \<and>
     replay (\<lambda>t. add_subscriber \<lparr>sub_client = [of_nat t], sub_info = opts\<rparr>) (commits s) empty_node = Inr c')"
proof
  fix opts
  show "let s = run (\<lambda>t. add_subscriber \<lparr>sub_client = [of_nat t], sub_info = opts\<rparr>) [0, 0, 0, 0, 0, 0, 1, 1, 1, 1, 1, 1] (start 2 empty_node)
   in commits s = [0, 1] \<and> (\<exists>c'. map_option snd (heap s (cell s)) = Some c' \<and>
     replay (\<lambda>t. add_subscriber \<lparr>sub_client = [of_nat t], sub_info = opts\<rparr>) (commits s) empty_node = Inr c')"
  using cow_updates_linearize [of "\<lambda>t. add_subscriber \<lparr>sub_client = [of_nat t], sub_info = opts\<rparr>"
      "[0, 0, 0, 0, 0, 0, 1, 1, 1, 1, 1, 1]" 2 empty_node]
  by (simp add: Let_def run_def start_def step_def goto_def intrusive_ptr_add_ref_def intrusive_ptr_release_def
      max_retries_def add_subscriber_def numeral_2_eq_2)
qed


end
