(* ===== verification/Log_Codec.thy ===== *)
theory Log_Codec
  imports Prelude
begin

text \<open>
  The records of the journal: \<^verbatim>\<open>Encoder\<close>, \<^verbatim>\<open>Decoder\<close>, the subscription and the
  retain records of \<^verbatim>\<open>src/session/mqtt_log_codec.h\<close>, and the checksum and topic hash of
  \<^verbatim>\<open>src/session/mqtt_append_log.cpp\<close>.  A decoder is a function from the bytes not read
  yet; an exception is the left value that names its message.
\<close>

datatype journal_err =
    TruncatedRecord | TrailingFields | StringTooLarge
  | InvalidSubscriptionOptions | SubscriptionQosMismatch | UnsupportedSubscriptionVersion
  | UnsupportedRetainVersion | InvalidRetainedTopic | InvalidRetainRecord | InvalidRetainedQos
  | InvalidRetainedExpiry | EmptyRetainedPayload
  | IncompleteHeader | InvalidMagic | CorruptHeader | InvalidRecordSize
  | IncompleteSegment | IncompleteRecord | ChecksumMismatch | SequenceRegression | MissingRecords
  | InvalidReference | IoError | QuotaExhausted | AdmissionFull | WriterUnavailable | WriterFailed | Stopping
  | UnexpectedFile | InvalidSegmentId | OutOfRange

type_synonym 'a jresult = "journal_err + 'a"
type_synonym 'a decoder = "bytes \<Rightarrow> ('a \<times> bytes) jresult"

subsection \<open>Encoder and decoder\<close>

definition enc_u8 :: "byte \<Rightarrow> bytes" where
  "enc_u8 v = [v]"

definition enc_u32 :: "u32 \<Rightarrow> bytes" where
  "enc_u32 v = concat (map (\<lambda>i. enc_u8 (ucast (drop_bit (8 * i) v))) [0..<4])"

definition enc_u64 :: "u64 \<Rightarrow> bytes" where
  "enc_u64 v = concat (map (\<lambda>i. enc_u8 (ucast (drop_bit (8 * i) v))) [0..<8])"

definition enc_text :: "bytes \<Rightarrow> bytes jresult" where
  "enc_text s = (if length s > 0xffffffff then Inl StringTooLarge else Inr (enc_u32 (of_nat (length s)) @ s))"

definition dec_need :: "nat \<Rightarrow> bytes \<Rightarrow> unit jresult" where
  "dec_need n bs = (if n > length bs then Inl TruncatedRecord else Inr ())"

definition dec_u8 :: "byte decoder" where
  "dec_u8 bs = bindE (dec_need 1 bs) (\<lambda>_. Inr (hd bs, tl bs))"

text \<open>\<open>n\<close> more bytes, the next one shifted by \<open>8 * i\<close>.\<close>

fun dec_word :: "nat \<Rightarrow> nat \<Rightarrow> 'a::len word \<Rightarrow> 'a word decoder" where
  "dec_word i 0 v bs = Inr (v, bs)"
| "dec_word i (Suc n) v bs =
     bindE (dec_u8 bs) (\<lambda>(b, bs). dec_word (i + 1) n (v OR push_bit (8 * i) (ucast b)) bs)"

definition dec_u32 :: "u32 decoder" where
  "dec_u32 = dec_word 0 4 0"

definition dec_u64 :: "u64 decoder" where
  "dec_u64 = dec_word 0 8 0"

definition dec_text :: "bytes decoder" where
  "dec_text bs = bindE (dec_u32 bs) (\<lambda>(n, bs).
     bindE (dec_need (unat n) bs) (\<lambda>_. Inr (take (unat n) bs, drop (unat n) bs)))"

definition dec_end :: "bytes \<Rightarrow> unit jresult" where
  "dec_end bs = (if bs \<noteq> [] then Inl TrailingFields else Inr ())"


subsection \<open>Subscription records\<close>

definition kStoredSubscriptionVersion :: byte where
  "kStoredSubscriptionVersion = 1"

record stored_subscription =
  ss_qos :: byte
  ss_no_local :: bool
  ss_retain_as_published :: bool
  ss_retain_handling :: byte

definition subscription_flags :: "stored_subscription \<Rightarrow> byte" where
  "subscription_flags sub =
     (ss_qos sub AND 0x03) OR (if ss_no_local sub then 0x04 else 0) OR
     (if ss_retain_as_published sub then 0x08 else 0) OR push_bit 4 (ss_retain_handling sub AND 0x03)"

definition apply_subscription_flags :: "byte \<Rightarrow> stored_subscription \<Rightarrow> stored_subscription jresult" where
  "apply_subscription_flags flags sub =
     (if flags AND 0xC0 \<noteq> 0 \<or> drop_bit 4 flags AND 0x03 = 3 then Inl InvalidSubscriptionOptions
      else if flags AND 0x03 \<noteq> ss_qos sub AND 0x03 then Inl SubscriptionQosMismatch
      else Inr (sub\<lparr>ss_no_local := flags AND 0x04 \<noteq> 0, ss_retain_as_published := flags AND 0x08 \<noteq> 0,
                    ss_retain_handling := drop_bit 4 flags AND 0x03\<rparr>))"

definition write_subscription_record :: "bytes \<Rightarrow> stored_subscription \<Rightarrow> bytes jresult" where
  "write_subscription_record filt sub =
     bindE (enc_text filt) (\<lambda>t.
       Inr (t @ enc_u8 (ss_qos sub) @ enc_u8 kStoredSubscriptionVersion @ enc_u8 (subscription_flags sub)))"

definition read_subscription_options :: "stored_subscription \<Rightarrow> stored_subscription decoder" where
  "read_subscription_options sub bs =
     bindE (dec_u8 bs) (\<lambda>(version, bs).
       if version \<noteq> kStoredSubscriptionVersion then Inl UnsupportedSubscriptionVersion
       else bindE (dec_u8 bs) (\<lambda>(flags, bs).
         bindE (apply_subscription_flags flags sub) (\<lambda>sub. Inr (sub, bs))))"

definition read_legacy_subscription_options :: "stored_subscription \<Rightarrow> stored_subscription decoder" where
  "read_legacy_subscription_options sub bs =
     (if bs = [] then Inr (sub, bs) else read_subscription_options sub bs)"


subsection \<open>Retain records\<close>

definition kStoredRetainVersion :: byte where "kStoredRetainVersion = 2"
definition kRetainSet :: byte where "kRetainSet = 1"
definition kRetainClear :: byte where "kRetainClear = 2"

record stored_retain =
  sr_topic :: bytes
  sr_qos :: byte
  sr_expires_ms :: u64
  sr_payload :: bytes
  sr_sender :: bytes
  sr_has_payload_format :: bool
  sr_payload_format :: byte
  sr_content_type :: bytes
  sr_response_topic :: bytes
  sr_correlation_data :: bytes
  sr_user_properties :: "(bytes \<times> bytes) list"

definition empty_retain :: stored_retain where
  "empty_retain = \<lparr>sr_topic = [], sr_qos = 0, sr_expires_ms = 0, sr_payload = [], sr_sender = [],
     sr_has_payload_format = False, sr_payload_format = 0, sr_content_type = [], sr_response_topic = [],
     sr_correlation_data = [], sr_user_properties = []\<rparr>"

definition retain_flags :: "stored_retain \<Rightarrow> byte" where
  "retain_flags item =
     (let flags = 0;
          flags = (if sr_has_payload_format item then flags OR 1 else flags);
          flags = (if sr_content_type item \<noteq> [] then flags OR 2 else flags);
          flags = (if sr_response_topic item \<noteq> [] then flags OR 4 else flags);
          flags = (if sr_correlation_data item \<noteq> [] then flags OR 8 else flags)
      in if sr_user_properties item \<noteq> [] then flags OR 16 else flags)"

definition opt_enc :: "bool \<Rightarrow> bytes jresult \<Rightarrow> bytes jresult" where
  "opt_enc b e = (if b then e else Inr [])"

fun enc_seq :: "bytes jresult list \<Rightarrow> bytes jresult" where
  "enc_seq [] = Inr []"
| "enc_seq (e # es) = bindE e (\<lambda>b. bindE (enc_seq es) (\<lambda>bs. Inr (b @ bs)))"

definition enc_pairs :: "(bytes \<times> bytes) list \<Rightarrow> bytes jresult" where
  "enc_pairs ps = enc_seq (Inr (enc_u32 (of_nat (length ps))) # concat (map (\<lambda>(k, v). [enc_text k, enc_text v]) ps))"

definition write_retain_properties :: "stored_retain \<Rightarrow> bytes jresult" where
  "write_retain_properties item =
     (let flags = retain_flags item in
      enc_seq [Inr (enc_u8 flags),
        opt_enc (flags AND 1 \<noteq> 0) (Inr (enc_u8 (sr_payload_format item))),
        opt_enc (flags AND 2 \<noteq> 0) (enc_text (sr_content_type item)),
        opt_enc (flags AND 4 \<noteq> 0) (enc_text (sr_response_topic item)),
        opt_enc (flags AND 8 \<noteq> 0) (enc_text (sr_correlation_data item)),
        opt_enc (flags AND 16 \<noteq> 0) (enc_pairs (sr_user_properties item))])"

fun dec_pairs_loop :: "nat \<Rightarrow> (bytes \<times> bytes) list \<Rightarrow> (bytes \<times> bytes) list decoder" where
  "dec_pairs_loop 0 ps bs = Inr (ps, bs)"
| "dec_pairs_loop (Suc n) ps bs =
     bindE (dec_text bs) (\<lambda>(k, bs). bindE (dec_text bs) (\<lambda>(v, bs). dec_pairs_loop n (ps @ [(k, v)]) bs))"

definition dec_pairs :: "(bytes \<times> bytes) list decoder" where
  "dec_pairs bs = bindE (dec_u32 bs) (\<lambda>(count, bs). dec_pairs_loop (unat count) [] bs)"

definition opt_dec :: "bool \<Rightarrow> 'a decoder \<Rightarrow> ('a \<Rightarrow> 'r \<Rightarrow> 'r) \<Rightarrow> 'r \<Rightarrow> 'r decoder" where
  "opt_dec b d upd r bs = (if b then bindE (d bs) (\<lambda>(x, bs). Inr (upd x r, bs)) else Inr (r, bs))"

definition read_retain_properties :: "stored_retain \<Rightarrow> stored_retain decoder" where
  "read_retain_properties item bs =
     bindE (dec_u8 bs) (\<lambda>(flags, bs).
     bindE (opt_dec (flags AND 1 \<noteq> 0) dec_u8 (\<lambda>x r. r\<lparr>sr_has_payload_format := True, sr_payload_format := x\<rparr>) item bs) (\<lambda>(item, bs).
     bindE (opt_dec (flags AND 2 \<noteq> 0) dec_text (\<lambda>x r. r\<lparr>sr_content_type := x\<rparr>) item bs) (\<lambda>(item, bs).
     bindE (opt_dec (flags AND 4 \<noteq> 0) dec_text (\<lambda>x r. r\<lparr>sr_response_topic := x\<rparr>) item bs) (\<lambda>(item, bs).
     bindE (opt_dec (flags AND 8 \<noteq> 0) dec_text (\<lambda>x r. r\<lparr>sr_correlation_data := x\<rparr>) item bs) (\<lambda>(item, bs).
       opt_dec (flags AND 16 \<noteq> 0) dec_pairs (\<lambda>x r. r\<lparr>sr_user_properties := x\<rparr>) item bs)))))"

definition write_retain_set :: "stored_retain \<Rightarrow> bytes jresult" where
  "write_retain_set item =
     enc_seq [Inr (enc_u8 kRetainSet), Inr (enc_u8 kStoredRetainVersion), enc_text (sr_topic item),
       Inr (enc_u8 (sr_qos item)), Inr (enc_u64 (sr_expires_ms item)), enc_text (sr_payload item),
       enc_text (sr_sender item), write_retain_properties item]"

definition write_retain_clear :: "bytes \<Rightarrow> bytes jresult" where
  "write_retain_clear topic =
     enc_seq [Inr (enc_u8 kRetainClear), Inr (enc_u8 kStoredRetainVersion), enc_text topic]"

definition retained_topic_ok :: "bytes \<Rightarrow> bool" where
  "retained_topic_ok topic \<longleftrightarrow> topic \<noteq> [] \<and> 0x2B \<notin> set topic \<and> 0x23 \<notin> set topic \<and> 0 \<notin> set topic"

text \<open>The record and whether it is a deletion; the decoder consumes the whole body.\<close>

definition read_retain_record :: "bytes \<Rightarrow> (stored_retain \<times> bool) jresult" where
  "read_retain_record bs =
     bindE (dec_u8 bs) (\<lambda>(kind, bs).
     bindE (dec_u8 bs) (\<lambda>(version, bs).
     if version \<noteq> 1 \<and> version \<noteq> kStoredRetainVersion then Inl UnsupportedRetainVersion
     else bindE (dec_text bs) (\<lambda>(topic, bs).
     let item = empty_retain\<lparr>sr_topic := topic\<rparr> in
     if \<not> retained_topic_ok topic then Inl InvalidRetainedTopic
     else if kind = kRetainClear then bindE (dec_end bs) (\<lambda>_. Inr (item, True))
     else if kind \<noteq> kRetainSet then Inl InvalidRetainRecord
     else bindE (dec_u8 bs) (\<lambda>(q, bs).
     if q > 2 then Inl InvalidRetainedQos
     else bindE (dec_u64 bs) (\<lambda>(expires, bs).
     if sint expires < 0 then Inl InvalidRetainedExpiry
     else bindE (dec_text bs) (\<lambda>(payload, bs).
     if payload = [] then Inl EmptyRetainedPayload
     else bindE (dec_text bs) (\<lambda>(sender, bs).
     let item = item\<lparr>sr_qos := q, sr_expires_ms := expires, sr_payload := payload, sr_sender := sender\<rparr> in
     bindE (if version \<ge> 2 then read_retain_properties item bs else Inr (item, bs)) (\<lambda>(item, bs).
     bindE (dec_end bs) (\<lambda>_. Inr (item, False))))))))))"



subsection \<open>A field is read back from what was written\<close>

text \<open>What a reader promises of a writer: it takes exactly the bytes written and returns the value.\<close>

locale field_codec =
  fixes enc :: "'a \<Rightarrow> bytes jresult" and dec :: "'a decoder" and ok :: "'a \<Rightarrow> bool"
  assumes write_read: "ok x \<Longrightarrow> \<exists>bs. enc x = Inr bs \<and> (\<forall>rest. dec (bs @ rest) = Inr (x, rest))"
begin

definition bytes_of :: "'a \<Rightarrow> bytes" where
  "bytes_of x = (case enc x of Inr bs \<Rightarrow> bs | Inl _ \<Rightarrow> [])"

lemma enc_bytes: "ok x \<Longrightarrow> enc x = Inr (bytes_of x)"
  using write_read [of x] by (auto simp: bytes_of_def)

lemma dec_bytes: "ok x \<Longrightarrow> dec (bytes_of x @ rest) = Inr (x, rest)"
  using write_read [of x] by (auto simp: bytes_of_def)

lemma opt_field:
  "(b \<Longrightarrow> ok x) \<Longrightarrow> opt_enc b (enc x) = Inr (if b then bytes_of x else []) \<and>
     opt_dec b dec upd r ((if b then bytes_of x else []) @ rest) = Inr (if b then upd x r else r, rest)"
  using enc_bytes [of x] dec_bytes [of x rest] by (simp add: opt_enc_def opt_dec_def)

end

lemma ucast_drop_byte: "ucast (drop_bit (8 * i) v) = byte_at i v"
  by (rule bit_word_eqI) (auto simp: bit_simps byte_simps)

lemma enc_u32_le: "enc_u32 v = le_bytes 4 v"
  by (simp add: enc_u32_def enc_u8_def le_bytes_def ucast_drop_byte del: upt_rec_numeral)

lemma enc_u64_le: "enc_u64 v = le_bytes 8 v"
  by (simp add: enc_u64_def enc_u8_def le_bytes_def ucast_drop_byte del: upt_rec_numeral)

lemma dec_u8_Cons [simp]: "dec_u8 (b # bs) = Inr (b, bs)"
  by (simp add: dec_u8_def dec_need_def)

lemma dec_u8_Nil [simp]: "dec_u8 [] = Inl TruncatedRecord"
  by (simp add: dec_u8_def dec_need_def)

lemma dec_word_append:
  "length bs = n \<Longrightarrow> dec_word i n v (bs @ rest) = Inr (v OR push_bit (8 * i) (le_word bs), rest)"
proof (induction bs arbitrary: i n v)
  case (Cons b bs)
  have "push_bit (8 * i + 8) x = push_bit (8 * i) (push_bit 8 x)" for x :: "'a word"
    by (simp add: push_bit_push_bit)
  with Cons show ?case
    by (cases n) (simp_all add: push_bit_or or.assoc ac_simps)
qed simp

lemma dec_u32_enc: "dec_u32 (enc_u32 v @ rest) = Inr (v, rest)"
  by (simp add: dec_u32_def enc_u32_le dec_word_append)

lemma dec_u64_enc: "dec_u64 (enc_u64 v @ rest) = Inr (v, rest)"
  by (simp add: dec_u64_def enc_u64_le dec_word_append)

lemma unat_of_length: "length s \<le> 0xffffffff \<Longrightarrow> unat (of_nat (length s) :: u32) = length s"
  by (simp add: unsigned_of_nat take_bit_nat_eq_self)

interpretation byte_field: field_codec "\<lambda>v. Inr (enc_u8 v)" dec_u8 "\<lambda>_. True"
  by unfold_locales (simp add: enc_u8_def)

interpretation u64_field: field_codec "\<lambda>v. Inr (enc_u64 v)" dec_u64 "\<lambda>_. True"
  by unfold_locales (simp add: dec_u64_enc)

interpretation text_field: field_codec enc_text dec_text "\<lambda>s. length s \<le> 0xffffffff"
  by unfold_locales (simp add: enc_text_def dec_text_def dec_need_def dec_u32_enc unat_of_length)

definition pairs_ok :: "(bytes \<times> bytes) list \<Rightarrow> bool" where
  "pairs_ok ps \<longleftrightarrow> length ps \<le> 0xffffffff \<and> (\<forall>(k, v)\<in>set ps. length k \<le> 0xffffffff \<and> length v \<le> 0xffffffff)"

lemma enc_pairs_loop:
  "\<forall>(k, v)\<in>set ps. length k \<le> 0xffffffff \<and> length v \<le> 0xffffffff \<Longrightarrow>
     \<exists>bs. enc_seq (concat (map (\<lambda>(k, v). [enc_text k, enc_text v]) ps)) = Inr bs \<and>
       (\<forall>acc rest. dec_pairs_loop (length ps) acc (bs @ rest) = Inr (acc @ ps, rest))"
proof (induction ps)
  case (Cons p ps)
  obtain k v where p: "p = (k, v)" by (cases p)
  obtain bs where bs: "enc_seq (concat (map (\<lambda>(k, v). [enc_text k, enc_text v]) ps)) = Inr bs"
    "\<And>acc rest. dec_pairs_loop (length ps) acc (bs @ rest) = Inr (acc @ ps, rest)"
    using Cons by auto
  have "length k \<le> 0xffffffff" "length v \<le> 0xffffffff" using Cons.prems p by auto
  then show ?case
    by (simp add: p text_field.enc_bytes text_field.dec_bytes bs)
qed simp

interpretation pairs_field: field_codec enc_pairs dec_pairs pairs_ok
proof
  fix ps assume ok: "pairs_ok ps"
  then obtain bs where bs: "enc_seq (concat (map (\<lambda>(k, v). [enc_text k, enc_text v]) ps)) = Inr bs"
    "\<And>acc rest. dec_pairs_loop (length ps) acc (bs @ rest) = Inr (acc @ ps, rest)"
    using enc_pairs_loop [of ps] by (auto simp: pairs_ok_def)
  have "unat (of_nat (length ps) :: u32) = length ps" using ok by (simp add: pairs_ok_def unsigned_of_nat take_bit_nat_eq_self)
  then show "\<exists>bs. enc_pairs ps = Inr bs \<and> (\<forall>rest. dec_pairs (bs @ rest) = Inr (ps, rest))"
    by (simp add: enc_pairs_def dec_pairs_def bs dec_u32_enc)
qed


subsection \<open>Records\<close>

definition retain_ok :: "stored_retain \<Rightarrow> bool" where
  "retain_ok r \<longleftrightarrow> retained_topic_ok (sr_topic r) \<and> sr_qos r \<le> 2 \<and> 0 \<le> sint (sr_expires_ms r) \<and> sr_payload r \<noteq> [] \<and>
     (\<forall>s\<in>{sr_topic r, sr_payload r, sr_sender r, sr_content_type r, sr_response_topic r, sr_correlation_data r}.
        length s \<le> 0xffffffff) \<and>
     pairs_ok (sr_user_properties r) \<and> (sr_has_payload_format r \<or> sr_payload_format r = 0)"

lemma retain_flags_bits:
  "retain_flags r AND 1 \<noteq> 0 \<longleftrightarrow> sr_has_payload_format r" "retain_flags r AND 2 \<noteq> 0 \<longleftrightarrow> sr_content_type r \<noteq> []"
  "retain_flags r AND 4 \<noteq> 0 \<longleftrightarrow> sr_response_topic r \<noteq> []" "retain_flags r AND 8 \<noteq> 0 \<longleftrightarrow> sr_correlation_data r \<noteq> []"
  "retain_flags r AND 16 \<noteq> 0 \<longleftrightarrow> sr_user_properties r \<noteq> []"
  by (simp_all add: retain_flags_def Let_def)

lemma retain_properties_roundtrip:
  assumes "retain_ok r" "sr_content_type q = []" "sr_response_topic q = []" "sr_correlation_data q = []"
    "sr_user_properties q = []" "\<not> sr_has_payload_format q" "sr_payload_format q = 0"
  shows "\<exists>bs. write_retain_properties r = Inr bs \<and> (\<forall>rest. read_retain_properties q (bs @ rest) =
    Inr (q\<lparr>sr_has_payload_format := sr_has_payload_format r, sr_payload_format := sr_payload_format r,
       sr_content_type := sr_content_type r, sr_response_topic := sr_response_topic r,
       sr_correlation_data := sr_correlation_data r, sr_user_properties := sr_user_properties r\<rparr>, rest))"
proof -
  have len: "length (sr_content_type r) \<le> 0xffffffff" "length (sr_response_topic r) \<le> 0xffffffff"
    "length (sr_correlation_data r) \<le> 0xffffffff" "pairs_ok (sr_user_properties r)"
    "\<not> sr_has_payload_format r \<Longrightarrow> sr_payload_format r = 0"
    using assms(1) by (auto simp: retain_ok_def)
  define P where "P = (if sr_has_payload_format r then byte_field.bytes_of (sr_payload_format r) else [])"
  define A where "A = (if sr_content_type r \<noteq> [] then text_field.bytes_of (sr_content_type r) else [])"
  define B where "B = (if sr_response_topic r \<noteq> [] then text_field.bytes_of (sr_response_topic r) else [])"
  define C where "C = (if sr_correlation_data r \<noteq> [] then text_field.bytes_of (sr_correlation_data r) else [])"
  define U where "U = (if sr_user_properties r \<noteq> [] then pairs_field.bytes_of (sr_user_properties r) else [])"
  note p = byte_field.opt_field [of "sr_has_payload_format r" "sr_payload_format r", folded P_def, OF TrueI]
  note a = text_field.opt_field [of "sr_content_type r \<noteq> []" "sr_content_type r", folded A_def, OF len(1)]
  note b = text_field.opt_field [of "sr_response_topic r \<noteq> []" "sr_response_topic r", folded B_def, OF len(2)]
  note c = text_field.opt_field [of "sr_correlation_data r \<noteq> []" "sr_correlation_data r", folded C_def, OF len(3)]
  note u = pairs_field.opt_field [of "sr_user_properties r \<noteq> []" "sr_user_properties r", folded U_def, OF len(4)]
  have "write_retain_properties r = Inr (enc_u8 (retain_flags r) @ P @ A @ B @ C @ U)"
    unfolding write_retain_properties_def Let_def retain_flags_bits
    by (simp add: p [THEN conjunct1] a [THEN conjunct1] b [THEN conjunct1] c [THEN conjunct1] u [THEN conjunct1])
  moreover have "read_retain_properties q ((enc_u8 (retain_flags r) @ P @ A @ B @ C @ U) @ rest) =
    Inr (q\<lparr>sr_has_payload_format := sr_has_payload_format r, sr_payload_format := sr_payload_format r,
       sr_content_type := sr_content_type r, sr_response_topic := sr_response_topic r,
       sr_correlation_data := sr_correlation_data r, sr_user_properties := sr_user_properties r\<rparr>, rest)" for rest
    using assms(2-) len(5)
    by (simp add: read_retain_properties_def enc_u8_def retain_flags_bits [simplified] p [THEN conjunct2] a [THEN conjunct2]
        b [THEN conjunct2] c [THEN conjunct2] u [THEN conjunct2])
  ultimately show ?thesis by blast
qed


definition subscription_ok :: "stored_subscription \<Rightarrow> bool" where
  "subscription_ok sub \<longleftrightarrow> ss_qos sub \<le> 2 \<and> ss_retain_handling sub \<le> 2"

lemma byte_le_two: "(b :: byte) \<le> 2 \<Longrightarrow> b = 0 \<or> b = 1 \<or> b = 2"
proof -
  assume "b \<le> 2"
  then have "unat b \<le> 2" by (simp add: word_le_nat_alt)
  then consider "unat b = 0" | "unat b = 1" | "unat b = 2" by linarith
  then show ?thesis by cases (simp_all add: word_unat_eq_iff)
qed

lemma subscription_flags_roundtrip:
  assumes "subscription_ok sub" "ss_qos old = ss_qos sub"
  shows "apply_subscription_flags (subscription_flags sub) old = Inr (old\<lparr>ss_no_local := ss_no_local sub,
    ss_retain_as_published := ss_retain_as_published sub, ss_retain_handling := ss_retain_handling sub\<rparr>)"
  using assms byte_le_two [of "ss_qos sub"] byte_le_two [of "ss_retain_handling sub"]
  by (auto simp: subscription_ok_def subscription_flags_def apply_subscription_flags_def)

lemma subscription_record_roundtrip:
  assumes "subscription_ok sub" "length filt \<le> 0xffffffff" "ss_qos old = ss_qos sub"
  shows "\<exists>bs tail. write_subscription_record filt sub = Inr (bs @ ss_qos sub # tail) \<and>
    (\<forall>rest. dec_text (bs @ rest) = Inr (filt, rest)) \<and>
    read_legacy_subscription_options old tail = Inr (sub\<lparr>ss_qos := ss_qos sub\<rparr>, [])"
proof -
  have "read_legacy_subscription_options old [kStoredSubscriptionVersion, subscription_flags sub] = Inr (sub, [])"
    using subscription_flags_roundtrip [OF assms(1,3)] assms(3)
    by (simp add: read_legacy_subscription_options_def read_subscription_options_def)
  moreover have "write_subscription_record filt sub =
      Inr (text_field.bytes_of filt @ ss_qos sub # [kStoredSubscriptionVersion, subscription_flags sub])"
    using text_field.enc_bytes [OF assms(2)] by (simp add: write_subscription_record_def enc_u8_def)
  ultimately show ?thesis using text_field.dec_bytes [OF assms(2)] by auto
qed

lemma retain_set_roundtrip:
  assumes "retain_ok r"
  shows "\<exists>bs. write_retain_set r = Inr bs \<and> read_retain_record bs = Inr (r, False)"
proof -
  let ?q = "empty_retain\<lparr>sr_topic := sr_topic r, sr_qos := sr_qos r, sr_expires_ms := sr_expires_ms r,
    sr_payload := sr_payload r, sr_sender := sr_sender r\<rparr>"
  obtain ps where ps: "write_retain_properties r = Inr ps" "\<And>rest. read_retain_properties ?q (ps @ rest) =
    Inr (?q\<lparr>sr_has_payload_format := sr_has_payload_format r, sr_payload_format := sr_payload_format r,
       sr_content_type := sr_content_type r, sr_response_topic := sr_response_topic r,
       sr_correlation_data := sr_correlation_data r, sr_user_properties := sr_user_properties r\<rparr>, rest)"
    using retain_properties_roundtrip [OF assms, of ?q] by (auto simp: empty_retain_def)
  have read: "read_retain_properties ?q ps = Inr (r, [])"
    using ps(2) [of "[]"] by (simp add: empty_retain_def)
  note len = assms [unfolded retain_ok_def, THEN conjunct2, THEN conjunct2, THEN conjunct2, THEN conjunct2, THEN conjunct1]
  note tx = text_field.enc_bytes text_field.dec_bytes
  let ?bs = "kRetainSet # kStoredRetainVersion # text_field.bytes_of (sr_topic r) @ sr_qos r # enc_u64 (sr_expires_ms r) @
    text_field.bytes_of (sr_payload r) @ text_field.bytes_of (sr_sender r) @ ps"
  have "write_retain_set r = Inr ?bs"
    using len by (simp add: write_retain_set_def enc_u8_def tx ps(1))
  moreover have "read_retain_record ?bs = Inr (r, False)"
    using len read assms
    by (simp add: read_retain_record_def tx dec_u64_enc retain_ok_def kRetainSet_def kRetainClear_def
        kStoredRetainVersion_def dec_end_def not_less)
  ultimately show ?thesis by blast
qed

lemma retain_clear_roundtrip:
  assumes "retained_topic_ok topic" "length topic \<le> 0xffffffff"
  shows "\<exists>bs. write_retain_clear topic = Inr bs \<and> read_retain_record bs = Inr (empty_retain\<lparr>sr_topic := topic\<rparr>, True)"
proof -
  have "dec_text (text_field.bytes_of topic) = Inr (topic, [])" using text_field.dec_bytes [OF assms(2), of "[]"] by simp
  with assms show ?thesis
    by (simp add: write_retain_clear_def read_retain_record_def enc_u8_def text_field.enc_bytes kRetainSet_def
        kRetainClear_def kStoredRetainVersion_def dec_end_def)
qed


subsection \<open>What is accepted can be written\<close>

lemma u32_bound: "unat (n :: u32) \<le> 0xffffffff"
proof -
  have "unat n < 2 ^ LENGTH(32)" by (rule unsigned_less)
  then show ?thesis by simp
qed

lemma dec_text_length: "dec_text bs = Inr (s, rest) \<Longrightarrow> length s \<le> 0xffffffff"
proof -
  assume "dec_text bs = Inr (s, rest)"
  then obtain n :: u32 where "length s = unat n"
    by (auto simp: dec_text_def dec_need_def bindE_eq_Inr split: if_splits)
  then show ?thesis using u32_bound [of n] by simp
qed

lemma dec_pairs_loop_ok:
  "dec_pairs_loop n acc bs = Inr (ps, rest) \<Longrightarrow>
     length ps = length acc + n \<and>
     (\<forall>(k, v)\<in>set ps. (k, v) \<in> set acc \<or> length k \<le> 0xffffffff \<and> length v \<le> 0xffffffff)"
proof (induction n acc bs rule: dec_pairs_loop.induct)
  case (2 n acc bs)
  then obtain k bs1 v bs2 where "dec_text bs = Inr (k, bs1)" "dec_text bs1 = Inr (v, bs2)"
    "dec_pairs_loop n (acc @ [(k, v)]) bs2 = Inr (ps, rest)"
    by (auto simp: bindE_eq_Inr)
  with 2(1) [OF this(1) refl this(2) refl this(3)] show ?case by (auto dest!: dec_text_length)
qed auto

lemma dec_pairs_ok: "dec_pairs bs = Inr (ps, rest) \<Longrightarrow> pairs_ok ps"
proof -
  assume "dec_pairs bs = Inr (ps, rest)"
  then obtain n :: u32 and bs' where "dec_pairs_loop (unat n) [] bs' = Inr (ps, rest)"
    by (auto simp: dec_pairs_def bindE_eq_Inr)
  from dec_pairs_loop_ok [OF this] u32_bound [of n] show ?thesis by (auto simp: pairs_ok_def)
qed


lemma if_Inl_eq_Inr: "(if c then Inl e else m) = Inr y \<longleftrightarrow> \<not> c \<and> m = Inr y"
  by simp

lemma opt_dec_Inr:
  "opt_dec b d upd r bs = Inr (r', rest) \<Longrightarrow> (\<not> b \<and> r' = r) \<or> (b \<and> (\<exists>x. d bs = Inr (x, rest) \<and> r' = upd x r))"
  by (auto simp: opt_dec_def bindE_eq_Inr split: if_splits)

lemma read_retain_properties_ok:
  assumes "read_retain_properties q bs = Inr (r, rest)" "retain_ok q"
  shows "retain_ok r"
proof -
  obtain flags :: byte and bs1 r1 bs2 r2 bs3 r3 bs4 r4 bs5 where
    s: "opt_dec (flags AND 1 \<noteq> 0) dec_u8 (\<lambda>x r. r\<lparr>sr_has_payload_format := True, sr_payload_format := x\<rparr>) q bs1 = Inr (r1, bs2)"
      "opt_dec (flags AND 2 \<noteq> 0) dec_text (\<lambda>x r. r\<lparr>sr_content_type := x\<rparr>) r1 bs2 = Inr (r2, bs3)"
      "opt_dec (flags AND 4 \<noteq> 0) dec_text (\<lambda>x r. r\<lparr>sr_response_topic := x\<rparr>) r2 bs3 = Inr (r3, bs4)"
      "opt_dec (flags AND 8 \<noteq> 0) dec_text (\<lambda>x r. r\<lparr>sr_correlation_data := x\<rparr>) r3 bs4 = Inr (r4, bs5)"
      "opt_dec (flags AND 16 \<noteq> 0) dec_pairs (\<lambda>x r. r\<lparr>sr_user_properties := x\<rparr>) r4 bs5 = Inr (r, rest)"
    using assms(1) unfolding read_retain_properties_def by (clarsimp simp: bindE_eq_Inr)
  have "retain_ok r1" using opt_dec_Inr [OF s(1)] assms(2) by (auto simp: retain_ok_def)
  then have "retain_ok r2" using opt_dec_Inr [OF s(2)] dec_text_length by (auto simp: retain_ok_def)
  then have "retain_ok r3" using opt_dec_Inr [OF s(3)] dec_text_length by (auto simp: retain_ok_def)
  then have "retain_ok r4" using opt_dec_Inr [OF s(4)] dec_text_length by (auto simp: retain_ok_def)
  then show ?thesis using opt_dec_Inr [OF s(5)] dec_pairs_ok by (auto simp: retain_ok_def)
qed

lemma read_retain_record_ok:
  assumes "read_retain_record bs = Inr (r, cleared)"
  shows "if cleared then retained_topic_ok (sr_topic r) \<and> length (sr_topic r) \<le> 0xffffffff \<and> r = empty_retain\<lparr>sr_topic := sr_topic r\<rparr>
    else retain_ok r"
proof -
  obtain kind bs1 version bs2 topic bs3 where s: "dec_u8 bs = Inr (kind, bs1)" "dec_u8 bs1 = Inr (version, bs2)"
    "dec_text bs2 = Inr (topic, bs3)"
    using assms unfolding read_retain_record_def by (auto simp: bindE_eq_Inr split: if_splits)
  note len = dec_text_length [OF s(3)]
  show ?thesis
  proof (cases "kind = kRetainClear")
    case True
    with assms s len show ?thesis
      unfolding read_retain_record_def by (auto simp: Let_def bindE_eq_Inr split: if_splits)
  next
    case False
    with assms s have topic: "retained_topic_ok topic"
      and e: "bindE (dec_u8 bs3) (\<lambda>(q, bs). if q > 2 then Inl InvalidRetainedQos
     else bindE (dec_u64 bs) (\<lambda>(expires, bs).
     if sint expires < 0 then Inl InvalidRetainedExpiry
     else bindE (dec_text bs) (\<lambda>(payload, bs).
     if payload = [] then Inl EmptyRetainedPayload
     else bindE (dec_text bs) (\<lambda>(sender, bs).
     let item = empty_retain\<lparr>sr_topic := topic, sr_qos := q, sr_expires_ms := expires, sr_payload := payload, sr_sender := sender\<rparr> in
     bindE (if version \<ge> 2 then read_retain_properties item bs else Inr (item, bs)) (\<lambda>(item, bs).
     bindE (dec_end bs) (\<lambda>_. Inr (item, False))))))) = Inr (r, cleared)"
      unfolding read_retain_record_def by (auto simp: Let_def split: if_splits)
    from e obtain q bs4 ex bs5 p bs6 sd bs7 bs8 where f: "\<not> q > 2" "\<not> sint ex < 0" "p \<noteq> []"
      "dec_text bs5 = Inr (p, bs6)" "dec_text bs6 = Inr (sd, bs7)" and c: "\<not> cleared"
      and i: "(if version \<ge> 2 then read_retain_properties (empty_retain\<lparr>sr_topic := topic, sr_qos := q, sr_expires_ms := ex, sr_payload := p, sr_sender := sd\<rparr>) bs7
        else Inr (empty_retain\<lparr>sr_topic := topic, sr_qos := q, sr_expires_ms := ex, sr_payload := p, sr_sender := sd\<rparr>, bs7)) = Inr (r, bs8)"
      by (clarsimp simp: Let_def bindE_eq_Inr if_Inl_eq_Inr)
    have "retain_ok (empty_retain\<lparr>sr_topic := topic, sr_qos := q, sr_expires_ms := ex, sr_payload := p, sr_sender := sd\<rparr>)"
      using topic len f dec_text_length [OF f(4)] dec_text_length [OF f(5)]
      by (simp add: retain_ok_def empty_retain_def pairs_ok_def)
    with i c read_retain_properties_ok show ?thesis by (auto split: if_splits)
  qed
qed



subsection \<open>Checksum and hash\<close>

definition crc_bit :: "u32 \<Rightarrow> u32" where
  "crc_bit c = drop_bit 1 c XOR (0xedb88320 AND (0 - (c AND 1)))"

definition crc_table :: "u32 list" where
  "crc_table = map (\<lambda>i. (crc_bit ^^ 8) (of_nat i)) [0..<256]"

definition crc_step :: "u32 \<Rightarrow> byte \<Rightarrow> u32" where
  "crc_step c b = (crc_table ! unat ((c XOR ucast b) AND 255)) XOR drop_bit 8 c"

definition checksum :: "bytes \<Rightarrow> u32" where
  "checksum data = foldl crc_step 0xffffffff data XOR 0xffffffff"

definition topic_hash :: "bytes \<Rightarrow> u64" where
  "topic_hash s = foldl (\<lambda>value c. (value XOR ucast c) * 1099511628211) 14695981039346656037 s"

lemma crc_bit_alt: "crc_bit c = drop_bit 1 c XOR (if bit c 0 then 0xedb88320 else 0)"
proof (cases "bit c 0")
  case True
  then have "c AND 1 = 1" by (simp add: and_one_eq bit_0 odd_iff_mod_2_eq_one)
  with True show ?thesis by (simp add: crc_bit_def)
next
  case False
  then have "c AND 1 = 0" by (simp add: and_one_eq bit_0 even_iff_mod_2_eq_zero)
  with False show ?thesis by (simp add: crc_bit_def)
qed

lemma crc_bit_xor: "crc_bit (a XOR b) = crc_bit a XOR crc_bit b"
  by (simp add: crc_bit_alt drop_bit_xor bit_xor_iff xor.assoc xor.commute xor.left_commute)

lemma crc_bits_xor: "(crc_bit ^^ n) (a XOR b) = (crc_bit ^^ n) a XOR (crc_bit ^^ n) b"
  by (induction n) (simp_all add: crc_bit_xor)

lemma crc_bits_high: "take_bit n c = 0 \<Longrightarrow> (crc_bit ^^ n) c = drop_bit n c"
proof (induction n arbitrary: c)
  case (Suc n)
  have "\<not> bit c 0" using Suc.prems by (metis bit_0_eq bit_take_bit_iff zero_less_Suc bot_apply bot_bool_def)
  then have "crc_bit c = drop_bit 1 c" by (simp add: crc_bit_alt)
  moreover have "take_bit n (drop_bit 1 c) = 0"
    using Suc.prems by (simp add: take_bit_drop_bit)
  ultimately show ?case using Suc.IH [of "drop_bit 1 c"] by (simp add: funpow_Suc_right del: funpow.simps)
qed simp


text \<open>A step with the table is eight steps of one bit.\<close>

lemma crc_step_bits: "crc_step c b = (crc_bit ^^ 8) (c XOR ucast b)"
proof -
  let ?x = "c XOR ucast b :: u32"
  let ?low = "take_bit 8 ?x" and ?high = "push_bit 8 (drop_bit 8 ?x)"
  have x: "?x = ?low XOR ?high" by (rule bit_word_eqI) (auto simp: bit_simps)
  have "unat ?low < 2 ^ 8" unfolding unsigned_take_bit_eq by (rule take_bit_nat_less_exp)
  moreover have "?x AND 255 = ?low" by (simp add: take_bit_eq_mask mask_eq_exp_minus_1)
  ultimately have low: "crc_table ! unat (?x AND 255) = (crc_bit ^^ 8) ?low"
    by (simp add: crc_table_def del: upt_rec_numeral)
  have "take_bit 8 ?high = 0" by (rule bit_word_eqI) (auto simp: bit_simps)
  then have "(crc_bit ^^ 8) ?high = drop_bit 8 ?high" by (rule crc_bits_high)
  also have "\<dots> = drop_bit 8 c" by (rule bit_word_eqI) (auto simp: bit_simps dest: bit_imp_le_length)
  finally have "crc_step c b = (crc_bit ^^ 8) ?low XOR (crc_bit ^^ 8) ?high" by (simp only: crc_step_def low)
  then show ?thesis by (simp only: crc_bits_xor [symmetric] x [symmetric])
qed

lemma xor_zero: "a XOR b = 0 \<Longrightarrow> a = (b :: u32)"
proof (rule bit_word_eqI)
  fix n assume "a XOR b = 0"
  then have "bit (a XOR b) n = bit (0 :: u32) n" by simp
  then show "bit a n = bit b n" by (simp add: bit_xor_iff)
qed

lemma xor_cancel: "a XOR c = b XOR c \<Longrightarrow> a = (b :: u32)"
proof (rule bit_word_eqI)
  fix n assume "a XOR c = b XOR c"
  then have "bit (a XOR c) n = bit (b XOR c) n" by simp
  then show "bit a n = bit b n" by (auto simp: bit_xor_iff)
qed

lemma crc_bit_zero: "crc_bit d = 0 \<Longrightarrow> d = 0"
proof (cases "bit d 0")
  case True
  assume "crc_bit d = 0"
  with True have "drop_bit 1 d XOR 0xedb88320 = 0" by (simp add: crc_bit_alt)
  then have "drop_bit 1 d = 0xedb88320" by (rule xor_zero)
  then have "bit (drop_bit 1 d) 31 = bit (0xedb88320 :: u32) 31" by simp
  then show ?thesis using bit_imp_le_length [of d 32] by (simp add: bit_drop_bit_eq)
next
  case False
  assume "crc_bit d = 0"
  with False have d: "drop_bit 1 d = 0" by (simp add: crc_bit_alt)
  show ?thesis
  proof (rule bit_word_eqI)
    fix n
    show "bit d n = bit (0 :: u32) n"
    proof (cases n)
      case (Suc m)
      have "bit (drop_bit 1 d) m = bit d n" by (simp add: Suc bit_drop_bit_eq)
      with d show ?thesis by simp
    qed (use False in simp)
  qed
qed

lemma crc_bits_zero: "(crc_bit ^^ n) d = 0 \<Longrightarrow> d = 0"
proof (induction n)
  case (Suc n)
  then have "crc_bit ((crc_bit ^^ n) d) = 0" by simp
  then show ?case by (rule Suc.IH [OF crc_bit_zero])
qed simp

lemma crc_bits_inj: "(crc_bit ^^ n) a = (crc_bit ^^ n) b \<Longrightarrow> a = b"
proof -
  assume "(crc_bit ^^ n) a = (crc_bit ^^ n) b"
  then have "(crc_bit ^^ n) (a XOR b) = 0" by (simp add: crc_bits_xor)
  then have "a XOR b = 0" by (rule crc_bits_zero)
  then show ?thesis by (rule xor_zero)
qed

lemma crc_step_inj: "crc_step c b = crc_step c' b \<Longrightarrow> c = c'" "crc_step c b = crc_step c b' \<Longrightarrow> b = b'"
proof -
  assume "crc_step c b = crc_step c' b"
  then have "c XOR ucast b = c' XOR ucast b" unfolding crc_step_bits by (rule crc_bits_inj)
  then have "(c XOR ucast b) XOR ucast b = (c' XOR ucast b) XOR ucast b" by simp
  then show "c = c'" by (simp add: xor.assoc)
next
  assume "crc_step c b = crc_step c b'"
  then have "c XOR ucast b = c XOR ucast b'" unfolding crc_step_bits by (rule crc_bits_inj)
  then have "c XOR (c XOR ucast b) = c XOR (c XOR ucast b')" by simp
  then have "(ucast b :: u32) = ucast b'" by (simp flip: xor.assoc)
  then have e: "bit (ucast b :: u32) n = bit (ucast b' :: u32) n" for n by simp
  show "b = b'"
  proof (rule bit_word_eqI)
    fix n assume "n < LENGTH(8)"
    then show "bit b n = bit b' n" using e [of n] by (simp add: bit_simps)
  qed
qed

lemma crc_fold_inj: "foldl crc_step c bs = foldl crc_step c' bs \<Longrightarrow> c = c'"
  by (induction bs arbitrary: c c') (auto dest: crc_step_inj)



subsection \<open>Properties\<close>

text \<open>
  C25.  Journal records survive: a retain record, a deletion and a subscription record that obey
  the limits are written without error and read back as they were.  Conversely every record that
  is accepted obeys the limits: its topic is a topic name, its quality of service at most 2, its
  expiry not negative, its payload not empty.
\<close>

theorem journal_records_roundtrip:
  "(retain_ok r \<longrightarrow> (\<exists>bs. write_retain_set r = Inr bs \<and> read_retain_record bs = Inr (r, False))) \<and>
   (retained_topic_ok topic \<and> length topic \<le> 0xffffffff \<longrightarrow>
      (\<exists>bs. write_retain_clear topic = Inr bs \<and>
        read_retain_record bs = Inr (empty_retain\<lparr>sr_topic := topic\<rparr>, True))) \<and>
   (ss_qos sub \<le> 2 \<and> ss_retain_handling sub \<le> 2 \<and> length filt \<le> 0xffffffff \<longrightarrow>
      (\<exists>bs rest. write_subscription_record filt sub = Inr (bs @ ss_qos sub # rest) \<and>
        dec_text (bs @ ss_qos sub # rest) = Inr (filt, ss_qos sub # rest) \<and>
        (\<forall>old. ss_qos old = ss_qos sub \<longrightarrow> read_legacy_subscription_options old rest = Inr (sub, [])))) \<and>
   (\<forall>bs q. read_retain_record bs = Inr (q, False) \<longrightarrow> retain_ok q)"
proof -
  have "\<exists>bs rest. write_subscription_record filt sub = Inr (bs @ ss_qos sub # rest) \<and>
        dec_text (bs @ ss_qos sub # rest) = Inr (filt, ss_qos sub # rest) \<and>
        (\<forall>old. ss_qos old = ss_qos sub \<longrightarrow> read_legacy_subscription_options old rest = Inr (sub, []))"
    if "ss_qos sub \<le> 2" "ss_retain_handling sub \<le> 2" "length filt \<le> 0xffffffff"
  proof (intro exI conjI allI impI)
    have ok: "subscription_ok sub" using that by (simp add: subscription_ok_def)
    show "write_subscription_record filt sub =
        Inr (text_field.bytes_of filt @ ss_qos sub # [kStoredSubscriptionVersion, subscription_flags sub])"
      using text_field.enc_bytes [OF that(3)] by (simp add: write_subscription_record_def enc_u8_def)
    show "dec_text (text_field.bytes_of filt @ ss_qos sub # [kStoredSubscriptionVersion, subscription_flags sub]) =
        Inr (filt, ss_qos sub # [kStoredSubscriptionVersion, subscription_flags sub])"
      by (rule text_field.dec_bytes [OF that(3)])
    show "read_legacy_subscription_options old [kStoredSubscriptionVersion, subscription_flags sub] = Inr (sub, [])"
      if "ss_qos old = ss_qos sub" for old
      using subscription_flags_roundtrip [OF ok that] that
      by (simp add: read_legacy_subscription_options_def read_subscription_options_def)
  qed
  moreover have "retain_ok q" if "read_retain_record bs = Inr (q, False)" for bs q
    using read_retain_record_ok [OF that] by simp
  ultimately show ?thesis
    using retain_set_roundtrip [of r] retain_clear_roundtrip [of topic] by blast
qed

theorem journal_records_roundtrip_witness:
  "let r = empty_retain\<lparr>sr_topic := [0x61], sr_qos := 1, sr_payload := [0x62], sr_user_properties := [([0x63], [])]\<rparr> in
   \<exists>bs. write_retain_set r = Inr bs \<and> read_retain_record bs = Inr (r, False)"
  using journal_records_roundtrip [THEN conjunct1, of
      "empty_retain\<lparr>sr_topic := [0x61], sr_qos := 1, sr_payload := [0x62], sr_user_properties := [([0x63], [])]\<rparr>"]
  by (simp add: retain_ok_def retained_topic_ok_def pairs_ok_def empty_retain_def)

text \<open>
  C35.  The table-driven checksum is the bit-by-bit CRC-32 with the reflected polynomial, and it
  detects every change of one byte.
\<close>

theorem checksum_crc32:
  "checksum data = foldl (\<lambda>c b. (crc_bit ^^ 8) (c XOR ucast b)) 0xffffffff data XOR 0xffffffff \<and>
   (b \<noteq> b' \<longrightarrow> checksum (xs @ b # ys) \<noteq> checksum (xs @ b' # ys))"
proof -
  have "foldl crc_step c data = foldl (\<lambda>c b. (crc_bit ^^ 8) (c XOR ucast b)) c data" for c
    by (induction data arbitrary: c) (simp_all only: foldl.simps crc_step_bits)
  then have "checksum data = foldl (\<lambda>c b. (crc_bit ^^ 8) (c XOR ucast b)) 0xffffffff data XOR 0xffffffff"
    by (simp only: checksum_def)
  moreover have "b = b'" if "checksum (xs @ b # ys) = checksum (xs @ b' # ys)"
  proof -
    let ?c = "foldl crc_step 0xffffffff xs"
    have "foldl crc_step (crc_step ?c b) ys XOR 0xffffffff = foldl crc_step (crc_step ?c b') ys XOR 0xffffffff"
      using that by (simp add: checksum_def)
    then have "foldl crc_step (crc_step ?c b) ys = foldl crc_step (crc_step ?c b') ys"
      by (rule xor_cancel)
    from crc_fold_inj [OF this] show ?thesis by (rule crc_step_inj)
  qed
  ultimately show ?thesis by blast
qed

theorem checksum_crc32_witness:
  "checksum ([1] @ 2 # [3]) \<noteq> checksum ([1] @ 4 # [3])"
  by (rule checksum_crc32 [THEN conjunct2, rule_format]) simp

end
