(* ===== verification/Append_Log.thy ===== *)
theory Append_Log
  imports Log_Codec "HOL-Library.Sublist"
begin

text \<open>
  \<^verbatim>\<open>AppendLog\<close> of \<^verbatim>\<open>src/session/mqtt_append_log.{h,cpp}\<close>: a journal of checksummed
  frames in numbered segment files, with one writer thread that commits batches.  The directory
  is the list of its segment files in ascending order; reading a file gives its bytes.  The
  system calls of the writer are numbered in the order they are made and \<open>io i\<close> is the outcome
  of the \<open>i\<close>-th, for a write the number of bytes that reached the file before the error.
  Segment numbers are natural numbers, sequence numbers 64-bit words.
\<close>

subsection \<open>Frames\<close>

definition magic :: u32 where "magic = 0x314c514d"
definition header_size :: nat where "header_size = 24"
definition max_record :: nat where "max_record = 67108864"

record header =
  h_bytes :: nat
  h_crc :: u32
  h_serial :: u64

definition decode_header :: "bytes \<Rightarrow> header jresult" where
  "decode_header data =
     (if length data \<noteq> header_size then Inl IncompleteHeader
      else bindE (dec_u32 data) (\<lambda>(m, bs).
        if m \<noteq> magic then Inl InvalidMagic
        else bindE (dec_u32 bs) (\<lambda>(n, bs).
          bindE (dec_u64 bs) (\<lambda>(s, bs).
          bindE (dec_u32 bs) (\<lambda>(crc, bs).
          bindE (dec_u32 bs) (\<lambda>(hcrc, _).
            if hcrc \<noteq> checksum (take 20 data) \<or> n = 0 \<or> unat n > max_record \<or> s = 0 then Inl CorruptHeader
            else Inr \<lparr>h_bytes = unat n, h_crc = crc, h_serial = s\<rparr>))))))"

definition frame :: "u64 \<Rightarrow> bytes \<Rightarrow> bytes jresult" where
  "frame s data =
     (if data = [] \<or> length data > max_record then Inl InvalidRecordSize
      else let e = enc_u32 magic @ enc_u32 (of_nat (length data)) @ enc_u64 s @ enc_u32 (checksum data);
               e = e @ enc_u32 (checksum e)
           in Inr (e @ data))"


subsection \<open>The state of a log\<close>

record location =
  loc_segment :: nat
  loc_offset :: nat
  loc_serial :: u64
  loc_size :: nat

record segment =
  seg_size :: nat
  seg_last :: u64

definition new_segment :: segment where
  "new_segment = \<lparr>seg_size = 0, seg_last = 0\<rparr>"

datatype log_entry = Append bytes | Seal | Reclaim u64 "nat list"

datatype io_outcome = IoOk | IoFail nat

type_synonym io_env = "nat \<Rightarrow> io_outcome"

record append_log =
  directory :: "(nat \<times> bytes) list"
  segment_bytes :: nat
  max_disk_bytes :: nat
  reserved_bytes :: nat
  disk_bytes :: nat
  segments :: "(nat \<times> segment) list"
  serial :: u64
  next_segment :: nat
  active :: nat
  fd_open :: bool
  queue :: "log_entry list"
  stopping :: bool
  failed :: bool

definition change :: "nat \<Rightarrow> ('v \<Rightarrow> 'v) \<Rightarrow> (nat \<times> 'v) list \<Rightarrow> (nat \<times> 'v) list" where
  "change k f kvs = map (\<lambda>(k', v). (k', if k' = k then f v else v)) kvs"

definition seg_of :: "nat \<Rightarrow> (nat \<times> segment) list \<Rightarrow> segment" where
  "seg_of k segs = (case map_of segs k of None \<Rightarrow> new_segment | Some s \<Rightarrow> s)"


subsection \<open>Reading\<close>

definition read_at :: "bytes \<Rightarrow> nat \<Rightarrow> nat \<Rightarrow> bytes" where
  "read_at file offset n = take n (drop offset file)"

lemma decode_header_bytes: "decode_header raw = Inr h \<Longrightarrow> 0 < h_bytes h"
  by (auto simp: decode_header_def bindE_eq_Inr unat_gt_0 split: if_splits)

text \<open>
  The loop over a segment: the visitor folds over the records; the result is the offset reached,
  the last sequence number and whether a torn tail was cut off there.
\<close>

function scan_loop ::
  "bool \<Rightarrow> nat \<Rightarrow> bytes \<Rightarrow> ('s \<Rightarrow> location \<Rightarrow> bytes \<Rightarrow> 's jresult) \<Rightarrow> nat \<Rightarrow> u64 \<Rightarrow> 's \<Rightarrow> (nat \<times> u64 \<times> 's) jresult" where
  "scan_loop repair seg file visit offset prev s =
     (if offset < length file then
        let raw = read_at file offset header_size in
        if length raw < header_size then
          (if \<not> repair then Inl IncompleteSegment else Inr (offset, prev, s))
        else bindE (decode_header raw) (\<lambda>h.
          let data = read_at file (offset + header_size) (h_bytes h) in
          if length data \<noteq> h_bytes h then
            (if \<not> repair then Inl IncompleteRecord else Inr (offset, prev, s))
          else if checksum data \<noteq> h_crc h \<or> h_serial h \<le> prev then Inl ChecksumMismatch
          else bindE (visit s \<lparr>loc_segment = seg, loc_offset = offset, loc_serial = h_serial h, loc_size = h_bytes h\<rparr> data)
                 (scan_loop repair seg file visit (offset + header_size + h_bytes h) (h_serial h)))
      else Inr (offset, prev, s))"
  by pat_completeness auto
termination
  by (relation "measure (\<lambda>(_, _, file, _, offset, _, _). length file - offset)") (auto dest: decode_header_bytes)

text \<open>A repaired file is truncated at the offset reached.\<close>

definition scan_segment ::
  "bool \<Rightarrow> nat \<Rightarrow> ('s \<Rightarrow> location \<Rightarrow> bytes \<Rightarrow> 's jresult) \<Rightarrow> append_log \<Rightarrow> 's \<Rightarrow> (append_log \<times> 's) jresult" where
  "scan_segment repair seg visit log s =
     (case map_of (directory log) seg of
        None \<Rightarrow> Inl IoError
      | Some file \<Rightarrow>
          bindE (scan_loop repair seg file visit 0 0 s) (\<lambda>(offset, prev, s).
            Inr (log\<lparr>directory := change seg (take offset) (directory log),
                     disk_bytes := disk_bytes log - seg_size (seg_of seg (segments log)) + offset,
                     segments := change seg (\<lambda>_. \<lparr>seg_size = offset, seg_last = prev\<rparr>) (segments log)\<rparr>, s)))"

fun scan_all ::
  "nat option \<Rightarrow> nat list \<Rightarrow> ('s \<Rightarrow> location \<Rightarrow> bytes \<Rightarrow> 's jresult) \<Rightarrow> append_log \<Rightarrow> 's \<Rightarrow> (append_log \<times> 's) jresult" where
  "scan_all repair [] visit log s = Inr (log, s)"
| "scan_all repair (seg # segs) visit log s =
     bindE (scan_segment (repair = Some seg) seg visit log s) (\<lambda>(log, s). scan_all repair segs visit log s)"

definition recover_visit :: "u64 \<Rightarrow> location \<Rightarrow> bytes \<Rightarrow> u64 jresult" where
  "recover_visit s loc data = (if loc_serial loc \<le> s then Inl SequenceRegression else Inr (loc_serial loc))"

text \<open>
  The names of segment files: \<^verbatim>\<open>filename\<close>, and how \<^verbatim>\<open>recover\<close> reads the entries of
  the directory into the map of segments.
\<close>

fun digits :: "nat \<Rightarrow> nat \<Rightarrow> string" where
  "digits 0 n = []"
| "digits (Suc w) n = digits w (n div 10) @ [char_of (48 + n mod 10)]"

definition is_digit :: "char \<Rightarrow> bool" where
  "is_digit c \<longleftrightarrow> 48 \<le> (of_char c :: nat) \<and> (of_char c :: nat) \<le> 57"

definition stoull :: "string \<Rightarrow> nat" where
  "stoull cs = foldl (\<lambda>n c. n * 10 + (of_char c - 48)) 0 cs"

definition segment_name :: "nat \<Rightarrow> string" where
  "segment_name k = digits 20 k @ ''.log''"

definition segment_id :: "string \<Rightarrow> nat jresult" where
  "segment_id name =
     (if length name \<noteq> 24 \<or> drop 20 name \<noteq> ''.log'' \<or> \<not> list_all is_digit (take 20 name) then Inl UnexpectedFile
      else let id = stoull (take 20 name) in
        if id \<ge> 2 ^ 64 then Inl OutOfRange else if id = 0 then Inl InvalidSegmentId else Inr id)"

fun list_segments :: "(string \<times> bytes) list \<Rightarrow> (nat \<times> bytes) list jresult" where
  "list_segments [] = Inr []"
| "list_segments ((name, file) # entries) =
     (if name = ''.'' \<or> name = ''..'' then list_segments entries
      else bindE (segment_id name) (\<lambda>id. bindE (list_segments entries) (\<lambda>segs. Inr (insort_key fst (id, file) segs))))"

text \<open>\<^verbatim>\<open>recover\<close> on the segments found.\<close>

definition recover :: "nat \<Rightarrow> nat \<Rightarrow> (nat \<times> bytes) list \<Rightarrow> append_log jresult" where
  "recover seg_max disk_max files =
     (let log = \<lparr>directory = files, segment_bytes = seg_max, max_disk_bytes = disk_max, reserved_bytes = 0, disk_bytes = 0,
                 segments = map (\<lambda>(k, _). (k, new_segment)) files, serial = 0,
                 next_segment = fold (\<lambda>(k, _) n. max n (k + 1)) files 1, active = 0, fd_open = False,
                 queue = [], stopping = False, failed = False\<rparr>
      in bindE (scan_all (if files = [] then None else Some (fst (last files))) (map fst files) recover_visit log 0)
           (\<lambda>(log, s). Inr (log\<lparr>serial := s\<rparr>)))"

definition open_log :: "nat \<Rightarrow> nat \<Rightarrow> (string \<times> bytes) list \<Rightarrow> append_log jresult" where
  "open_log seg_max disk_max entries = bindE (list_segments entries) (recover seg_max disk_max)"

definition replay_visit ::
  "u64 \<Rightarrow> ('s \<Rightarrow> location \<Rightarrow> bytes \<Rightarrow> 's jresult) \<Rightarrow> u64 \<times> 's \<Rightarrow> location \<Rightarrow> bytes \<Rightarrow> (u64 \<times> 's) jresult" where
  "replay_visit after visit es loc data =
     (case es of (expected, s) \<Rightarrow>
        if loc_serial loc \<le> after then Inr es
        else if loc_serial loc \<noteq> expected then Inl MissingRecords
        else bindE (visit s loc data) (\<lambda>s. Inr (expected + 1, s)))"

definition replay :: "u64 \<Rightarrow> ('s \<Rightarrow> location \<Rightarrow> bytes \<Rightarrow> 's jresult) \<Rightarrow> append_log \<Rightarrow> 's \<Rightarrow> (append_log \<times> 's) jresult" where
  "replay after visit log s =
     bindE (scan_all None (map fst (segments log)) (replay_visit after visit) log (after + 1, s)) (\<lambda>(log, (_, s)).
       Inr (log\<lparr>serial := max (serial log) after\<rparr>, s))"

definition read_record :: "location \<Rightarrow> append_log \<Rightarrow> bytes jresult" where
  "read_record loc log =
     (case map_of (directory log) (loc_segment loc) of
        None \<Rightarrow> Inl IoError
      | Some file \<Rightarrow>
          bindE (decode_header (read_at file (loc_offset loc) header_size)) (\<lambda>h.
            let data = read_at file (loc_offset loc + header_size) (h_bytes h) in
            if h_serial h \<noteq> loc_serial loc \<or> h_bytes h \<noteq> loc_size loc \<or> length data \<noteq> h_bytes h \<or>
               checksum data \<noteq> h_crc h then Inl InvalidReference
            else Inr data))"


subsection \<open>Admission\<close>

definition append :: "bytes \<Rightarrow> append_log \<Rightarrow> append_log jresult" where
  "append data log =
     (if stopping log \<or> failed log then Inl WriterUnavailable
      else let bytes = length data + header_size; used = disk_bytes log in
        if bytes > max_disk_bytes log \<or> used > max_disk_bytes log - bytes \<or>
           reserved_bytes log > max_disk_bytes log - bytes - used then Inl AdmissionFull
        else Inr (log\<lparr>queue := queue log @ [Append data], reserved_bytes := reserved_bytes log + bytes\<rparr>))"

definition seal :: "append_log \<Rightarrow> append_log" where
  "seal log = log\<lparr>queue := queue log @ [Seal]\<rparr>"

definition prune :: "u64 \<Rightarrow> nat list \<Rightarrow> append_log \<Rightarrow> append_log jresult" where
  "prune fence retained log =
     (if stopping log then Inl Stopping else Inr (log\<lparr>queue := queue log @ [Reclaim fence retained]\<rparr>))"

definition needs_checkpoint :: "append_log \<Rightarrow> bool" where
  "needs_checkpoint log \<longleftrightarrow> disk_bytes log + reserved_bytes log \<ge> max_disk_bytes log * 3 div 4"


subsection \<open>The writer\<close>

definition close_segment :: "io_env \<Rightarrow> nat \<Rightarrow> append_log \<Rightarrow> journal_err option \<times> append_log \<times> nat" where
  "close_segment io i log =
     (if fd_open log then
        (case io i of
           IoOk \<Rightarrow> (None, log\<lparr>fd_open := False, active := 0\<rparr>, i + 1)
         | IoFail _ \<Rightarrow> (Some IoError, log, i + 1))
      else (None, log, i))"

definition open_segment :: "io_env \<Rightarrow> nat \<Rightarrow> append_log \<Rightarrow> journal_err option \<times> append_log \<times> nat" where
  "open_segment io i log =
     (if fd_open log then (None, log, i)
      else let a = next_segment log; log = log\<lparr>active := a, next_segment := a + 1\<rparr> in
        (case io i of
           IoFail _ \<Rightarrow> (Some IoError, log, i + 1)
         | IoOk \<Rightarrow>
             let log = log\<lparr>fd_open := True, directory := directory log @ [(a, [])]\<rparr> in
             (case io (i + 1) of
                IoFail _ \<Rightarrow> (Some IoError, log, i + 2)
              | IoOk \<Rightarrow> (None, log\<lparr>segments := segments log @ [(a, new_segment)]\<rparr>, i + 2))))"

definition write_frame :: "io_env \<Rightarrow> nat \<Rightarrow> bytes \<Rightarrow> bytes \<Rightarrow> append_log \<Rightarrow> location jresult \<times> append_log \<times> nat" where
  "write_frame io i bytes data log =
     (let a = active log; s = serial log + 1;
          loc = \<lparr>loc_segment = a, loc_offset = seg_size (seg_of a (segments log)), loc_serial = s, loc_size = length data\<rparr>;
          log = log\<lparr>serial := s\<rparr>
      in case io i of
           IoFail k \<Rightarrow> (Inl IoError, log\<lparr>directory := change a (\<lambda>file. file @ take k bytes) (directory log)\<rparr>, i + 1)
         | IoOk \<Rightarrow>
             (Inr loc,
              log\<lparr>directory := change a (\<lambda>file. file @ bytes) (directory log),
                  segments := change a (\<lambda>seg. \<lparr>seg_size = seg_size seg + length bytes, seg_last = s\<rparr>) (segments log),
                  disk_bytes := disk_bytes log + length bytes\<rparr>, i + 1))"

definition write_record :: "io_env \<Rightarrow> nat \<Rightarrow> bytes \<Rightarrow> append_log \<Rightarrow> location jresult \<times> append_log \<times> nat" where
  "write_record io i data log =
     (case frame (serial log + 1) data of
        Inl e \<Rightarrow> (Inl e, log, i)
      | Inr bytes \<Rightarrow>
          if length bytes > max_disk_bytes log \<or> disk_bytes log > max_disk_bytes log - length bytes
          then (Inl QuotaExhausted, log, i)
          else
            (case (if fd_open log \<and> seg_size (seg_of (active log) (segments log)) + length bytes > segment_bytes log
                   then close_segment io i log else (None, log, i)) of
               (Some e, log, i) \<Rightarrow> (Inl e, log, i)
             | (None, log, i) \<Rightarrow>
                 (case open_segment io i log of
                    (Some e, log, i) \<Rightarrow> (Inl e, log, i)
                  | (None, log, i) \<Rightarrow> write_frame io i bytes data log)))"

text \<open>The loop over the segments; the list of those removed.\<close>

fun unlink_segments ::
  "io_env \<Rightarrow> nat \<Rightarrow> u64 \<Rightarrow> nat list \<Rightarrow> (nat \<times> segment) list \<Rightarrow> append_log \<Rightarrow> journal_err option \<times> bool \<times> append_log \<times> nat" where
  "unlink_segments io i fence retained [] log = (None, False, log, i)"
| "unlink_segments io i fence retained ((k, seg) # segs) log =
     (if k \<noteq> active log \<and> seg_last seg \<le> fence \<and> k \<notin> set retained then
        (case io i of
           IoFail _ \<Rightarrow> (Some IoError, False, log, i + 1)
         | IoOk \<Rightarrow>
             (case unlink_segments io (i + 1) fence retained segs
                (log\<lparr>directory := filter (\<lambda>(k', _). k' \<noteq> k) (directory log), disk_bytes := disk_bytes log - seg_size seg,
                     segments := filter (\<lambda>(k', _). k' \<noteq> k) (segments log)\<rparr>) of
                (r, _, log, i) \<Rightarrow> (r, True, log, i)))
      else unlink_segments io i fence retained segs log)"

definition prune_segments :: "io_env \<Rightarrow> nat \<Rightarrow> u64 \<Rightarrow> nat list \<Rightarrow> append_log \<Rightarrow> journal_err option \<times> append_log \<times> nat" where
  "prune_segments io i fence retained log =
     (case unlink_segments io i fence retained (segments log) log of
        (Some e, _, log, i) \<Rightarrow> (Some e, log, i)
      | (None, changed, log, i) \<Rightarrow>
          if changed then (case io i of IoOk \<Rightarrow> (None, log, i + 1) | IoFail _ \<Rightarrow> (Some IoError, log, i + 1))
          else (None, log, i))"

fun is_control :: "log_entry \<Rightarrow> bool" where
  "is_control (Append _) = False"
| "is_control _ = True"

text \<open>A batch: up to 64 appended records, or one seal or reclamation alone.\<close>

fun fill_batch :: "nat \<Rightarrow> log_entry list \<Rightarrow> log_entry list \<times> log_entry list" where
  "fill_batch n [] = ([], [])"
| "fill_batch n (e # es) =
     (if n \<ge> 64 then ([], e # es)
      else if n > 0 \<and> is_control e then ([], e # es)
      else if is_control e then ([e], es)
      else (case fill_batch (n + 1) es of (b, rest) \<Rightarrow> (e # b, rest)))"

fun write_entry :: "io_env \<Rightarrow> nat \<Rightarrow> log_entry \<Rightarrow> append_log \<Rightarrow> location option jresult \<times> append_log \<times> nat" where
  "write_entry io i (Reclaim fence retained) log =
     (case prune_segments io i fence retained log of
        (Some e, log, i) \<Rightarrow> (Inl e, log, i) | (None, log, i) \<Rightarrow> (Inr None, log, i))"
| "write_entry io i Seal log =
     (case close_segment io i log of
        (Some e, log, i) \<Rightarrow> (Inl e, log, i) | (None, log, i) \<Rightarrow> (Inr None, log, i))"
| "write_entry io i (Append data) log =
     (case write_record io i data log of
        (Inl e, log, i) \<Rightarrow> (Inl e, log, i) | (Inr loc, log, i) \<Rightarrow> (Inr (Some loc), log, i))"

text \<open>The locations given out so far and the error that ended the loop, if any.\<close>

fun write_entries ::
  "io_env \<Rightarrow> nat \<Rightarrow> log_entry list \<Rightarrow> append_log \<Rightarrow> journal_err option \<times> location option list \<times> append_log \<times> nat" where
  "write_entries io i [] log = (None, [], log, i)"
| "write_entries io i (e # es) log =
     (case write_entry io i e log of
        (Inl x, log, i) \<Rightarrow> (Some x, [], log, i)
      | (Inr loc, log, i) \<Rightarrow>
          (case write_entries io i es log of (r, locs, log, i) \<Rightarrow> (r, loc # locs, log, i)))"

fun entry_bytes :: "log_entry \<Rightarrow> nat" where
  "entry_bytes (Append data) = length data + header_size"
| "entry_bytes _ = 0"

fun is_reclaim :: "log_entry \<Rightarrow> bool" where
  "is_reclaim (Reclaim _ _) = True"
| "is_reclaim _ = False"

text \<open>
  One round of \<^verbatim>\<open>work\<close> with a batch: the error that is reported to every entry of the
  batch, the locations, and the log.  \<open>applied_ok\<close> says whether the callbacks return normally.
\<close>

definition work_batch ::
  "io_env \<Rightarrow> nat \<Rightarrow> bool \<Rightarrow> log_entry list \<Rightarrow> append_log \<Rightarrow> journal_err option \<times> location option list \<times> append_log \<times> nat" where
  "work_batch io i applied_ok batch log =
     (let (r, locs, log, i) =
            (if failed log then (Some WriterFailed, [], log, i)
             else (case write_entries io i batch log of
                (Some e, locs, log, i) \<Rightarrow> (Some e, locs, log, i)
              | (None, locs, log, i) \<Rightarrow>
                  if fd_open log \<and> \<not> is_reclaim (hd batch)
                  then (case io i of IoOk \<Rightarrow> (None, locs, log, i + 1) | IoFail _ \<Rightarrow> (Some IoError, locs, log, i + 1))
                  else (None, locs, log, i)));
          log = (if r \<noteq> None \<and> \<not> is_reclaim (hd batch) then log\<lparr>failed := True\<rparr> else log);
          log = (if applied_ok then log else log\<lparr>failed := True\<rparr>)
      in (r, locs, log\<lparr>reserved_bytes := reserved_bytes log - sum_list (map entry_bytes batch)\<rparr>, i))"

definition work :: "io_env \<Rightarrow> nat \<Rightarrow> bool \<Rightarrow> append_log \<Rightarrow> (journal_err option \<times> location option list) option \<times> append_log \<times> nat" where
  "work io i applied_ok log =
     (case fill_batch 0 (queue log) of
        ([], _) \<Rightarrow> (None, log, i)
      | (batch, rest) \<Rightarrow>
          (case work_batch io i applied_ok batch (log\<lparr>queue := rest\<rparr>) of
             (r, locs, log, i) \<Rightarrow> (Some (r, locs), log, i)))"



subsection \<open>A frame is read back\<close>

definition record_ok :: "bytes \<Rightarrow> bool" where
  "record_ok data \<longleftrightarrow> data \<noteq> [] \<and> length data \<le> max_record"

definition head_bytes :: "u64 \<Rightarrow> bytes \<Rightarrow> bytes" where
  "head_bytes s data = enc_u32 magic @ enc_u32 (of_nat (length data)) @ enc_u64 s @ enc_u32 (checksum data)"

definition frame_bytes :: "u64 \<Rightarrow> bytes \<Rightarrow> bytes" where
  "frame_bytes s data = head_bytes s data @ enc_u32 (checksum (head_bytes s data)) @ data"

lemma length_enc [simp]: "length (enc_u32 v) = 4" "length (enc_u64 w) = 8"
  by (simp_all add: enc_u32_le enc_u64_le)

lemma length_head_bytes [simp]: "length (head_bytes s data) = 20"
  by (simp add: head_bytes_def)

lemma length_frame_bytes [simp]: "length (frame_bytes s data) = header_size + length data"
  by (simp add: frame_bytes_def header_size_def)

lemma frame_Inr: "record_ok data \<Longrightarrow> frame s data = Inr (frame_bytes s data)"
  by (simp add: frame_def record_ok_def frame_bytes_def head_bytes_def)

lemma frame_Inr_iff: "frame s data = Inr bs \<longleftrightarrow> record_ok data \<and> bs = frame_bytes s data"
  by (auto simp: frame_def record_ok_def frame_bytes_def head_bytes_def)

lemma take_frame: "take header_size (frame_bytes s data @ rest) = head_bytes s data @ enc_u32 (checksum (head_bytes s data))"
  by (simp add: frame_bytes_def header_size_def)

lemma drop_frame: "drop header_size (frame_bytes s data @ rest) = data @ rest"
  by (simp add: frame_bytes_def header_size_def)

lemmas take_frame_only = take_frame [of _ _ "[]", simplified]
lemmas drop_frame_only = drop_frame [of _ _ "[]", simplified]

lemma decode_head:
  assumes "record_ok data" "s \<noteq> 0"
  shows "decode_header (head_bytes s data @ enc_u32 (checksum (head_bytes s data))) =
    Inr \<lparr>h_bytes = length data, h_crc = checksum data, h_serial = s\<rparr>"
proof -
  have n: "length data \<le> 0xffffffff" "length data > 0"
    using assms(1) by (simp_all add: record_ok_def max_record_def)
  then have u: "unat (of_nat (length data) :: u32) = length data" by (simp add: unat_of_length)
  with n(2) have "(of_nat (length data) :: u32) \<noteq> 0" by (metis unat_0 less_irrefl)
  moreover have "dec_u32 (head_bytes s data @ r) = Inr (magic, enc_u32 (of_nat (length data)) @ enc_u64 s @ enc_u32 (checksum data) @ r)" for r
    by (simp add: head_bytes_def dec_u32_enc)
  moreover have "dec_u32 (enc_u32 v) = Inr (v, [])" for v using dec_u32_enc [of v "[]"] by simp
  ultimately show ?thesis
    using assms u by (simp add: decode_header_def header_size_def dec_u32_enc dec_u64_enc record_ok_def)
qed

type_synonym log_record = "u64 \<times> bytes"

definition frames :: "log_record list \<Rightarrow> bytes" where
  "frames rs = concat (map (\<lambda>(s, d). frame_bytes s d) rs)"

lemma frames_simps [simp]:
  "frames [] = []" "frames ((s, d) # rs) = frame_bytes s d @ frames rs" "frames (xs @ ys) = frames xs @ frames ys"
  by (simp_all add: frames_def)

definition last_serial :: "u64 \<Rightarrow> log_record list \<Rightarrow> u64" where
  "last_serial p rs = (if rs = [] then p else fst (last rs))"

lemma last_serial_simps [simp]: "last_serial p [] = p" "last_serial p (r # rs) = last_serial (fst r) rs"
  by (simp_all add: last_serial_def)

text \<open>Records as they are found in a segment after sequence number \<open>p\<close>.\<close>

fun records_ok :: "u64 \<Rightarrow> log_record list \<Rightarrow> bool" where
  "records_ok p [] = True"
| "records_ok p ((s, d) # rs) \<longleftrightarrow> p < s \<and> record_ok d \<and> records_ok s rs"

fun visit_records ::
  "('s \<Rightarrow> location \<Rightarrow> bytes \<Rightarrow> 's jresult) \<Rightarrow> nat \<Rightarrow> nat \<Rightarrow> log_record list \<Rightarrow> 's \<Rightarrow> 's jresult" where
  "visit_records visit seg offset [] s = Inr s"
| "visit_records visit seg offset ((n, d) # rs) s =
     bindE (visit s \<lparr>loc_segment = seg, loc_offset = offset, loc_serial = n, loc_size = length d\<rparr> d)
       (visit_records visit seg (offset + header_size + length d) rs)"

declare scan_loop.simps [simp del]

lemma scan_record:
  assumes "record_ok d" "prev < n" "file = pre @ frame_bytes n d @ rest"
  shows "scan_loop repair seg file visit (length pre) prev s =
    bindE (visit s \<lparr>loc_segment = seg, loc_offset = length pre, loc_serial = n, loc_size = length d\<rparr> d)
      (scan_loop repair seg file visit (length pre + header_size + length d) n)"
proof -
  have n: "n \<noteq> 0" using assms(2) by (metis not_less_zero word_gt_0 word_not_simps(1))
  have r: "read_at file (length pre) header_size = head_bytes n d @ enc_u32 (checksum (head_bytes n d))"
    by (simp add: read_at_def assms(3) take_frame_only)
  have d: "read_at file (length pre + header_size) (length d) = d"
    by (simp add: read_at_def assms(3) add.commute [of "length pre"] drop_frame_only flip: drop_drop)
  have "length pre < length file" by (simp add: assms(3) header_size_def)
  moreover have "length (head_bytes n d @ enc_u32 (checksum (head_bytes n d))) = header_size" by (simp add: header_size_def)
  moreover have "\<not> n \<le> prev" using assms(2) by simp
  ultimately show ?thesis
    using decode_head [OF assms(1) n]
    by (subst scan_loop.simps) (simp add: r d Let_def del: length_append)
qed

lemma scan_records:
  "records_ok prev rs \<Longrightarrow> file = pre @ frames rs @ rest \<Longrightarrow>
   scan_loop repair seg file visit (length pre) prev s =
     bindE (visit_records visit seg (length pre) rs s)
       (scan_loop repair seg file visit (length (pre @ frames rs)) (last_serial prev rs))"
proof (induction rs arbitrary: pre prev s)
  case (Cons r rs)
  obtain n d where r: "r = (n, d)" by (cases r)
  have ok: "prev < n" "record_ok d" "records_ok n rs" using Cons.prems(1) r by simp_all
  have f: "file = pre @ frame_bytes n d @ (frames rs @ rest)" "file = (pre @ frame_bytes n d) @ frames rs @ rest"
    using Cons.prems(2) r by simp_all
  have "scan_loop repair seg file visit (length pre + header_size + length d) n =
      (\<lambda>s. bindE (visit_records visit seg (length pre + header_size + length d) rs s)
        (scan_loop repair seg file visit (length (pre @ frames (r # rs))) (last_serial n rs)))"
    using Cons.IH [OF ok(3) f(2)] by (simp add: r fun_eq_iff add.assoc)
  then show ?case
    unfolding r scan_record [OF ok(2,1) f(1)] by (simp add: bindE_assoc)
qed simp



subsection \<open>Torn tails\<close>

definition torn :: "bytes \<Rightarrow> bool" where
  "torn t \<longleftrightarrow> t = [] \<or> (\<exists>n d. n \<noteq> 0 \<and> record_ok d \<and> strict_prefix t (frame_bytes n d))"

lemma scan_finished: "scan_loop repair seg file visit (length file) prev s = Inr (length file, prev, s)"
  by (subst scan_loop.simps) simp

lemma scan_torn:
  assumes "torn t" "file = pre @ t"
  shows "scan_loop True seg file visit (length pre) prev s = Inr (length pre, prev, s)"
proof (cases "t = []")
  case True
  then show ?thesis by (simp add: assms(2) scan_finished)
next
  case False
  then obtain n d where n: "n \<noteq> 0" "record_ok d" "strict_prefix t (frame_bytes n d)" using assms(1) by (auto simp: torn_def)
  then obtain u where u: "frame_bytes n d = t @ u" "u \<noteq> []" by (auto elim: strict_prefixE')
  have len: "length t < header_size + length d" using prefix_length_less [OF n(3)] by simp
  have p: "length pre < length file" using False assms(2) by simp
  show ?thesis
  proof (cases "length t < header_size")
    case True
    then show ?thesis using p by (subst scan_loop.simps) (simp add: read_at_def assms(2))
  next
    case False
    have "take header_size t = take header_size (frame_bytes n d)" using False u(1) by simp
    then have r: "read_at file (length pre) header_size = head_bytes n d @ enc_u32 (checksum (head_bytes n d))"
      by (simp add: read_at_def assms(2) take_frame_only)
    have l: "length (head_bytes n d @ enc_u32 (checksum (head_bytes n d))) = header_size" by (simp add: header_size_def)
    have d: "length (read_at file (length pre + header_size) (length d)) \<noteq> length d"
      using len False by (simp add: read_at_def assms(2))
    show ?thesis
      using p l d decode_head [OF n(2,1)] by (subst scan_loop.simps) (simp add: r Let_def del: length_append)
  qed
qed

lemma scan_file:
  assumes "records_ok 0 rs" "torn t" "t \<noteq> [] \<Longrightarrow> repair"
  shows "scan_loop repair seg (frames rs @ t) visit 0 0 s =
    bindE (visit_records visit seg 0 rs s) (\<lambda>s. Inr (length (frames rs), last_serial 0 rs, s))"
proof -
  let ?file = "frames rs @ t"
  have "scan_loop repair seg ?file visit (length (frames rs)) p = (\<lambda>s. Inr (length (frames rs), p, s))" for p
  proof (cases "t = []")
    case True
    then show ?thesis by (simp add: scan_finished fun_eq_iff)
  next
    case False
    then show ?thesis using assms(3) by (simp add: scan_torn [OF assms(2) refl] fun_eq_iff)
  qed
  then show ?thesis using scan_records [OF assms(1), of ?file "[]" t repair seg visit s] by simp
qed



subsection \<open>Scanning all segments\<close>

type_synonym log_segment = "nat \<times> log_record list"

text \<open>Segments, each with what is left of a torn write after its records.\<close>

definition files_of :: "(log_segment \<times> bytes) list \<Rightarrow> (nat \<times> bytes) list" where
  "files_of R = map (\<lambda>((k, rs), t). (k, frames rs @ t)) R"

definition info_of :: "log_segment \<Rightarrow> nat \<times> segment" where
  "info_of x = (fst x, \<lparr>seg_size = length (frames (snd x)), seg_last = last_serial 0 (snd x)\<rparr>)"

definition tails_ok :: "nat option \<Rightarrow> (log_segment \<times> bytes) list \<Rightarrow> bool" where
  "tails_ok repair R \<longleftrightarrow> (\<forall>((k, rs), t)\<in>set R. records_ok 0 rs \<and> torn t \<and> (t \<noteq> [] \<longrightarrow> repair = Some k))"

fun visit_segments ::
  "('s \<Rightarrow> location \<Rightarrow> bytes \<Rightarrow> 's jresult) \<Rightarrow> log_segment list \<Rightarrow> 's \<Rightarrow> 's jresult" where
  "visit_segments visit [] s = Inr s"
| "visit_segments visit ((k, rs) # R) s = bindE (visit_records visit k 0 rs s) (visit_segments visit R)"

lemma change_append [simp]: "change k f (xs @ ys) = change k f xs @ change k f ys"
  by (simp add: change_def)

lemma change_Cons [simp]: "change k f ((k', v) # xs) = (k', if k' = k then f v else v) # change k f xs"
  by (simp add: change_def)

lemma change_Nil [simp]: "change k f [] = []"
  by (simp add: change_def)

lemma change_other [simp]: "k \<notin> fst ` set xs \<Longrightarrow> change k f xs = xs"
  by (induction xs) (auto simp: change_def)

lemma fst_change [simp]: "map fst (change k f xs) = map fst xs"
  by (auto simp: change_def)

definition keys_of :: "(log_segment \<times> bytes) list \<Rightarrow> nat list" where
  "keys_of R = map (\<lambda>x. fst (fst x)) R"

definition sizes_of :: "(nat \<times> segment) list \<Rightarrow> nat" where
  "sizes_of T = sum_list (map (\<lambda>x. seg_size (snd x)) T)"

lemma files_of_Cons [simp]: "files_of (((k, rs), t) # R) = (k, frames rs @ t) # files_of R"
  by (simp add: files_of_def)

lemma keys_of_Cons [simp]: "keys_of (((k, rs), t) # R) = k # keys_of R"
  by (simp add: keys_of_def)

lemma sizes_of_simps [simp]: "sizes_of [] = 0" "sizes_of ((k, i) # T) = seg_size i + sizes_of T" "sizes_of (T @ U) = sizes_of T + sizes_of U"
  by (simp_all add: sizes_of_def)

lemma fst_files_of [simp]: "map fst (files_of R) = keys_of R"
  by (auto simp: files_of_def keys_of_def)

lemma fst_set_files_of: "fst ` set (files_of R) = set (keys_of R)"
  using fst_files_of [of R] by (metis list.set_map)

definition closed_segments :: "(log_segment \<times> bytes) list \<Rightarrow> (log_segment \<times> bytes) list" where
  "closed_segments R = map (\<lambda>(x, t). (x, [])) R"

lemma closed_segments_simps [simp]: "closed_segments [] = []" "closed_segments ((x, t) # R) = (x, []) # closed_segments R"
  by (simp_all add: closed_segments_def)

lemma scan_all_files:
  assumes "directory log = D @ files_of R" "segments log = S @ T" "map fst T = keys_of R"
    "distinct (map fst D @ keys_of R)" "map fst S = map fst D" "disk_bytes log = b + sizes_of T" "tails_ok repair R"
  shows "scan_all repair (keys_of R) visit log s =
    bindE (visit_segments visit (map fst R) s) (\<lambda>s. Inr (log\<lparr>directory := D @ files_of (closed_segments R),
      disk_bytes := b + sizes_of (map (\<lambda>x. info_of (fst x)) R), segments := S @ map (\<lambda>x. info_of (fst x)) R\<rparr>, s))"
  using assms
proof (induction R arbitrary: log s D S T b)
  case Nil
  then show ?case by (cases log) (simp add: files_of_def keys_of_def)
next
  case (Cons x R)
  obtain k rs t where x: "x = ((k, rs), t)" by (metis prod.collapse)
  obtain i T' where T: "T = (k, i) # T'" "map fst T' = keys_of R" using Cons.prems(3) x by (cases T) auto
  have ok: "records_ok 0 rs" "torn t" "t \<noteq> [] \<Longrightarrow> repair = Some k" "tails_ok repair R"
    using Cons.prems(7) by (auto simp: x tails_ok_def)
  have k: "k \<notin> fst ` set D" "k \<notin> fst ` set S" "k \<notin> set (keys_of R)" "k \<notin> fst ` set T'"
    using Cons.prems(4) arg_cong [OF Cons.prems(5), of set] arg_cong [OF T(2), of set] by (auto simp: x)
  have m: "map_of (directory log) k = Some (frames rs @ t)"
    using k(1) by (simp add: Cons.prems(1) x map_add_def map_of_eq_None_iff [THEN iffD2])
  have i: "seg_of k (segments log) = i"
    using k(2) by (simp add: Cons.prems(2) T(1) seg_of_def map_add_def map_of_eq_None_iff [THEN iffD2])
  let ?log = "log\<lparr>directory := (D @ [(k, frames rs)]) @ files_of R,
    disk_bytes := (b + length (frames rs)) + sizes_of T', segments := (S @ [info_of (k, rs)]) @ T'\<rparr>"
  have k': "k \<notin> fst ` set (files_of R)" using k(3) by (simp add: fst_set_files_of)
  have scan: "scan_segment (repair = Some k) k visit log s =
      bindE (visit_records visit k 0 rs s) (\<lambda>s. Inr (?log, s))" for s
    unfolding scan_segment_def m i
    by (simp add: scan_file [OF ok(1,2,3)] bindE_assoc Cons.prems(1,2,6) T(1) x k k' info_of_def ac_simps)
  have d: "distinct (map fst (D @ [(k, frames rs)]) @ keys_of R)" using Cons.prems(4) by (auto simp: x)
  have IH: "scan_all repair (keys_of R) visit ?log = (\<lambda>s.
    bindE (visit_segments visit (map fst R) s) (\<lambda>s. Inr (?log\<lparr>directory := (D @ [(k, frames rs)]) @ files_of (closed_segments R),
      disk_bytes := (b + length (frames rs)) + sizes_of (map (\<lambda>x. info_of (fst x)) R),
      segments := (S @ [info_of (k, rs)]) @ map (\<lambda>x. info_of (fst x)) R\<rparr>, s)))"
    by (rule ext, rule Cons.IH) (use T(2) d ok(4) Cons.prems(5) in \<open>simp_all add: info_of_def\<close>)
  have "bindE (scan_segment (repair = Some k) k visit log s) (\<lambda>(log, s). scan_all repair (keys_of R) visit log s) =
      bindE (visit_records visit k 0 rs s) (scan_all repair (keys_of R) visit ?log)"
    unfolding scan bindE_assoc by simp
  then show ?case
    unfolding IH by (simp add: x bindE_assoc info_of_def ac_simps)
qed



subsection \<open>What a log holds\<close>

definition collect_visit :: "log_record list \<Rightarrow> location \<Rightarrow> bytes \<Rightarrow> log_record list jresult" where
  "collect_visit rs loc data = Inr (rs @ [(loc_serial loc, data)])"

text \<open>The records in the segments of a log, by a scan without repair.\<close>

definition log_contents :: "append_log \<Rightarrow> log_record list option" where
  "log_contents log =
     (case scan_all None (map fst (segments log)) collect_visit log [] of Inr (_, rs) \<Rightarrow> Some rs | Inl _ \<Rightarrow> None)"

abbreviation records_in :: "log_segment list \<Rightarrow> log_record list" where
  "records_in R \<equiv> concat (map snd R)"

definition segment_files :: "log_segment list \<Rightarrow> (nat \<times> bytes) list" where
  "segment_files R = map (\<lambda>x. (fst x, frames (snd x))) R"

definition segments_ok :: "log_segment list \<Rightarrow> bool" where
  "segments_ok R \<longleftrightarrow> sorted_wrt (<) (map fst R) \<and> 0 \<notin> set (map fst R) \<and> records_ok 0 (records_in R)"

definition log_inv :: "append_log \<Rightarrow> log_segment list \<Rightarrow> bool" where
  "log_inv log R \<longleftrightarrow> segments_ok R \<and> directory log = segment_files R \<and> segments log = map info_of R \<and>
     disk_bytes log = sizes_of (segments log) \<and>
     (\<forall>r\<in>set (records_in R). fst r \<le> serial log) \<and>
     (\<forall>k\<in>fst ` set R. k < next_segment log) \<and> 0 < next_segment log \<and>
     (if fd_open log then R \<noteq> [] \<and> active log = fst (last R) else active log = 0)"

lemma records_ok_weaken: "records_ok p rs \<Longrightarrow> q \<le> p \<Longrightarrow> records_ok q rs"
  by (cases rs) auto

lemma last_serial_append [simp]: "last_serial p (xs @ ys) = last_serial (last_serial p xs) ys"
  by (simp add: last_serial_def)

lemma records_ok_append: "records_ok p (xs @ ys) \<longleftrightarrow> records_ok p xs \<and> records_ok (last_serial p xs) ys"
proof (induction xs arbitrary: p)
  case (Cons r rs)
  obtain n d where "r = (n, d)" by (cases r)
  then show ?case using Cons.IH [of n] by simp
qed simp

lemma records_ok_last: "records_ok p rs \<Longrightarrow> p \<le> last_serial p rs"
proof (induction rs arbitrary: p)
  case (Cons r rs)
  obtain n d where r: "r = (n, d)" by (cases r)
  have "n \<le> last_serial n rs" using Cons r by simp
  moreover have "p < n" using Cons.prems r by simp
  ultimately show ?case by (simp add: r)
qed simp

lemma records_in_ok: "records_ok p (records_in R) \<Longrightarrow> x \<in> set R \<Longrightarrow> records_ok 0 (snd x)"
proof (induction R arbitrary: p)
  case (Cons y R)
  have ok: "records_ok p (snd y)" "records_ok (last_serial p (snd y)) (records_in R)"
    using Cons.prems(1) by (simp_all add: records_ok_append)
  show ?case
  proof (cases "x = y")
    case True
    then show ?thesis using records_ok_weaken [OF ok(1), of 0] by simp
  next
    case False
    then show ?thesis using Cons.IH [OF ok(2)] Cons.prems(2) by simp
  qed
qed simp

definition plain :: "log_segment list \<Rightarrow> (log_segment \<times> bytes) list" where
  "plain R = map (\<lambda>x. (x, [])) R"

lemma segment_files_open: "segment_files R = files_of (plain R)"
  by (auto simp: segment_files_def files_of_def plain_def)

lemma plain_simps [simp]:
  "keys_of (plain R) = map fst R" "closed_segments (plain R) = plain R" "map fst (plain R) = R"
  "map (\<lambda>x. info_of (fst x)) (plain R) = map info_of R"
  by (simp_all add: keys_of_def closed_segments_def plain_def comp_def)

lemma fst_info_of [simp]: "map fst (map info_of R) = map fst R" "fst (info_of x) = fst x"
  by (simp_all add: info_of_def)

lemma scan_all_log:
  assumes "log_inv log R"
  shows "scan_all None (map fst (segments log)) visit log s =
    bindE (visit_segments visit R s) (\<lambda>s. Inr (log, s))"
proof -
  let ?R = "plain R"
  have l: "segments_ok R" "directory log = files_of ?R" "segments log = map info_of R" "disk_bytes log = sizes_of (map info_of R)"
    using assms by (auto simp: log_inv_def segment_files_open)
  have d: "distinct (map fst R)" using l(1) by (auto simp: segments_ok_def strict_sorted_iff)
  have "records_ok 0 (snd x)" if "x \<in> set R" for x using l(1) records_in_ok [of 0 R x, OF _ that] by (simp add: segments_ok_def)
  then have t: "tails_ok None ?R" by (auto simp: tails_ok_def torn_def plain_def)
  have scan: "scan_all None (keys_of ?R) visit log s = bindE (visit_segments visit (map fst ?R) s)
      (\<lambda>s. Inr (log\<lparr>directory := [] @ files_of (closed_segments ?R),
        disk_bytes := 0 + sizes_of (map (\<lambda>x. info_of (fst x)) ?R), segments := [] @ map (\<lambda>x. info_of (fst x)) ?R\<rparr>, s))"
    by (rule scan_all_files [of log "[]" ?R "[]" "map info_of R" 0 None visit s]) (simp_all add: l d t)
  have eq: "log\<lparr>directory := files_of ?R, disk_bytes := sizes_of (map info_of R), segments := map info_of R\<rparr> = log"
    by (rule append_log.equality) (simp_all add: l)
  show ?thesis
    using scan unfolding plain_simps l(3) fst_info_of append_Nil add_0 eq .
qed

lemma visit_collect:
  "visit_records collect_visit k off rs acc = Inr (acc @ rs)"
  "visit_segments collect_visit R acc = Inr (acc @ records_in R)"
proof -
  show r: "visit_records collect_visit k off rs acc = Inr (acc @ rs)" for k off rs acc
    by (induction rs arbitrary: off acc) (auto simp: collect_visit_def)
  show "visit_segments collect_visit R acc = Inr (acc @ records_in R)"
    by (induction R arbitrary: acc) (auto simp: r)
qed

lemma log_contents_inv: "log_inv log R \<Longrightarrow> log_contents log = Some (records_in R)"
  using scan_all_log [of log R collect_visit "[]"] by (simp add: log_contents_def visit_collect)



subsection \<open>Recovery\<close>

lemma visit_recover:
  "records_ok p rs \<Longrightarrow> visit_records recover_visit k off rs p = Inr (last_serial p rs)"
proof (induction rs arbitrary: p off)
  case (Cons r rs)
  obtain n d where r: "r = (n, d)" by (cases r)
  then have "p < n" "records_ok n rs" using Cons.prems by simp_all
  then show ?case using Cons.IH by (simp add: r recover_visit_def not_le)
qed simp

lemma visit_recover_segments:
  "records_ok p (records_in R) \<Longrightarrow> visit_segments recover_visit R p = Inr (last_serial p (records_in R))"
proof (induction R arbitrary: p)
  case (Cons x R)
  obtain k rs where "x = (k, rs)" by (cases x)
  then show ?case using Cons by (simp add: records_ok_append visit_recover)
qed simp

definition last_key :: "(log_segment \<times> bytes) list \<Rightarrow> nat option" where
  "last_key X = (if X = [] then None else Some (fst (fst (last X))))"

definition max_key :: "(nat \<times> bytes) list \<Rightarrow> nat \<Rightarrow> nat" where
  "max_key = fold (\<lambda>(k, _) n. max n (k + 1))"

lemma max_key_bound: "n \<le> max_key fs n \<and> (\<forall>x\<in>set fs. fst x < max_key fs n)"
proof (induction fs arbitrary: n)
  case (Cons x fs)
  have "max n (fst x + 1) \<le> max_key fs (max n (fst x + 1))" "\<forall>y\<in>set fs. fst y < max_key fs (max n (fst x + 1))"
    using Cons.IH [of "max n (fst x + 1)"] by simp_all
  moreover have "max_key (x # fs) n = max_key fs (max n (fst x + 1))" by (simp add: max_key_def case_prod_beta)
  ultimately show ?case by auto
qed (simp add: max_key_def)

lemma records_le_last: "records_ok p rs \<Longrightarrow> r \<in> set rs \<Longrightarrow> fst r \<le> last_serial p rs"
proof (induction rs arbitrary: p)
  case (Cons x rs)
  obtain n d where x: "x = (n, d)" by (cases x)
  then have ok: "records_ok n rs" using Cons.prems(1) by simp
  show ?case
  proof (cases "r = x")
    case True
    then show ?thesis using records_ok_last [OF ok] by (simp add: x)
  next
    case False
    then show ?thesis using Cons.IH [OF ok] Cons.prems(2) by (simp add: x)
  qed
qed simp

lemma segments_ok_distinct: "segments_ok R \<Longrightarrow> distinct (map fst R)"
  by (auto simp: segments_ok_def strict_sorted_iff)

lemma recover_ok:
  assumes ok: "segments_ok (map fst X)" and tails: "tails_ok (last_key X) X"
  shows "\<exists>log. recover sm dm (files_of X) = Inr log \<and> log_inv log (map fst X) \<and> segment_bytes log = sm \<and>
    max_disk_bytes log = dm \<and> queue log = [] \<and> reserved_bytes log = 0 \<and> \<not> stopping log \<and> \<not> failed log \<and> \<not> fd_open log"
proof -
  let ?n = "max_key (files_of X) 1"
  let ?log = "\<lparr>directory = files_of X, segment_bytes = sm, max_disk_bytes = dm, reserved_bytes = 0, disk_bytes = 0,
    segments = map (\<lambda>(k, _). (k, new_segment)) (files_of X), serial = 0, next_segment = ?n, active = 0, fd_open = False,
    queue = [], stopping = False, failed = False\<rparr>"
  have keys: "map fst (files_of X) = keys_of X" "keys_of X = map fst (map fst X)" by (simp_all add: keys_of_def comp_def)
  have d: "distinct (keys_of X)" using segments_ok_distinct [OF ok] by (simp add: keys(2))
  have last: "(if files_of X = [] then None else Some (fst (last (files_of X)))) = last_key X"
    by (simp add: last_key_def files_of_def last_map case_prod_beta)
  have T: "map fst (map (\<lambda>(k, _). (k, new_segment)) (files_of X)) = keys_of X"
    unfolding keys(1) [symmetric] by (auto simp del: fst_files_of)
  have Z: "sizes_of (map (\<lambda>(k, _). (k, new_segment)) (files_of X)) = 0"
    by (simp add: sizes_of_def comp_def case_prod_beta new_segment_def)
  have ro: "records_ok 0 (records_in (map fst X))" using ok by (simp add: segments_ok_def)
  let ?s = "last_serial 0 (records_in (map fst X))"
  let ?res = "?log\<lparr>directory := files_of (closed_segments X), disk_bytes := sizes_of (map (\<lambda>x. info_of (fst x)) X),
    segments := map (\<lambda>x. info_of (fst x)) X\<rparr>"
  have "scan_all (last_key X) (keys_of X) recover_visit ?log 0 = Inr (?res, ?s)"
    using scan_all_files [of ?log "[]" X "[]" "map (\<lambda>(k, _). (k, new_segment)) (files_of X)" 0 "last_key X" recover_visit 0]
      d T Z tails visit_recover_segments [OF ro] by simp
  then have rec: "recover sm dm (files_of X) = Inr (?res\<lparr>serial := ?s\<rparr>)"
    unfolding recover_def Let_def max_key_def [symmetric] last keys(1) by simp
  have c: "closed_segments X = plain (map fst X)" by (auto simp: closed_segments_def plain_def)
  have k: "k < ?n" if "k \<in> fst ` set (map fst X)" for k
  proof -
    have "k \<in> set (keys_of X)" using that by (simp add: keys_of_def image_image)
    then have "k \<in> fst ` set (files_of X)" by (simp add: fst_set_files_of)
    then show ?thesis using max_key_bound [of 1 "files_of X"] by auto
  qed
  have dir: "files_of (closed_segments X) = segment_files (map fst X)" by (simp only: segment_files_open c)
  have info: "map (\<lambda>x. info_of (fst x)) X = map info_of (map fst X)" by simp
  have n: "0 < ?n" using max_key_bound [of 1 "files_of X"] by linarith
  have "log_inv (?res\<lparr>serial := ?s\<rparr>) (map fst X)"
    unfolding log_inv_def append_log.simps dir info
    using ok k n records_le_last [OF ro] by (intro conjI ballI) simp_all
  with rec show ?thesis by (intro exI [of _ "?res\<lparr>serial := ?s\<rparr>"]) simp
qed


subsection \<open>A crash\<close>

text \<open>
  What a crash leaves of the files that were written when those of \<open>durable\<close> had reached the
  disk: all but the last are complete, of the last at least the durable bytes and any number of
  the others, and the last file may be gone if it was not durable.
\<close>

inductive crashed :: "(nat \<times> bytes) list \<Rightarrow> (nat \<times> bytes) list \<Rightarrow> (nat \<times> bytes) list \<Rightarrow> bool" where
  crashed_none: "crashed durable [] []"
| crashed_cut:
    "(\<And>g. map_of durable k = Some g \<Longrightarrow> length g \<le> n) \<Longrightarrow> crashed durable (D @ [(k, f)]) (D @ [(k, take n f)])"
| crashed_gone: "map_of durable k = None \<Longrightarrow> crashed durable (D @ [(k, f)]) D"

lemma torn_take: "torn t \<Longrightarrow> torn (take n t)"
proof (cases "take n t = []")
  case False
  assume "torn t"
  then obtain m d where m: "m \<noteq> 0" "record_ok d" "strict_prefix t (frame_bytes m d)" using False by (auto simp: torn_def)
  have "strict_prefix (take n t) (frame_bytes m d)"
    using take_is_prefix [of n t] m(3) by (rule prefix_order.le_less_trans)
  then show ?thesis using m by (auto simp: torn_def)
qed (simp add: torn_def)

lemma frames_take:
  "records_ok p rs \<Longrightarrow> torn t \<Longrightarrow> \<exists>xs ys u. rs = xs @ ys \<and> take n (frames rs @ t) = frames xs @ u \<and> torn u \<and>
     (ys \<noteq> [] \<longrightarrow> n < length (frames (xs @ [hd ys])))"
proof (induction rs arbitrary: n p)
  case Nil
  then have "take n (frames [] @ t) = frames [] @ take n t \<and> torn (take n t)" by (simp add: torn_take)
  then show ?case by (intro exI [of _ "[]"] exI [of _ "take n t"]) simp
next
  case (Cons r rs)
  obtain m d where r: "r = (m, d)" by (cases r)
  have ok: "records_ok m rs" "p < m" "record_ok d" using Cons.prems(1) r by simp_all
  show ?case
  proof (cases "n < length (frame_bytes m d)")
    case True
    have "m \<noteq> 0" using ok(2) by (metis not_less_zero word_gt_0 word_not_simps(1))
    moreover have "strict_prefix (take n (frame_bytes m d)) (frame_bytes m d)"
      using True take_is_prefix [of n "frame_bytes m d"] by (auto simp: strict_prefix_def)
    ultimately have "torn (take n (frame_bytes m d))" using ok(3) by (auto simp: torn_def)
    moreover have "take n (frames (r # rs) @ t) = frames [] @ take n (frame_bytes m d)" using True by (simp add: r)
    moreover have "n < length (frames [r])" using True by (simp add: r)
    ultimately show ?thesis by (intro exI [of _ "[]"] exI [of _ "r # rs"] exI [of _ "take n (frame_bytes m d)"]) simp
  next
    case False
    let ?n = "n - length (frame_bytes m d)"
    obtain xs ys u where x: "rs = xs @ ys" "take ?n (frames rs @ t) = frames xs @ u" "torn u" "ys \<noteq> [] \<longrightarrow> ?n < length (frames (xs @ [hd ys]))"
      using Cons.IH [OF ok(1) Cons.prems(2), of ?n] by blast
    have "take n (frames (r # rs) @ t) = frames (r # xs) @ u" using False x(2) by (simp add: r)
    moreover have "ys \<noteq> [] \<longrightarrow> n < length (frames ((r # xs) @ [hd ys]))" using False x(4) by (auto simp: r)
    ultimately show ?thesis using x by (intro exI [of _ "r # xs"] exI [of _ ys] exI [of _ u]) simp
  qed
qed

end
