(* ===== verification/Log_Recovery.thy ===== *)
theory Log_Recovery
  imports Append_Log
begin

text \<open>
  The writer of the journal and what it leaves behind: every step of the writer keeps the log
  readable, whatever the outcomes of its system calls, and a crash at any point loses no record
  that was acknowledged.
\<close>

subsection \<open>What a failed write leaves\<close>

definition left_by :: "(nat \<times> bytes) list \<Rightarrow> log_segment list \<Rightarrow> bool" where
  "left_by files R \<longleftrightarrow> segments_ok R \<and>
     (files = [] \<and> R = [] \<or>
      (\<exists>R1 k rs t. R = R1 @ [(k, rs)] \<and> files = segment_files R1 @ [(k, frames rs @ t)] \<and> torn t))"

lemma torn_Nil [simp]: "torn []"
  by (simp add: torn_def)

lemma segment_files_simps [simp]:
  "segment_files [] = []" "segment_files (R @ S) = segment_files R @ segment_files S"
  "segment_files ((k, rs) # R) = (k, frames rs) # segment_files R"
  by (simp_all add: segment_files_def)

lemma left_by_files: "segments_ok R \<Longrightarrow> left_by (segment_files R) R"
proof (cases R rule: rev_cases)
  case (snoc R1 x)
  obtain k rs where "x = (k, rs)" by (cases x)
  moreover assume "segments_ok R"
  ultimately show ?thesis unfolding left_by_def snoc
    by (intro conjI disjI2 exI [of _ R1] exI [of _ k] exI [of _ rs] exI [of _ "[]"]) simp_all
qed (simp add: left_by_def)

lemma segments_ok_records: "segments_ok R \<Longrightarrow> x \<in> set R \<Longrightarrow> records_ok 0 (snd x)"
  using records_in_ok [of 0 R x] by (simp add: segments_ok_def)

lemma recover_left:
  assumes "left_by files R"
  shows "\<exists>log. recover sm dm files = Inr log \<and> log_inv log R \<and> segment_bytes log = sm \<and>
    max_disk_bytes log = dm \<and> queue log = [] \<and> reserved_bytes log = 0 \<and> \<not> stopping log \<and> \<not> failed log \<and> \<not> fd_open log"
proof -
  have ok: "segments_ok R" using assms by (simp add: left_by_def)
  consider "files = []" "R = []" |
    R1 k rs t where "R = R1 @ [(k, rs)]" "files = segment_files R1 @ [(k, frames rs @ t)]" "torn t"
    using assms unfolding left_by_def by blast
  then show ?thesis
  proof cases
    case 1
    then show ?thesis using recover_ok [of "[]" sm dm] ok by (simp add: tails_ok_def files_of_def)
  next
    case 2
    let ?X = "plain R1 @ [((k, rs), t)]"
    have f: "files_of ?X = files" by (simp add: 2(2) segment_files_open) (simp add: files_of_def)
    have m: "map fst ?X = R" by (simp add: 2(1))
    have "\<forall>x\<in>set R. records_ok 0 (snd x)" using segments_ok_records [OF ok] by blast
    then have "records_ok 0 rs" "\<forall>x\<in>set R1. records_ok 0 (snd x)" by (simp_all add: 2(1))
    then have "tails_ok (Some k) ?X" using 2(3) by (auto simp: tails_ok_def plain_def)
    moreover have "last_key ?X = Some k" by (simp add: last_key_def)
    ultimately show ?thesis using recover_ok [of ?X sm dm] ok unfolding f m by simp
  qed
qed


subsection \<open>Growing segments\<close>

definition extends :: "log_segment list \<Rightarrow> log_segment list \<Rightarrow> bool" where
  "extends R S \<longleftrightarrow> R = [] \<or> (\<exists>R1 k rs xs R2. R = R1 @ [(k, rs)] \<and> S = R1 @ (k, rs @ xs) # R2)"

lemma extendsI: "R = R1 @ [(k, rs)] \<Longrightarrow> S = R1 @ (k, rs @ xs) # R2 \<Longrightarrow> extends R S"
  unfolding extends_def by blast

lemma extendsE:
  assumes "extends R S"
  obtains "R = []" | R1 k rs xs R2 where "R = R1 @ [(k, rs)]" "S = R1 @ (k, rs @ xs) # R2"
  using assms unfolding extends_def by blast

lemma extends_refl [simp]: "extends R R"
proof (cases R rule: rev_cases)
  case (snoc R1 x)
  then show ?thesis by (intro extendsI [of R R1 "fst x" "snd x" R "[]" "[]"]) simp_all
qed (simp add: extends_def)

lemma extends_append: "extends R (R @ S)"
proof (cases R rule: rev_cases)
  case (snoc R1 x)
  then show ?thesis by (intro extendsI [of R R1 "fst x" "snd x" "R @ S" "[]" S]) simp_all
qed (simp add: extends_def)

lemma extends_trans:
  assumes "extends R S" "extends S T"
  shows "extends R T"
  using assms(1)
proof (cases rule: extendsE)
  case (2 R1 k rs xs R2)
  show ?thesis
    using assms(2)
  proof (cases rule: extendsE)
    case 1
    then show ?thesis using 2(2) by simp
  next
    case s: (2 S1 k' rs' xs' S2)
    show ?thesis
    proof (cases R2 rule: rev_cases)
      case Nil
      then have "S1 = R1" "k' = k" "rs' = rs @ xs" using 2(2) s(1) by simp_all
      then show ?thesis using s(2) by (intro extendsI [OF 2(1), of T "xs @ xs'" S2]) simp
    next
      case (snoc R3 x)
      then have "S1 = R1 @ (k, rs @ xs) # R3" using 2(2) s(1) by simp
      then show ?thesis using s(2) by (intro extendsI [OF 2(1), of T xs "R3 @ (k', rs' @ xs') # S2"]) simp
    qed
  qed
qed (simp add: extends_def)

lemma extends_prefix: "extends R S \<Longrightarrow> prefix (records_in R) (records_in S)"
  by (erule extendsE) (simp_all add: prefix_def)

lemma map_of_segment_files:
  "distinct (map fst R) \<Longrightarrow> x \<in> set R \<Longrightarrow> map_of (segment_files R) (fst x) = Some (frames (snd x))"
  by (rule map_of_is_SomeI) (auto simp: segment_files_def comp_def)

lemma map_of_segment_files_None: "map_of (segment_files R) k = None \<longleftrightarrow> k \<notin> fst ` set R"
  by (simp add: map_of_eq_None_iff segment_files_def image_image)

lemma segments_ok_take:
  assumes "segments_ok (R1 @ [(k, xs @ ys)])"
  shows "segments_ok (R1 @ [(k, xs)])" "segments_ok R1"
  using assms by (auto simp: segments_ok_def records_ok_append sorted_wrt_append)

lemma extends_last:
  assumes "extends R S" "segments_ok S" "S = S1 @ [(k, rs)]" "k \<in> fst ` set R"
  obtains rs0 zs where "R = S1 @ [(k, rs0)]" "rs = rs0 @ zs"
  using assms(1)
proof (cases rule: extendsE)
  case 1
  then show ?thesis using assms(4) by simp
next
  case (2 R1 k0 rs0 zs R2)
  have d: "distinct (map fst S)" using segments_ok_distinct [OF assms(2)] .
  show ?thesis
  proof (cases R2 rule: rev_cases)
    case Nil
    then have "S1 = R1" "k0 = k" "rs = rs0 @ zs" using 2(2) assms(3) by simp_all
    then show ?thesis using that 2(1) by simp
  next
    case (snoc R3 x)
    then have "S1 = R1 @ (k0, rs0 @ zs) # R3" using 2(2) assms(3) by simp
    then have "k \<in> set (map fst S1)" using assms(4) 2(1) by auto
    then show ?thesis using d assms(3) by simp
  qed
qed

lemma crash_left:
  assumes left: "left_by written S" and ext: "extends R S" and crash: "crashed (segment_files R) written files"
  shows "\<exists>T. left_by files T \<and> prefix (records_in R) (records_in T) \<and> prefix (records_in T) (records_in S)"
proof -
  have ok: "segments_ok S" using left by (simp add: left_by_def)
  consider "written = []" "S = []" |
    S1 k rs t where "S = S1 @ [(k, rs)]" "written = segment_files S1 @ [(k, frames rs @ t)]" "torn t"
    using left unfolding left_by_def by blast
  then show ?thesis
  proof cases
    case 1
    then have "R = []" using ext by (auto simp: extends_def)
    moreover have "files = []" using crash 1(1) by (auto elim: crashed.cases)
    ultimately show ?thesis using 1 left by (intro exI [of _ "[]"]) simp
  next
    case 2
    have ok1: "segments_ok S1" using segments_ok_take(2) [of S1 k "[]" rs] ok 2(1) by simp
    have old: "prefix (records_in R) (records_in S1)" if "k \<notin> fst ` set R"
      using ext
    proof (cases rule: extendsE)
      case e: (2 R1 k' rs' xs R2)
      have "R2 \<noteq> []" using that 2(1) e by auto
      then obtain R3 where "S1 = R1 @ (k', rs' @ xs) # R3" using 2(1) e(2) by (metis append_butlast_last_id butlast.simps(2) butlast_append butlast_snoc list.distinct(1))
      then show ?thesis using e(1) by (simp add: prefix_def)
    qed simp
    from crash show ?thesis
    proof (cases rule: crashed.cases)
      case crashed_none
      then show ?thesis using 2(2) by simp
    next
      case (crashed_cut k' n D f)
      then have c: "D = segment_files S1" "k' = k" "f = frames rs @ t" using 2(2) by simp_all
      have "records_ok 0 rs" using segments_ok_records [OF ok, of "(k, rs)"] 2(1) by simp
      then obtain xs ys u where x: "rs = xs @ ys" "take n (frames rs @ t) = frames xs @ u" "torn u" "ys \<noteq> [] \<longrightarrow> n < length (frames (xs @ [hd ys]))"
        using frames_take [OF _ 2(3), of 0 rs n] by blast
      let ?T = "S1 @ [(k, xs)]"
      have okT: "segments_ok ?T" using segments_ok_take(1) [of S1 k xs ys] ok 2(1) x(1) by simp
      then have l: "left_by files ?T"
        unfolding left_by_def using c x crashed_cut by blast
      have p: "prefix (records_in ?T) (records_in S)" using 2(1) x(1) by (simp add: prefix_def)
      have "prefix (records_in R) (records_in ?T)"
      proof (cases "k \<in> fst ` set R")
        case False
        then show ?thesis using old by (simp add: prefix_prefix)
      next
        case True
        obtain rs0 zs where e: "R = S1 @ [(k, rs0)]" "rs = rs0 @ zs" using extends_last [OF ext ok 2(1) True] .
        have "distinct (map fst R)" using segments_ok_distinct [OF ok] by (simp add: e(1) 2(1))
        then have "map_of (segment_files R) k = Some (frames rs0)"
          using map_of_segment_files [of R "(k, rs0)"] e(1) by simp
        then have n: "length (frames rs0) \<le> n" using crashed_cut(3) c(2) by blast
        have "prefix rs0 xs"
        proof (rule ccontr)
          assume a: "\<not> prefix rs0 xs"
          have "prefix rs0 (xs @ ys)" using e(2) x(1) by (metis prefixI)
          moreover have "prefix xs (xs @ ys)" by simp
          ultimately have "prefix xs rs0" using a prefix_same_cases by blast
          then obtain vs where v: "rs0 = xs @ vs" "vs \<noteq> []" using a by (auto simp: prefix_def)
          then have "ys = vs @ zs" using e(2) x(1) by simp
          then have y: "hd ys = hd vs" "ys \<noteq> []" using v(2) by simp_all
          have "frames rs0 = frames (xs @ [hd ys]) @ frames (tl vs)"
            using v y(1) by (simp flip: frames_simps(3))
          then show False using n x(4) y(2) by simp
        qed
        then show ?thesis by (auto simp: e(1) prefix_def)
      qed
      with l p show ?thesis by blast
    next
      case (crashed_gone k' f)
      then have c: "files = segment_files S1" "k' = k" using 2(2) by simp_all
      have "k \<notin> fst ` set R" using crashed_gone c by (simp add: map_of_segment_files_None)
      then have "prefix (records_in R) (records_in S1)" by (rule old)
      moreover have "prefix (records_in S1) (records_in S)" using 2(1) by (simp add: prefix_def)
      ultimately show ?thesis using left_by_files [OF ok1] c(1) by blast
    qed
  qed
qed



subsection \<open>The steps of the writer\<close>

definition same_config :: "append_log \<Rightarrow> append_log \<Rightarrow> bool" where
  "same_config a b \<longleftrightarrow> max_disk_bytes b = max_disk_bytes a \<and> segment_bytes b = segment_bytes a \<and>
     reserved_bytes b = reserved_bytes a \<and> queue b = queue a \<and> stopping b = stopping a \<and> failed b = failed a"

lemma same_config_refl [simp]: "same_config a a"
  by (simp add: same_config_def)

lemma same_config_trans: "same_config a b \<Longrightarrow> same_config b c \<Longrightarrow> same_config a c"
  by (simp add: same_config_def)

lemma close_segment_inv:
  assumes "log_inv log R" "close_segment io i log = (e, log', i')"
  shows "log_inv log' R \<and> (e = None \<longrightarrow> \<not> fd_open log') \<and> serial log' = serial log \<and> disk_bytes log' = disk_bytes log \<and>
    next_segment log' = next_segment log \<and> same_config log log' \<and> e \<in> {None, Some IoError}"
proof -
  have "log' = log \<and> e \<in> {None, Some IoError} \<and> (e = None \<longrightarrow> \<not> fd_open log) \<or> log' = log\<lparr>fd_open := False, active := 0\<rparr> \<and> e = None"
    using assms(2) by (auto simp: close_segment_def split: if_splits io_outcome.splits)
  then show ?thesis
  proof
    assume "log' = log\<lparr>fd_open := False, active := 0\<rparr> \<and> e = None"
    then show ?thesis using assms(1) by (simp add: log_inv_def same_config_def)
  qed (use assms(1) in simp)
qed

lemma segments_ok_snoc:
  assumes "segments_ok R" "\<forall>k\<in>fst ` set R. k < n" "0 < n"
  shows "segments_ok (R @ [(n, [])])"
  using assms by (auto simp: segments_ok_def sorted_wrt_append)

lemma open_segment_ok:
  assumes inv: "log_inv log R" and step: "open_segment io i log = (None, log', i')"
  shows "\<exists>S. log_inv log' S \<and> fd_open log' \<and> extends R S \<and> records_in S = records_in R \<and> serial log' = serial log \<and>
    disk_bytes log' = disk_bytes log \<and> same_config log log'"
proof (cases "fd_open log")
  case True
  then show ?thesis using inv step by (intro exI [of _ R]) (simp add: open_segment_def)
next
  case False
  let ?n = "next_segment log"
  have l: "segments_ok R" "\<forall>k\<in>fst ` set R. k < ?n" "0 < ?n" "directory log = segment_files R" "segments log = map info_of R"
    "disk_bytes log = sizes_of (segments log)" "\<forall>r\<in>set (records_in R). fst r \<le> serial log"
    using inv by (simp_all add: log_inv_def)
  have ok: "segments_ok (R @ [(?n, [])])" by (rule segments_ok_snoc [OF l(1-3)])
  have log': "log' = log\<lparr>active := ?n, next_segment := ?n + 1, fd_open := True, directory := segment_files (R @ [(?n, [])]),
      segments := map info_of (R @ [(?n, [])])\<rparr>"
    using step False by (auto simp: open_segment_def Let_def l(4,5) info_of_def new_segment_def split: io_outcome.splits)
  have "\<forall>k\<in>fst ` set (R @ [(?n, [])]). k < ?n + 1" using l(2) by auto
  then have "log_inv log' (R @ [(?n, [])])"
    using ok l(6,7) unfolding log_inv_def log' by (simp add: l(5) info_of_def)
  moreover have "records_in (R @ [(?n, [])]) = records_in R" by simp
  ultimately show ?thesis
    using extends_append by (intro exI [of _ "R @ [(?n, [])]"]) (simp add: log' same_config_def)
qed

lemma open_segment_err:
  assumes inv: "log_inv log R" and step: "open_segment io i log = (Some e, log', i')"
  shows "\<exists>S. left_by (directory log') S \<and> extends R S \<and> records_in S = records_in R \<and> disk_bytes log' = disk_bytes log \<and>
    same_config log log' \<and> e = IoError"
proof -
  let ?n = "next_segment log"
  have l: "segments_ok R" "\<forall>k\<in>fst ` set R. k < ?n" "0 < ?n" "directory log = segment_files R"
    using inv by (simp_all add: log_inv_def)
  have ok: "segments_ok (R @ [(?n, [])])" by (rule segments_ok_snoc [OF l(1-3)])
  have s: "disk_bytes log' = disk_bytes log" "same_config log log'" "e = IoError"
    using step by (auto simp: open_segment_def Let_def same_config_def split: if_splits io_outcome.splits)
  have "directory log' = segment_files R \<or> directory log' = segment_files (R @ [(?n, [])])"
    using step by (auto simp: open_segment_def Let_def l(4) split: if_splits io_outcome.splits)
  then show ?thesis
  proof
    assume "directory log' = segment_files R"
    then show ?thesis using s left_by_files [OF l(1)] by (intro exI [of _ R]) simp
  next
    assume "directory log' = segment_files (R @ [(?n, [])])"
    then show ?thesis using s left_by_files [OF ok] extends_append by (intro exI [of _ "R @ [(?n, [])]"]) simp
  qed
qed


lemma last_serial_le: "\<forall>r\<in>set rs. fst r \<le> s \<Longrightarrow> p \<le> s \<Longrightarrow> last_serial p rs \<le> s"
  by (simp add: last_serial_def)

lemma segments_ok_write:
  assumes "segments_ok (R1 @ [(k, rs)])" "\<forall>r\<in>set (records_in (R1 @ [(k, rs)])). fst r \<le> s" "s < n" "record_ok data"
  shows "segments_ok (R1 @ [(k, rs @ [(n, data)])])"
proof -
  let ?R = "R1 @ [(k, rs)]"
  have ok: "records_ok 0 (records_in ?R)" using assms(1) by (simp add: segments_ok_def)
  have "last_serial 0 (records_in ?R) \<le> s"
    using assms(2) by (intro last_serial_le) simp_all
  then have "records_ok 0 (records_in ?R @ [(n, data)])"
    using ok assms(3,4) unfolding records_ok_append by simp
  then show ?thesis using assms(1) by (simp add: segments_ok_def)
qed

text \<open>Where a record lies in the segments.\<close>

definition lies_at :: "log_segment list \<Rightarrow> location \<Rightarrow> bytes \<Rightarrow> bool" where
  "lies_at R loc d \<longleftrightarrow> (\<exists>k xs s ys. (k, xs @ (s, d) # ys) \<in> set R \<and>
     loc = \<lparr>loc_segment = k, loc_offset = length (frames xs), loc_serial = s, loc_size = length d\<rparr>)"

lemma lies_at_extends: "lies_at R loc d \<Longrightarrow> extends R S \<Longrightarrow> lies_at S loc d"
proof (erule extendsE)
  fix R1 k rs xs R2
  assume l: "lies_at R loc d" and R: "R = R1 @ [(k, rs)]" and S: "S = R1 @ (k, rs @ xs) # R2"
  obtain k' as s bs where a: "(k', as @ (s, d) # bs) \<in> set R"
    "loc = \<lparr>loc_segment = k', loc_offset = length (frames as), loc_serial = s, loc_size = length d\<rparr>"
    using l by (auto simp: lies_at_def)
  show "lies_at S loc d"
  proof (cases "(k', as @ (s, d) # bs) \<in> set R1")
    case True
    then have "(k', as @ (s, d) # bs) \<in> set S" using S by simp
    then show ?thesis using a(2) unfolding lies_at_def by blast
  next
    case False
    then have "(k', as @ (s, d) # bs @ xs) \<in> set S" using a(1) R S by simp
    then show ?thesis using a(2) unfolding lies_at_def by blast
  qed
qed (simp add: lies_at_def)

lemma read_lies_at:
  assumes inv: "log_inv log R" and at: "lies_at R loc d"
  shows "read_record loc log = Inr d"
proof -
  obtain k xs s ys where a: "(k, xs @ (s, d) # ys) \<in> set R"
    "loc = \<lparr>loc_segment = k, loc_offset = length (frames xs), loc_serial = s, loc_size = length d\<rparr>"
    using at by (auto simp: lies_at_def)
  have ok: "segments_ok R" "directory log = segment_files R" using inv by (simp_all add: log_inv_def)
  have m: "map_of (directory log) k = Some (frames xs @ frame_bytes s d @ frames ys)"
    using map_of_segment_files [OF segments_ok_distinct [OF ok(1)] a(1)] ok(2) by simp
  have r: "records_ok (last_serial 0 xs) ((s, d) # ys)"
    using segments_ok_records [OF ok(1) a(1)] by (simp add: records_ok_append)
  then have n: "record_ok d" "s \<noteq> 0" by (auto simp: word_gt_0 dest: order_le_less_trans [OF word_zero_le])
  have h: "read_at (frames xs @ frame_bytes s d @ frames ys) (length (frames xs)) header_size =
      head_bytes s d @ enc_u32 (checksum (head_bytes s d))"
    by (simp add: read_at_def take_frame_only)
  have "read_at (frames xs @ frame_bytes s d @ frames ys) (length (frames xs) + header_size) (length d) = d"
    by (simp add: read_at_def add.commute [of "length (frames xs)"] drop_frame_only flip: drop_drop)
  then show ?thesis
    unfolding read_record_def a(2) location.simps m option.simps h decode_head [OF n] by simp
qed


lemma open_last:
  assumes "log_inv log R" "fd_open log"
  obtains R1 k rs where "R = R1 @ [(k, rs)]" "active log = k" "k \<notin> fst ` set R1"
proof -
  have "R \<noteq> []" using assms by (simp add: log_inv_def)
  then obtain R1 k rs where R: "R = R1 @ [(k, rs)]" by (metis append_butlast_last_id surj_pair)
  moreover have "active log = k" using assms R by (simp add: log_inv_def)
  moreover have "k \<notin> fst ` set R1" using segments_ok_distinct [of R] assms(1) R by (auto simp: log_inv_def)
  ultimately show ?thesis using that by blast
qed

lemma change_last:
  "k \<notin> fst ` set R1 \<Longrightarrow> change k f (segment_files (R1 @ [(k, rs)])) = segment_files R1 @ [(k, f (frames rs))]"
  "k \<notin> fst ` set R1 \<Longrightarrow> change k g (map info_of (R1 @ [(k, rs)])) = map info_of R1 @ [(k, g (snd (info_of (k, rs))))]"
  "k \<notin> fst ` set R1 \<Longrightarrow> seg_of k (map info_of (R1 @ [(k, rs)])) = snd (info_of (k, rs))"
proof -
  assume k: "k \<notin> fst ` set R1"
  then have "k \<notin> fst ` set (segment_files R1)" "k \<notin> fst ` set (map info_of R1)"
    by (simp_all add: segment_files_def info_of_def image_image)
  moreover have "map_of (map info_of R1) k = None" using calculation(2) by (simp add: map_of_eq_None_iff)
  ultimately show "change k f (segment_files (R1 @ [(k, rs)])) = segment_files R1 @ [(k, f (frames rs))]"
    "change k g (map info_of (R1 @ [(k, rs)])) = map info_of R1 @ [(k, g (snd (info_of (k, rs))))]"
    "seg_of k (map info_of (R1 @ [(k, rs)])) = snd (info_of (k, rs))"
    by (simp_all add: info_of_def seg_of_def map_add_def)
qed

lemma write_frame_ok:
  assumes inv: "log_inv log R" and fd: "fd_open log" and s: "serial log < serial log + 1" and d: "record_ok data"
    and step: "write_frame io i (frame_bytes (serial log + 1) data) data log = (Inr loc, log', i')"
  shows "\<exists>S. log_inv log' S \<and> extends R S \<and> records_in S = records_in R @ [(serial log + 1, data)] \<and> lies_at S loc data \<and>
    fd_open log' \<and> serial log' = serial log + 1 \<and> disk_bytes log' = disk_bytes log + (header_size + length data) \<and> same_config log log'"
proof -
  obtain R1 k rs where R: "R = R1 @ [(k, rs)]" "active log = k" "k \<notin> fst ` set R1" using open_last [OF inv fd] .
  let ?n = "serial log + 1" let ?S = "R1 @ [(k, rs @ [(?n, data)])]"
  have l: "segments_ok R" "directory log = segment_files R" "segments log = map info_of R"
    "disk_bytes log = sizes_of (segments log)" "\<forall>r\<in>set (records_in R). fst r \<le> serial log"
    "\<forall>k\<in>fst ` set R. k < next_segment log" "0 < next_segment log"
    using inv by (simp_all add: log_inv_def)
  have ok: "segments_ok ?S" using l(1,5) unfolding R(1) by (rule segments_ok_write [OF _ _ s d])
  have ch: "change k f (directory log) = segment_files R1 @ [(k, f (frames rs))]"
    "change k g (segments log) = map info_of R1 @ [(k, g (snd (info_of (k, rs))))]"
    "seg_of k (segments log) = snd (info_of (k, rs))" for f g
    unfolding l(2,3) R(1) by (rule change_last [OF R(3)])+
  have step': "log' = log\<lparr>serial := ?n, directory := segment_files ?S, segments := map info_of ?S,
      disk_bytes := disk_bytes log + (header_size + length data)\<rparr>"
    "loc = \<lparr>loc_segment = k, loc_offset = length (frames rs), loc_serial = ?n, loc_size = length data\<rparr>"
  proof -
    have "write_frame io i (frame_bytes ?n data) data log = (Inr loc, log', i') \<Longrightarrow> io i = IoOk"
      by (cases "io i") (simp_all add: write_frame_def)
    with step have "io i = IoOk" by blast
    then show "log' = log\<lparr>serial := ?n, directory := segment_files ?S, segments := map info_of ?S,
        disk_bytes := disk_bytes log + (header_size + length data)\<rparr>"
      "loc = \<lparr>loc_segment = k, loc_offset = length (frames rs), loc_serial = ?n, loc_size = length data\<rparr>"
      using step by (simp_all add: write_frame_def Let_def R(2) ch info_of_def)
  qed
  have b: "\<forall>r\<in>set (records_in ?S). fst r \<le> ?n"
  proof
    fix r assume "r \<in> set (records_in ?S)"
    then have "r \<in> set (records_in R) \<or> r = (?n, data)" unfolding R(1) by auto
    then show "fst r \<le> ?n"
    proof
      assume "r \<in> set (records_in R)"
      then have "fst r \<le> serial log" using l(5) by blast
      then show ?thesis using s by (rule order_trans [OF _ less_imp_le])
    qed simp
  qed
  have z: "disk_bytes log + (header_size + length data) = sizes_of (map info_of ?S)"
    unfolding l(4) l(3) R(1) by (simp add: info_of_def)
  have n: "\<forall>k\<in>fst ` set ?S. k < next_segment log" using l(6) unfolding R(1) by simp
  have "log_inv log' ?S"
    unfolding log_inv_def step' append_log.simps using ok b z n l(7) fd R(2) by (intro conjI) simp_all
  moreover have "extends R ?S" using R(1) by (intro extendsI [of R R1 k rs ?S "[(?n, data)]" "[]"]) simp_all
  moreover have "lies_at ?S loc data" unfolding lies_at_def step'(2) by (rule exI [of _ k], rule exI [of _ rs]) auto
  ultimately show ?thesis using fd by (intro exI [of _ ?S]) (simp add: step'(1) R(1) same_config_def)
qed

lemma write_frame_err:
  assumes inv: "log_inv log R" and fd: "fd_open log" and s: "serial log < serial log + 1" and d: "record_ok data"
    and step: "write_frame io i (frame_bytes (serial log + 1) data) data log = (Inl e, log', i')"
  shows "\<exists>S. left_by (directory log') S \<and> extends R S \<and> prefix (records_in S) (records_in R @ [(serial log + 1, data)]) \<and>
    disk_bytes log' = disk_bytes log \<and> same_config log log' \<and> e = IoError"
proof -
  obtain R1 k rs where R: "R = R1 @ [(k, rs)]" "active log = k" "k \<notin> fst ` set R1" using open_last [OF inv fd] .
  let ?n = "serial log + 1" let ?S = "R1 @ [(k, rs @ [(?n, data)])]"
  have l: "segments_ok R" "directory log = segment_files R" "\<forall>r\<in>set (records_in R). fst r \<le> serial log"
    using inv by (simp_all add: log_inv_def)
  have ch: "change k f (directory log) = segment_files R1 @ [(k, f (frames rs))]" for f
    unfolding l(2) R(1) by (rule change_last [OF R(3)])
  obtain m where m: "log' = log\<lparr>serial := ?n, directory := segment_files R1 @ [(k, frames rs @ take m (frame_bytes ?n data))]\<rparr>" "e = IoError"
  proof (cases "io i")
    case (IoFail x)
    then show ?thesis using step that [of x] by (simp add: write_frame_def Let_def R(2) ch)
  qed (use step in \<open>simp add: write_frame_def Let_def\<close>)
  have c: "disk_bytes log' = disk_bytes log" "same_config log log'" by (simp_all add: m same_config_def)
  show ?thesis
  proof (cases "m < length (frame_bytes ?n data)")
    case True
    have "strict_prefix (take m (frame_bytes ?n data)) (frame_bytes ?n data)"
      using True take_is_prefix [of m "frame_bytes ?n data"] by (auto simp: strict_prefix_def)
    moreover have "?n \<noteq> 0" using s by auto
    ultimately have "torn (take m (frame_bytes ?n data))" using d by (auto simp: torn_def)
    then have "left_by (directory log') R"
      using l(1) unfolding left_by_def R(1) m(1) append_log.simps
      by (intro conjI disjI2 exI [of _ R1] exI [of _ k] exI [of _ rs] exI [of _ "take m (frame_bytes ?n data)"]) simp_all
    then show ?thesis using c m(2) by (intro exI [of _ R]) simp
  next
    case False
    have ok: "segments_ok ?S" using l(1,3) unfolding R(1) by (rule segments_ok_write [OF _ _ s d])
    have "directory log' = segment_files ?S" using False by (simp add: m)
    then have "left_by (directory log') ?S" using left_by_files [OF ok] by simp
    moreover have "extends R ?S" using R(1) by (intro extendsI [of R R1 k rs ?S "[(?n, data)]" "[]"]) simp_all
    ultimately show ?thesis using c m(2) by (intro exI [of _ ?S]) (simp add: R(1))
  qed
qed


text \<open>How a record is written: the frame, a possible rotation, a possible new segment, the write.\<close>

definition rotate :: "io_env \<Rightarrow> nat \<Rightarrow> bytes \<Rightarrow> append_log \<Rightarrow> journal_err option \<times> append_log \<times> nat" where
  "rotate io i bytes log =
     (if fd_open log \<and> seg_size (seg_of (active log) (segments log)) + length bytes > segment_bytes log
      then close_segment io i log else (None, log, i))"

lemma rotate_inv:
  assumes "log_inv log R" "rotate io i bytes log = (e, log', i')"
  shows "log_inv log' R \<and> serial log' = serial log \<and> disk_bytes log' = disk_bytes log \<and> same_config log log' \<and> e \<in> {None, Some IoError}"
proof (cases "fd_open log \<and> seg_size (seg_of (active log) (segments log)) + length bytes > segment_bytes log")
  case True
  then have "close_segment io i log = (e, log', i')" using assms(2) by (simp add: rotate_def)
  then show ?thesis using close_segment_inv [OF assms(1)] by blast
next
  case False
  have "rotate io i bytes log = (None, log, i)" unfolding rotate_def by (rule if_not_P [OF False])
  then show ?thesis using assms by simp
qed

lemma write_record_frame:
  assumes "record_ok data" "\<not> max_disk_bytes log < disk_bytes log + (header_size + length data)"
  shows "write_record io i data log =
    (case rotate io i (frame_bytes (serial log + 1) data) log of
       (Some e, log, i) \<Rightarrow> (Inl e, log, i)
     | (None, log, i) \<Rightarrow>
         (case open_segment io i log of
            (Some e, log, i) \<Rightarrow> (Inl e, log, i)
          | (None, log, i) \<Rightarrow> write_frame io i (frame_bytes (serial log + 1) data) data log))"
proof -
  have s: "serial log1 = serial log" if "rotate io i bs log = (x, log1, j)" for bs x log1 j
    using that by (auto simp: rotate_def close_segment_def split: if_splits io_outcome.splits)
  have t: "serial log2 = serial log1" if "open_segment io j log1 = (x, log2, j')" for log1 x log2 j j'
    using that by (auto simp: open_segment_def Let_def split: if_splits io_outcome.splits)
  have q: "\<not> (length (frame_bytes (serial log + 1) data) > max_disk_bytes log \<or>
      disk_bytes log > max_disk_bytes log - length (frame_bytes (serial log + 1) data))"
    using assms(2) by (simp add: not_less le_diff_conv2)
  show ?thesis
    unfolding write_record_def frame_Inr [OF assms(1)] sum.case rotate_def [symmetric]
    by (simp only: q if_False) (auto simp: s t split: prod.split option.split)
qed

lemma write_record_refused:
  assumes "\<not> record_ok data \<or> max_disk_bytes log < disk_bytes log + (header_size + length data)"
  shows "\<exists>e. write_record io i data log = (Inl e, log, i) \<and>
    (e = QuotaExhausted \<longrightarrow> max_disk_bytes log < disk_bytes log + (header_size + length data))"
proof (cases "record_ok data")
  case True
  have q: "length (frame_bytes (serial log + 1) data) > max_disk_bytes log \<or>
      disk_bytes log > max_disk_bytes log - length (frame_bytes (serial log + 1) data)"
    using assms True by auto
  show ?thesis
    unfolding write_record_def frame_Inr [OF True] sum.case using assms True by (simp only: q if_True) simp
next
  case False
  then have "frame (serial log + 1) data = Inl InvalidRecordSize" by (auto simp: frame_def record_ok_def)
  then show ?thesis by (simp add: write_record_def)
qed

lemma write_record_ok:
  assumes inv: "log_inv log R" and s: "serial log < serial log + 1"
    and step: "write_record io i data log = (Inr loc, log', i')"
  shows "\<exists>S. log_inv log' S \<and> extends R S \<and> records_in S = records_in R @ [(serial log + 1, data)] \<and> lies_at S loc data \<and>
    fd_open log' \<and> serial log' = serial log + 1 \<and> disk_bytes log' = disk_bytes log + (header_size + length data) \<and> same_config log log'"
proof -
  have r: "record_ok data" "\<not> max_disk_bytes log < disk_bytes log + (header_size + length data)"
    using write_record_refused [of data log io i] step by auto
  obtain log1 i1 log2 i2 where rot: "rotate io i (frame_bytes (serial log + 1) data) log = (None, log1, i1)"
    and op: "open_segment io i1 log1 = (None, log2, i2)"
    and wf: "write_frame io i2 (frame_bytes (serial log2 + 1) data) data log2 = (Inr loc, log', i')"
    using step unfolding write_record_frame [OF r] by (auto split: prod.splits option.splits)
  have 1: "log_inv log1 R" "serial log1 = serial log" "disk_bytes log1 = disk_bytes log" "same_config log log1"
    using rotate_inv [OF inv rot] by simp_all
  obtain S1 where 2: "log_inv log2 S1" "fd_open log2" "extends R S1" "records_in S1 = records_in R" "serial log2 = serial log1"
    "disk_bytes log2 = disk_bytes log1" "same_config log1 log2"
    using open_segment_ok [OF 1(1) op] by blast
  have s2: "serial log2 < serial log2 + 1" using s 1(2) 2(5) by simp
  obtain S where 3: "log_inv log' S" "extends S1 S" "records_in S = records_in S1 @ [(serial log2 + 1, data)]" "lies_at S loc data"
    "fd_open log'" "serial log' = serial log2 + 1" "disk_bytes log' = disk_bytes log2 + (header_size + length data)" "same_config log2 log'"
    using write_frame_ok [OF 2(1,2) s2 r(1) wf] by blast
  have "extends R S" using extends_trans [OF 2(3) 3(2)] .
  moreover have "same_config log log'" using 1(4) 2(7) 3(8) same_config_trans by blast
  ultimately show ?thesis using 1 2 3 by (intro exI [of _ S]) simp
qed

lemma write_record_err:
  assumes inv: "log_inv log R" and s: "serial log < serial log + 1"
    and step: "write_record io i data log = (Inl e, log', i')"
  shows "\<exists>S. left_by (directory log') S \<and> extends R S \<and> prefix (records_in S) (records_in R @ [(serial log + 1, data)]) \<and>
    disk_bytes log' = disk_bytes log \<and> same_config log log' \<and>
    (e = QuotaExhausted \<longrightarrow> max_disk_bytes log < disk_bytes log + (header_size + length data))"
proof (cases "record_ok data \<and> \<not> max_disk_bytes log < disk_bytes log + (header_size + length data)")
  case False
  have "log' = log" "e = QuotaExhausted \<longrightarrow> max_disk_bytes log < disk_bytes log + (header_size + length data)"
    using write_record_refused [of data log io i] False step by auto
  moreover have "left_by (directory log) R" using left_by_files [of R] inv by (simp add: log_inv_def)
  ultimately show ?thesis by (intro exI [of _ R]) simp
next
  case True
  then have r: "record_ok data" "\<not> max_disk_bytes log < disk_bytes log + (header_size + length data)" by simp_all
  obtain e1 log1 i1 where rot: "rotate io i (frame_bytes (serial log + 1) data) log = (e1, log1, i1)" by (metis prod_cases3)
  have 1: "log_inv log1 R" "serial log1 = serial log" "disk_bytes log1 = disk_bytes log" "same_config log log1" "e1 \<in> {None, Some IoError}"
    using rotate_inv [OF inv rot] by simp_all
  show ?thesis
  proof (cases e1)
    case (Some x)
    then have "log' = log1" "e = IoError" using step 1(5) unfolding write_record_frame [OF r] rot by simp_all
    moreover have "left_by (directory log1) R" using left_by_files [of R] 1(1) by (simp add: log_inv_def)
    ultimately show ?thesis using 1 by (intro exI [of _ R]) simp
  next
    case None
    obtain e2 log2 i2 where op: "open_segment io i1 log1 = (e2, log2, i2)" by (metis prod_cases3)
    show ?thesis
    proof (cases e2)
      case (Some x)
      then have "log' = log2" "e = x" using step None unfolding write_record_frame [OF r] rot by (simp_all add: op)
      moreover obtain S where "left_by (directory log2) S" "extends R S" "records_in S = records_in R" "disk_bytes log2 = disk_bytes log1"
        "same_config log1 log2" "x = IoError"
        using open_segment_err [OF 1(1) op [unfolded Some]] by blast
      ultimately show ?thesis using 1 same_config_trans [OF 1(4)] by (intro exI [of _ S]) simp
    next
      case n2: None
      have wf: "write_frame io i2 (frame_bytes (serial log2 + 1) data) data log2 = (Inl e, log', i')"
        using step None n2 unfolding write_record_frame [OF r] rot by (simp add: op)
      obtain S1 where 2: "log_inv log2 S1" "fd_open log2" "extends R S1" "records_in S1 = records_in R" "serial log2 = serial log1"
        "disk_bytes log2 = disk_bytes log1" "same_config log1 log2"
        using open_segment_ok [OF 1(1) op [unfolded n2]] by blast
      have s2: "serial log2 < serial log2 + 1" using s 1(2) 2(5) by simp
      obtain S where 3: "left_by (directory log') S" "extends S1 S" "prefix (records_in S) (records_in S1 @ [(serial log2 + 1, data)])"
        "disk_bytes log' = disk_bytes log2" "same_config log2 log'" "e = IoError"
        using write_frame_err [OF 2(1,2) s2 r(1) wf] by blast
      have "extends R S" using extends_trans [OF 2(3) 3(2)] .
      moreover have "same_config log log'" using 1(4) 2(7) 3(5) same_config_trans by blast
      ultimately show ?thesis using 1 2 3 by (intro exI [of _ S]) simp
    qed
  qed
qed



subsection \<open>Reclaiming segments\<close>

lemma records_ok_filter: "records_ok p (records_in R) \<Longrightarrow> records_ok p (records_in (filter P R))"
proof (induction R arbitrary: p)
  case (Cons x R)
  have ok: "records_ok p (snd x)" "records_ok (last_serial p (snd x)) (records_in R)"
    using Cons.prems by (simp_all add: records_ok_append)
  have "records_ok (last_serial p (snd x)) (records_in (filter P R))" by (rule Cons.IH [OF ok(2)])
  moreover from this have "records_ok p (records_in (filter P R))"
    by (rule records_ok_weaken [OF _ records_ok_last [OF ok(1)]])
  ultimately show ?case using ok(1) by (simp add: records_ok_append)
qed simp

lemma segments_ok_filter: "segments_ok R \<Longrightarrow> segments_ok (filter P R)"
  unfolding segments_ok_def using records_ok_filter [of 0 R P] sorted_wrt_filter [of "\<lambda>a b. fst a < fst b" R P]
  by (auto simp: sorted_wrt_map)

lemma sizes_of_remove:
  "distinct (map fst T) \<Longrightarrow> (k, i) \<in> set T \<Longrightarrow> sizes_of (filter (\<lambda>(k', _). k' \<noteq> k) T) = sizes_of T - seg_size i"
proof (induction T)
  case (Cons x T)
  obtain k' j where x: "x = (k', j)" by (cases x)
  show ?case
  proof (cases "k' = k")
    case True
    then have "k \<notin> fst ` set T" using Cons.prems(1) x by auto
    then have "\<forall>x\<in>set T. fst x \<noteq> k" by (metis image_eqI)
    then have "filter (\<lambda>(k', _). k' \<noteq> k) T = T" by (simp add: filter_id_conv case_prod_beta)
    moreover have "j = i" using Cons.prems x True by (force simp: image_iff)
    ultimately show ?thesis using True x by simp
  next
    case False
    then have i: "(k, i) \<in> set T" "distinct (map fst T)" using Cons.prems x by auto
    then have "seg_size i \<le> sizes_of T" by (induction T) auto
    then show ?thesis using False x Cons.IH [OF i(2,1)] by simp
  qed
qed simp

definition drops :: "u64 \<Rightarrow> nat list \<Rightarrow> log_segment list \<Rightarrow> log_segment list \<Rightarrow> bool" where
  "drops fence retained R S \<longleftrightarrow>
     (\<exists>P. S = filter P R \<and> (\<forall>x\<in>set R. \<not> P x \<longrightarrow> fst x \<notin> set retained \<and> last_serial 0 (snd x) \<le> fence))"

lemma drops_refl [simp]: "drops fence retained R R"
  unfolding drops_def by (rule exI [of _ "\<lambda>_. True"]) simp

lemma drops_trans: "drops fence retained R S \<Longrightarrow> drops fence retained S T \<Longrightarrow> drops fence retained R T"
  unfolding drops_def by (elim exE, rename_tac P Q, rule_tac x = "\<lambda>x. P x \<and> Q x" in exI) (auto simp: conj_commute)

lemma unlink_step:
  assumes inv: "log_inv log R" and seg: "(k, seg) \<in> set (segments log)" and act: "k \<noteq> active log"
    and cond: "seg_last seg \<le> fence" "k \<notin> set retained"
    and log': "log' = log\<lparr>directory := filter (\<lambda>(k', _). k' \<noteq> k) (directory log), disk_bytes := disk_bytes log - seg_size seg,
      segments := filter (\<lambda>(k', _). k' \<noteq> k) (segments log)\<rparr>"
  shows "log_inv log' (filter (\<lambda>x. fst x \<noteq> k) R)" "drops fence retained R (filter (\<lambda>x. fst x \<noteq> k) R)"
proof -
  let ?S = "filter (\<lambda>x. fst x \<noteq> k) R"
  have l: "segments_ok R" "directory log = segment_files R" "segments log = map info_of R" "disk_bytes log = sizes_of (segments log)"
    "\<forall>r\<in>set (records_in R). fst r \<le> serial log" "\<forall>k\<in>fst ` set R. k < next_segment log" "0 < next_segment log"
    "if fd_open log then R \<noteq> [] \<and> active log = fst (last R) else active log = 0"
    using inv by (simp_all add: log_inv_def)
  have d: "distinct (map fst R)" using segments_ok_distinct [OF l(1)] .
  have f: "filter (\<lambda>(k', _). k' \<noteq> k) (segment_files R) = segment_files ?S"
    "filter (\<lambda>(k', _). k' \<noteq> k) (map info_of R) = map info_of ?S"
    by (induction R) (auto simp: segment_files_def info_of_def)
  have z: "sizes_of (map info_of R) - seg_size seg = sizes_of (map info_of ?S)"
    using sizes_of_remove [of "segments log" k seg] seg d unfolding l(3) f by (simp add: comp_def info_of_def)
  have a: "if fd_open log then ?S \<noteq> [] \<and> active log = fst (last ?S) else active log = 0"
  proof (cases "fd_open log")
    case True
    then obtain R1 x where "R = R1 @ [x]" "fst x \<noteq> k" using l(8) act by (metis append_butlast_last_id)
    then show ?thesis using True l(8) by simp
  qed (use l(8) in simp)
  have "set (records_in ?S) \<subseteq> set (records_in R)" by auto
  then have b: "\<forall>r\<in>set (records_in ?S). fst r \<le> serial log" using l(5) by blast
  have n: "\<forall>k\<in>fst ` set ?S. k < next_segment log" using l(6) by auto
  show "log_inv log' ?S"
    unfolding log_inv_def log' append_log.simps l(2,3,4) f z
    using segments_ok_filter [OF l(1)] b n a l(7) by (intro conjI) simp_all
  obtain x where x: "x \<in> set R" "fst x = k" "seg = snd (info_of x)" using seg by (auto simp: l(3) info_of_def)
  have "y = x" if "y \<in> set R" "fst y = k" for y using d that x by (metis distinct_map inj_onD)
  moreover have "last_serial 0 (snd x) \<le> fence" using cond(1) x(3) by (simp add: info_of_def)
  ultimately show "drops fence retained R ?S"
    unfolding drops_def using cond(2) by (intro exI [of _ "\<lambda>x. fst x \<noteq> k"]) auto
qed

lemma unlink_segments_inv:
  assumes "log_inv log R" "set segs \<subseteq> set (segments log)" "distinct (map fst segs)"
    "unlink_segments io i fence retained segs log = (e, c, log', i')"
  shows "\<exists>S. log_inv log' S \<and> drops fence retained R S \<and> serial log' = serial log \<and> disk_bytes log' \<le> disk_bytes log \<and>
    same_config log log' \<and> e \<in> {None, Some IoError}"
  using assms
proof (induction segs arbitrary: log R i e c)
  case Nil
  then show ?case by (intro exI [of _ R]) simp
next
  case (Cons x segs)
  obtain k seg where x: "x = (k, seg)" by (cases x)
  have sub: "set segs \<subseteq> set (segments log)" "distinct (map fst segs)" using Cons.prems(2,3) by simp_all
  show ?case
  proof (cases "k \<noteq> active log \<and> seg_last seg \<le> fence \<and> k \<notin> set retained")
    case False
    then have "unlink_segments io i fence retained segs log = (e, c, log', i')"
      using Cons.prems(4) by (auto simp: x)
    then show ?thesis using Cons.IH [OF Cons.prems(1) sub] by blast
  next
    case True
    let ?log = "log\<lparr>directory := filter (\<lambda>(k', _). k' \<noteq> k) (directory log), disk_bytes := disk_bytes log - seg_size seg,
      segments := filter (\<lambda>(k', _). k' \<noteq> k) (segments log)\<rparr>"
    show ?thesis
    proof (cases "io i")
      case (IoFail n)
      then have "log' = log" "e = Some IoError" using Cons.prems(4) True by (simp_all add: x)
      then show ?thesis using Cons.prems(1) by (intro exI [of _ R]) simp
    next
      case IoOk
      then obtain c' where u: "unlink_segments io (i + 1) fence retained segs ?log = (e, c', log', i')"
        using Cons.prems(4) True by (auto simp: x split: prod.splits)
      have seg: "(k, seg) \<in> set (segments log)" using Cons.prems(2) x by simp
      have 1: "log_inv ?log (filter (\<lambda>x. fst x \<noteq> k) R)" "drops fence retained R (filter (\<lambda>x. fst x \<noteq> k) R)"
        using unlink_step [OF Cons.prems(1) seg _ _ _ refl] True by blast+
      have "k \<notin> fst ` set segs" using Cons.prems(3) x by simp
      then have "set segs \<subseteq> set (segments ?log)" using sub(1) by force
      then obtain S where 2: "log_inv log' S" "drops fence retained (filter (\<lambda>x. fst x \<noteq> k) R) S" "serial log' = serial ?log"
        "disk_bytes log' \<le> disk_bytes ?log" "same_config ?log log'" "e \<in> {None, Some IoError}"
        using Cons.IH [OF 1(1) _ sub(2) u] by blast
      have "drops fence retained R S" using drops_trans [OF 1(2) 2(2)] .
      moreover have "disk_bytes log' \<le> disk_bytes log" "same_config log log'" "serial log' = serial log"
        using 2(3-5) by (simp_all add: same_config_def)
      ultimately show ?thesis using 2(1,6) by blast
    qed
  qed
qed

lemma prune_segments_inv:
  assumes inv: "log_inv log R" and step: "prune_segments io i fence retained log = (e, log', i')"
  shows "\<exists>S. log_inv log' S \<and> drops fence retained R S \<and> serial log' = serial log \<and> disk_bytes log' \<le> disk_bytes log \<and>
    same_config log log' \<and> e \<in> {None, Some IoError}"
proof -
  obtain e1 c log1 i1 where u: "unlink_segments io i fence retained (segments log) log = (e1, c, log1, i1)" by (metis prod_cases4)
  have "distinct (map fst (segments log))"
    using inv segments_ok_distinct [of R] by (simp add: log_inv_def info_of_def comp_def)
  then have "\<exists>S. log_inv log1 S \<and> drops fence retained R S \<and> serial log1 = serial log \<and> disk_bytes log1 \<le> disk_bytes log \<and>
    same_config log log1 \<and> e1 \<in> {None, Some IoError}"
    using unlink_segments_inv [OF inv order_refl _ u] by blast
  moreover have "log' = log1" "e1 \<in> {None, Some IoError} \<longrightarrow> e \<in> {None, Some IoError}"
    using step u by (auto simp: prune_segments_def split: option.splits if_splits io_outcome.splits)
  ultimately show ?thesis by blast
qed



subsection \<open>A batch of appends\<close>

fun numbered :: "u64 \<Rightarrow> log_entry list \<Rightarrow> log_record list" where
  "numbered s (Append d # es) = (s + 1, d) # numbered (s + 1) es"
| "numbered s (_ # es) = numbered s es"
| "numbered s [] = []"

fun appends :: "log_entry list \<Rightarrow> bool" where
  "appends [] = True"
| "appends (e # es) \<longleftrightarrow> \<not> is_control e \<and> appends es"

lemma not_control: "\<not> is_control e \<Longrightarrow> \<exists>d. e = Append d"
  by (cases e) simp_all

lemma serial_room: "unat (s :: u64) + Suc n < 2 ^ 64 \<Longrightarrow> s < s + 1 \<and> unat (s + 1) = unat s + 1"
  by (simp add: unat_word_ariths word_less_nat_alt)

text \<open>The locations of the records of a batch.\<close>

fun located :: "log_segment list \<Rightarrow> log_entry list \<Rightarrow> location option list \<Rightarrow> bool" where
  "located R (Append d # es) (Some loc # locs) \<longleftrightarrow> lies_at R loc d \<and> located R es locs"
| "located R [] [] = True"
| "located R _ _ = False"

lemma write_entries_ok:
  assumes "log_inv log R" "appends es" "unat (serial log) + length es < 2 ^ 64" "write_entries io i es log = (None, locs, log', i')"
  shows "\<exists>S. log_inv log' S \<and> extends R S \<and> records_in S = records_in R @ numbered (serial log) es \<and> located S es locs \<and>
    (es \<noteq> [] \<longrightarrow> fd_open log') \<and> disk_bytes log' = disk_bytes log + sum_list (map entry_bytes es) \<and> same_config log log'"
  using assms
proof (induction es arbitrary: log R i locs)
  case Nil
  then show ?case by (intro exI [of _ R]) simp
next
  case (Cons e es)
  obtain d where e: "e = Append d" using Cons.prems(2) not_control by auto
  have n: "serial log < serial log + 1" "unat (serial log + 1) = unat (serial log) + 1"
    using serial_room [of "serial log" "length es"] Cons.prems(3) by simp_all
  obtain loc log1 i1 locs1 where w: "write_record io i d log = (Inr loc, log1, i1)" "write_entries io i1 es log1 = (None, locs1, log', i')"
    "locs = Some loc # locs1"
    using Cons.prems(4) by (auto simp: e split: sum.splits prod.splits)
  obtain S1 where 1: "log_inv log1 S1" "extends R S1" "records_in S1 = records_in R @ [(serial log + 1, d)]" "lies_at S1 loc d"
    "fd_open log1" "serial log1 = serial log + 1" "disk_bytes log1 = disk_bytes log + (header_size + length d)" "same_config log log1"
    using write_record_ok [OF Cons.prems(1) n(1) w(1)] by blast
  have "appends es" "unat (serial log1) + length es < 2 ^ 64" using Cons.prems(2,3) n(2) 1(6) by simp_all
  then obtain S where 2: "log_inv log' S" "extends S1 S" "records_in S = records_in S1 @ numbered (serial log1) es" "located S es locs1"
    "es \<noteq> [] \<longrightarrow> fd_open log'" "disk_bytes log' = disk_bytes log1 + sum_list (map entry_bytes es)" "same_config log1 log'"
    using Cons.IH [OF 1(1) _ _ w(2)] by blast
  have "fd_open log'" using 1(5) 2(5) w(2) by (cases es) simp_all
  moreover have "lies_at S loc d" by (rule lies_at_extends [OF 1(4) 2(2)])
  ultimately show ?case
    using 1 2 w(3) extends_trans [OF 1(2) 2(2)] same_config_trans [OF 1(8) 2(7)]
    by (intro exI [of _ S]) (simp add: e)
qed

lemma write_entries_err:
  assumes "log_inv log R" "appends es" "unat (serial log) + length es < 2 ^ 64" "write_entries io i es log = (Some e, locs, log', i')"
  shows "\<exists>S. left_by (directory log') S \<and> extends R S \<and> prefix (records_in S) (records_in R @ numbered (serial log) es) \<and>
    disk_bytes log' \<le> disk_bytes log + sum_list (map entry_bytes es) \<and> same_config log log' \<and>
    (e = QuotaExhausted \<longrightarrow> max_disk_bytes log < disk_bytes log + sum_list (map entry_bytes es))"
  using assms
proof (induction es arbitrary: log R i locs)
  case (Cons x es)
  obtain d where x: "x = Append d" using Cons.prems(2) not_control by auto
  have n: "serial log < serial log + 1" "unat (serial log + 1) = unat (serial log) + 1"
    using serial_room [of "serial log" "length es"] Cons.prems(3) by simp_all
  obtain res log1 i1 where w: "write_record io i d log = (res, log1, i1)" by (metis prod_cases3)
  show ?case
  proof (cases res)
    case (Inl e')
    then have eq: "e' = e" "log1 = log'" using Cons.prems(4) w by (simp_all add: x)
    obtain S where S: "left_by (directory log') S" "extends R S" "prefix (records_in S) (records_in R @ [(serial log + 1, d)])"
      "disk_bytes log' = disk_bytes log" "same_config log log'"
      "e = QuotaExhausted \<longrightarrow> max_disk_bytes log < disk_bytes log + (header_size + length d)"
      using write_record_err [OF Cons.prems(1) n(1)] w Inl eq by blast
    have "prefix (records_in R @ [(serial log + 1, d)]) (records_in R @ numbered (serial log) (x # es))" by (simp add: x)
    then have "prefix (records_in S) (records_in R @ numbered (serial log) (x # es))" using S(3) prefix_order.trans by blast
    then show ?thesis using S by (intro exI [of _ S]) (auto simp: x)
  next
    case (Inr loc)
    then obtain locs1 where w2: "write_entries io i1 es log1 = (Some e, locs1, log', i')"
      using Cons.prems(4) w by (auto simp: x split: prod.splits)
    obtain S1 where 1: "log_inv log1 S1" "extends R S1" "records_in S1 = records_in R @ [(serial log + 1, d)]"
      "serial log1 = serial log + 1" "disk_bytes log1 = disk_bytes log + (header_size + length d)" "same_config log log1"
      using write_record_ok [OF Cons.prems(1) n(1)] w Inr by blast
    have "appends es" "unat (serial log1) + length es < 2 ^ 64" using Cons.prems(2,3) n(2) 1(4) by simp_all
    then obtain S where 2: "left_by (directory log') S" "extends S1 S" "prefix (records_in S) (records_in S1 @ numbered (serial log1) es)"
      "disk_bytes log' \<le> disk_bytes log1 + sum_list (map entry_bytes es)" "same_config log1 log'"
      "e = QuotaExhausted \<longrightarrow> max_disk_bytes log1 < disk_bytes log1 + sum_list (map entry_bytes es)"
      using Cons.IH [OF 1(1) _ _ w2] by blast
    have m: "max_disk_bytes log1 = max_disk_bytes log" using 1(6) by (simp add: same_config_def)
    have "extends R S" using extends_trans [OF 1(2) 2(2)] .
    moreover have "same_config log log'" using same_config_trans [OF 1(6) 2(5)] .
    ultimately show ?thesis using 1(3,4,5) 2 m by (intro exI [of _ S]) (simp add: x ac_simps)
  qed
qed simp



subsection \<open>The rounds of the writer\<close>

lemma fill_batch_split: "fill_batch n es = (batch, rest) \<Longrightarrow> es = batch @ rest \<and> length batch + n \<le> max n 64"
proof (induction n es arbitrary: batch rule: fill_batch.induct)
  case (2 n e es)
  show ?case
  proof (cases "n < 64 \<and> \<not> is_control e")
    case True
    then obtain b where "fill_batch (n + 1) es = (b, rest)" "batch = e # b" using 2(2) by (auto split: prod.splits if_splits)
    then show ?thesis using 2(1) True by auto
  next
    case False
    then show ?thesis using 2(2) by (auto split: if_splits)
  qed
qed simp

lemma fill_batch_shape: "fill_batch n es = (batch, rest) \<Longrightarrow> appends batch \<or> (\<exists>e. n = 0 \<and> is_control e \<and> batch = [e])"
proof (induction n es arbitrary: batch rule: fill_batch.induct)
  case (2 n e es)
  show ?case
  proof (cases "n < 64 \<and> \<not> is_control e")
    case True
    then obtain b where "fill_batch (n + 1) es = (b, rest)" "batch = e # b" using 2(2) by (auto split: prod.splits if_splits)
    then show ?thesis using 2(1) True by fastforce
  next
    case False
    then show ?thesis using 2(2) by (auto split: if_splits)
  qed
qed simp

lemma fill_batch_empty: "fill_batch 0 es = ([], rest) \<Longrightarrow> es = []"
  by (cases es) (auto split: if_splits prod.splits)

text \<open>The invariant of every log, running or failed.\<close>

definition journal_inv :: "append_log \<Rightarrow> bool" where
  "journal_inv log \<longleftrightarrow> (\<not> failed log \<longrightarrow> (\<exists>R. log_inv log R)) \<and> (\<exists>R. left_by (directory log) R) \<and>
     reserved_bytes log = sum_list (map entry_bytes (queue log)) \<and>
     (0 < reserved_bytes log \<longrightarrow> disk_bytes log + reserved_bytes log \<le> max_disk_bytes log)"

lemma left_by_inv: "log_inv log R \<Longrightarrow> left_by (directory log) R"
  using left_by_files [of R] by (simp add: log_inv_def)

text \<open>What a batch does to the directory and to the number of bytes, in one statement.\<close>

definition batch_result :: "log_entry list \<Rightarrow> append_log \<Rightarrow> journal_err option \<Rightarrow> append_log \<Rightarrow> bool" where
  "batch_result batch log e log' \<longleftrightarrow>
     (\<exists>R. left_by (directory log') R) \<and> (e = None \<or> is_reclaim (hd batch) \<longrightarrow> (\<exists>R. log_inv log' R)) \<and>
     disk_bytes log' \<le> disk_bytes log + sum_list (map entry_bytes batch) \<and> same_config log log' \<and>
     (e = Some QuotaExhausted \<longrightarrow> 0 < sum_list (map entry_bytes batch) \<and> max_disk_bytes log < disk_bytes log + sum_list (map entry_bytes batch))"

lemma entry_bytes_pos: "appends es \<Longrightarrow> es \<noteq> [] \<Longrightarrow> 0 < sum_list (map entry_bytes es)"
proof (cases es)
  case (Cons e es')
  assume "appends es"
  then obtain d where "e = Append d" using not_control Cons by auto
  then show ?thesis by (simp add: Cons header_size_def)
qed simp

lemma write_entries_result:
  assumes inv: "log_inv log R" and n: "unat (serial log) + length batch < 2 ^ 64" and ne: "batch \<noteq> []"
    and shape: "appends batch \<or> (\<exists>e. is_control e \<and> batch = [e])"
    and step: "write_entries io i batch log = (e, locs, log', i')"
  shows "batch_result batch log e log'"
  using shape
proof
  assume a: "appends batch"
  then have h: "\<not> is_reclaim (hd batch)" using ne by (cases batch; cases "hd batch") simp_all
  show ?thesis
  proof (cases e)
    case None
    then show ?thesis
      using write_entries_ok [OF inv a n] step left_by_inv unfolding batch_result_def by (metis option.distinct(1) order_refl)
  next
    case (Some x)
    obtain S where S: "left_by (directory log') S" "disk_bytes log' \<le> disk_bytes log + sum_list (map entry_bytes batch)" "same_config log log'"
      "x = QuotaExhausted \<longrightarrow> max_disk_bytes log < disk_bytes log + sum_list (map entry_bytes batch)"
      using write_entries_err [OF inv a n] step Some by blast
    then show ?thesis unfolding batch_result_def using h Some entry_bytes_pos [OF a ne] by auto
  qed
next
  assume "\<exists>c. is_control c \<and> batch = [c]"
  then obtain c where c: "is_control c" "batch = [c]" by blast
  show ?thesis
  proof (cases c)
    case Seal
    obtain e1 log1 i1 where cl: "close_segment io i log = (e1, log1, i1)" by (metis prod_cases3)
    have 1: "log_inv log1 R" "disk_bytes log1 = disk_bytes log" "same_config log log1" "e1 \<in> {None, Some IoError}"
      using close_segment_inv [OF inv cl] by simp_all
    have "e = e1 \<and> log' = log1" using step c Seal cl by (cases e1) simp_all
    then show ?thesis unfolding batch_result_def using 1 left_by_inv [OF 1(1)] c Seal by auto
  next
    case (Reclaim fence retained)
    obtain e1 log1 i1 where pr: "prune_segments io i fence retained log = (e1, log1, i1)" by (metis prod_cases3)
    obtain S where 1: "log_inv log1 S" "disk_bytes log1 \<le> disk_bytes log" "same_config log log1" "e1 \<in> {None, Some IoError}"
      using prune_segments_inv [OF inv pr] by blast
    have "e = e1 \<and> log' = log1" using step c Reclaim pr by (cases e1) simp_all
    then show ?thesis unfolding batch_result_def using 1 left_by_inv [OF 1(1)] c Reclaim by auto
  qed (use c in simp)
qed


lemma log_inv_update [simp]:
  "log_inv (log\<lparr>failed := f\<rparr>) R = log_inv log R" "log_inv (log\<lparr>reserved_bytes := b\<rparr>) R = log_inv log R"
  "log_inv (log\<lparr>queue := q\<rparr>) R = log_inv log R" "log_inv (log\<lparr>stopping := t\<rparr>) R = log_inv log R"
  by (simp_all add: log_inv_def)

lemma work_batch_running:
  assumes step: "work_batch io i applied_ok batch log = (r, locs, log', i')" and run: "\<not> failed log"
  obtains e log1 i1 f where "write_entries io i batch log = (e, locs, log1, i1)" "e \<noteq> None \<longrightarrow> r = e" "e = None \<longrightarrow> r \<in> {None, Some IoError}"
    "log' = log1\<lparr>failed := f, reserved_bytes := reserved_bytes log1 - sum_list (map entry_bytes batch)\<rparr>"
    "r \<noteq> None \<and> \<not> is_reclaim (hd batch) \<longrightarrow> f"
proof -
  obtain e locs1 log1 i1 where w: "write_entries io i batch log = (e, locs1, log1, i1)" by (metis prod_cases4)
  obtain r1 i2 where c: "(case e of Some x \<Rightarrow> (Some x, locs1, log1, i1)
      | None \<Rightarrow> if fd_open log1 \<and> \<not> is_reclaim (hd batch)
          then (case io i1 of IoOk \<Rightarrow> (None, locs1, log1, i1 + 1) | IoFail _ \<Rightarrow> (Some IoError, locs1, log1, i1 + 1))
          else (None, locs1, log1, i1)) = (r1, locs1, log1, i2)" "e \<noteq> None \<longrightarrow> r1 = e" "e = None \<longrightarrow> r1 \<in> {None, Some IoError}"
    by (cases e; cases "fd_open log1 \<and> \<not> is_reclaim (hd batch)"; cases "io i1") auto
  have inner: "(if failed log then (Some WriterFailed, [], log, i)
      else (case write_entries io i batch log of
          (Some e, locs, log, i) \<Rightarrow> (Some e, locs, log, i)
        | (None, locs, log, i) \<Rightarrow>
            if fd_open log \<and> \<not> is_reclaim (hd batch)
            then (case io i of IoOk \<Rightarrow> (None, locs, log, i + 1) | IoFail _ \<Rightarrow> (Some IoError, locs, log, i + 1))
            else (None, locs, log, i))) = (r1, locs1, log1, i2)"
    using run w c(1) by (cases e) auto
  let ?a = "if r1 \<noteq> None \<and> \<not> is_reclaim (hd batch) then log1\<lparr>failed := True\<rparr> else log1"
  let ?b = "if applied_ok then ?a else ?a\<lparr>failed := True\<rparr>"
  have eq: "(r, locs, log', i') = (r1, locs1, ?b\<lparr>reserved_bytes := reserved_bytes ?b - sum_list (map entry_bytes batch)\<rparr>, i2)"
    unfolding step [symmetric] work_batch_def inner by (simp add: Let_def)
  have b: "?b = log1\<lparr>failed := failed ?b\<rparr>" by simp
  show ?thesis
  proof (rule that [of e log1 i1 "failed ?b"])
    show "write_entries io i batch log = (e, locs, log1, i1)" using w eq by simp
    show "e \<noteq> None \<longrightarrow> r = e" "e = None \<longrightarrow> r \<in> {None, Some IoError}" using c eq by simp_all
    show "log' = log1\<lparr>failed := failed ?b, reserved_bytes := reserved_bytes log1 - sum_list (map entry_bytes batch)\<rparr>" using eq by simp
    show "r \<noteq> None \<and> \<not> is_reclaim (hd batch) \<longrightarrow> failed ?b" using eq by simp
  qed
qed

lemma work_batch_failed:
  assumes "work_batch io i applied_ok batch log = (r, locs, log', i')" "failed log"
  shows "log' = log\<lparr>reserved_bytes := reserved_bytes log - sum_list (map entry_bytes batch)\<rparr> \<and> r = Some WriterFailed"
  using assms by (cases log) (auto simp: work_batch_def Let_def)

lemma work_inv:
  assumes inv: "journal_inv log" and n: "unat (serial log) + 64 < 2 ^ 64" and step: "work io i applied_ok log = (r, log', i')"
  shows "journal_inv log' \<and> (\<forall>e locs. r = Some (e, locs) \<longrightarrow> e \<noteq> Some QuotaExhausted)"
proof -
  obtain batch rest where fb: "fill_batch 0 (queue log) = (batch, rest)" by (cases "fill_batch 0 (queue log)")
  show ?thesis
  proof (cases "batch = []")
    case True
    then have "log' = log" "r = None" using step fb by (simp_all add: work_def)
    then show ?thesis using inv by simp
  next
    case False
    let ?log = "log\<lparr>queue := rest\<rparr>"
    obtain e locs where w: "work_batch io i applied_ok batch ?log = (e, locs, log', i')" "r = Some (e, locs)"
      using step fb False by (auto simp: work_def split: list.splits prod.splits)
    have q: "queue log = batch @ rest" "length batch \<le> 64" using fill_batch_split [OF fb] by simp_all
    have res: "reserved_bytes log = sum_list (map entry_bytes batch) + sum_list (map entry_bytes rest)"
      using inv q(1) by (simp add: journal_inv_def)
    have quota: "0 < reserved_bytes log \<Longrightarrow> disk_bytes log + reserved_bytes log \<le> max_disk_bytes log"
      using inv by (simp add: journal_inv_def)
    show ?thesis
    proof (cases "failed log")
      case True
      then have "log' = ?log\<lparr>reserved_bytes := reserved_bytes log - sum_list (map entry_bytes batch)\<rparr>" "e = Some WriterFailed"
        using work_batch_failed [OF w(1)] by simp_all
      then show ?thesis using inv True res quota w(2) by (auto simp: journal_inv_def)
    next
      case run: False
      obtain R where R: "log_inv ?log R" using inv run by (auto simp: journal_inv_def)
      have run': "\<not> failed ?log" using run by simp
      obtain e1 log1 i1 f where s: "write_entries io i batch ?log = (e1, locs, log1, i1)" "e1 \<noteq> None \<longrightarrow> e = e1" "e1 = None \<longrightarrow> e \<in> {None, Some IoError}"
        "log' = log1\<lparr>failed := f, reserved_bytes := reserved_bytes log1 - sum_list (map entry_bytes batch)\<rparr>"
        "e \<noteq> None \<and> \<not> is_reclaim (hd batch) \<longrightarrow> f"
        using work_batch_running [OF w(1) run'] .
      have b: "batch_result batch ?log e1 log1"
        using write_entries_result [OF R _ False _ s(1)] fill_batch_shape [OF fb] n q(2) by auto
      have cfg: "max_disk_bytes log1 = max_disk_bytes log" "reserved_bytes log1 = reserved_bytes log" "queue log1 = rest"
        using b by (simp_all add: batch_result_def same_config_def)
      have d: "disk_bytes log1 \<le> disk_bytes log + sum_list (map entry_bytes batch)" using b by (simp add: batch_result_def)
      have "e1 \<noteq> Some QuotaExhausted"
      proof
        assume "e1 = Some QuotaExhausted"
        then have "0 < sum_list (map entry_bytes batch)" "max_disk_bytes log < disk_bytes log + sum_list (map entry_bytes batch)"
          using b by (simp_all add: batch_result_def)
        then show False using quota res by simp
      qed
      then have ne: "e \<noteq> Some QuotaExhausted" using s(2,3) by (cases e1) auto
      have "\<exists>R. log_inv log' R" if "\<not> failed log'"
      proof -
        have "e = None \<or> is_reclaim (hd batch)" using that s(4,5) by (cases e) auto
        then have "e1 = None \<or> is_reclaim (hd batch)" using s(2) by blast
        then show ?thesis using b s(4) by (simp add: batch_result_def)
      qed
      moreover have "\<exists>R. left_by (directory log') R" using b s(4) by (simp add: batch_result_def)
      moreover have "reserved_bytes log' = sum_list (map entry_bytes (queue log'))" using s(4) cfg res by simp
      moreover have "0 < reserved_bytes log' \<longrightarrow> disk_bytes log' + reserved_bytes log' \<le> max_disk_bytes log'"
        using s(4) cfg res quota d by auto
      ultimately show ?thesis using ne w(2) by (simp add: journal_inv_def)
    qed
  qed
qed



subsection \<open>Names of segments\<close>

lemma length_digits [simp]: "length (digits w n) = w"
  by (induction w arbitrary: n) simp_all

lemma of_char_digit: "(of_char (char_of (48 + n mod 10) :: char) :: nat) = 48 + n mod 10"
proof -
  have "48 + n mod 10 < (256 :: nat)" using mod_less_divisor [of 10 n] by linarith
  then show ?thesis by (simp add: of_char_of)
qed

lemma digits_are_digits: "list_all is_digit (digits w n)"
proof (induction w arbitrary: n)
  case (Suc w)
  have "n mod 10 \<le> 9" using mod_less_divisor [of 10 n] by linarith
  then show ?case using Suc by (simp add: is_digit_def of_char_digit)
qed simp

lemma stoull_digits: "stoull (digits w n) = n mod 10 ^ w"
proof (induction w arbitrary: n)
  case (Suc w)
  have "stoull (digits (Suc w) n) = stoull (digits w (n div 10)) * 10 + n mod 10" by (simp add: stoull_def of_char_digit)
  then show ?case using Suc mod_mult2_eq [of n 10 "10 ^ w"] by (simp add: mult.commute)
qed (simp add: stoull_def)

lemma segment_id_name: "0 < k \<Longrightarrow> k < 2 ^ 64 \<Longrightarrow> segment_id (segment_name k) = Inr k"
  by (simp add: segment_id_def segment_name_def digits_are_digits stoull_digits del: digits.simps)

lemma segment_name_length: "length (segment_name k) = 24"
  by (simp add: segment_name_def del: digits.simps)

definition dir_entries :: "(nat \<times> bytes) list \<Rightarrow> (string \<times> bytes) list" where
  "dir_entries fs = map (\<lambda>(k, f). (segment_name k, f)) fs"

lemma list_segments_names:
  "\<forall>x\<in>set fs. 0 < fst x \<and> fst x < 2 ^ 64 \<Longrightarrow> list_segments (dir_entries fs) = Inr (sort_key fst fs)"
proof (induction fs)
  case (Cons x fs)
  have "segment_name (fst x) \<noteq> ''.''" "segment_name (fst x) \<noteq> ''..''"
    using segment_name_length [of "fst x"] by auto
  then show ?case using Cons by (cases x) (simp add: segment_id_name dir_entries_def)
qed (simp add: dir_entries_def)

lemma list_segments_any_order:
  assumes fs: "sorted_wrt (<) (map fst fs)" "\<forall>x\<in>set fs. 0 < fst x \<and> fst x < 2 ^ 64" and gs: "distinct gs" "set gs = set fs"
  shows "list_segments (dir_entries gs) = Inr fs"
proof -
  have d: "distinct (map fst fs)" "sorted (map fst fs)" using fs(1) by (simp_all add: strict_sorted_iff)
  then have i: "inj_on fst (set gs)" using gs(2) by (simp add: distinct_map)
  then have "distinct (map fst (sort_key fst gs))" using gs(1) by (simp add: distinct_map)
  then have "sort_key fst gs = fs"
    using map_sorted_distinct_set_unique [of fst "sort_key fst gs" fs] i d gs(2) by simp
  then show ?thesis using list_segments_names [of gs] fs(2) gs(2) by simp
qed

lemma open_log_left:
  assumes left: "left_by files R" and names: "\<forall>x\<in>set files. fst x < 2 ^ 64" and gs: "distinct gs" "set gs = set files"
  shows "open_log sm dm (dir_entries gs) = recover sm dm files"
proof -
  have "map fst files = map fst R"
    using left by (auto simp: left_by_def segment_files_def comp_def)
  then have "sorted_wrt (<) (map fst files)" "0 \<notin> set (map fst files)"
    using left by (simp_all add: left_by_def segments_ok_def)
  moreover from this(2) have "\<forall>x\<in>set files. 0 < fst x \<and> fst x < 2 ^ 64"
    using names by (metis gr0I image_eqI list.set_map)
  ultimately show ?thesis using list_segments_any_order [OF _ _ gs] by (simp add: open_log_def)
qed


subsection \<open>The logs of a broker\<close>

text \<open>
  The states of a log in any order of the calls made of it, of rounds of its writer with any
  outcomes of the system calls, and of crashes after which it is opened again.
\<close>

inductive journal :: "append_log \<Rightarrow> bool" where
  journal_new: "recover sm dm [] = Inr log \<Longrightarrow> journal log"
| journal_append: "journal log \<Longrightarrow> append data log = Inr log' \<Longrightarrow> journal log'"
| journal_seal: "journal log \<Longrightarrow> journal (seal log)"
| journal_prune: "journal log \<Longrightarrow> prune fence retained log = Inr log' \<Longrightarrow> journal log'"
| journal_stop: "journal log \<Longrightarrow> journal (log\<lparr>stopping := True\<rparr>)"
| journal_work:
    "journal log \<Longrightarrow> unat (serial log) + 64 < 2 ^ 64 \<Longrightarrow> work io i applied_ok log = (r, log', i') \<Longrightarrow> journal log'"
| journal_reopen: "journal log \<Longrightarrow> crashed [] (directory log) files \<Longrightarrow> recover sm dm files = Inr log' \<Longrightarrow> journal log'"

lemma journal_inv_recovered:
  assumes "left_by files R" "recover sm dm files = Inr log"
  shows "journal_inv log"
  using recover_left [OF assms(1), of sm dm] assms(2) left_by_inv by (auto simp: journal_inv_def)

lemma journal_inv_cong:
  assumes "journal_inv log" "log_inv log' = log_inv log" "failed log' = failed log" "directory log' = directory log"
    "reserved_bytes log' = reserved_bytes log" "sum_list (map entry_bytes (queue log')) = sum_list (map entry_bytes (queue log))"
    "disk_bytes log' = disk_bytes log" "max_disk_bytes log' = max_disk_bytes log"
  shows "journal_inv log'"
  using assms(1) unfolding journal_inv_def assms(2-8) .

lemma journal_journal_inv: "journal log \<Longrightarrow> journal_inv log"
proof (induction rule: journal.induct)
  case (journal_new sm dm log)
  have "left_by [] []" by (simp add: left_by_def segments_ok_def)
  then show ?case using journal_new journal_inv_recovered by blast
next
  case (journal_append log data log')
  then have "log' = log\<lparr>queue := queue log @ [Append data], reserved_bytes := reserved_bytes log + (length data + header_size)\<rparr>"
    "disk_bytes log + (reserved_bytes log + (length data + header_size)) \<le> max_disk_bytes log"
    by (auto simp: append_def Let_def split: if_splits)
  then show ?case using journal_append.IH by (simp add: journal_inv_def)
next
  case (journal_seal log)
  show ?case by (rule journal_inv_cong [OF journal_seal.IH]) (simp_all add: seal_def fun_eq_iff)
next
  case (journal_prune log fence retained log')
  then have "log' = log\<lparr>queue := queue log @ [Reclaim fence retained]\<rparr>" by (auto simp: prune_def split: if_splits)
  then show ?case by (intro journal_inv_cong [OF journal_prune.IH]) (simp_all add: fun_eq_iff)
next
  case (journal_stop log)
  then show ?case by (intro journal_inv_cong [OF journal_stop.IH]) (simp_all add: fun_eq_iff)
next
  case (journal_work log io i applied_ok r log' i')
  then show ?case using work_inv by blast
next
  case (journal_reopen log files sm dm log')
  then obtain R where "left_by (directory log) R" by (auto simp: journal_inv_def)
  then obtain T where "left_by files T"
    using crash_left [of "directory log" R "[]" files] journal_reopen(2) by (auto simp: extends_def)
  then show ?case using journal_reopen(3) journal_inv_recovered by blast
qed


lemma work_round:
  assumes "journal log" "\<not> failed log" "fill_batch 0 (queue log) = (batch, rest)" "work io i applied_ok log = (Some (r, locs), log', i')"
  obtains R e log1 i1 f where "log_inv (log\<lparr>queue := rest\<rparr>) R" "batch \<noteq> []" "length batch \<le> 64"
    "write_entries io i batch (log\<lparr>queue := rest\<rparr>) = (e, locs, log1, i1)" "e \<noteq> None \<longrightarrow> r = e" "e = None \<longrightarrow> r \<in> {None, Some IoError}"
    "log' = log1\<lparr>failed := f, reserved_bytes := reserved_bytes log1 - sum_list (map entry_bytes batch)\<rparr>"
proof -
  obtain R where R: "log_inv (log\<lparr>queue := rest\<rparr>) R"
    using journal_journal_inv [OF assms(1)] assms(2) by (auto simp: journal_inv_def)
  have b: "batch \<noteq> []" "work_batch io i applied_ok batch (log\<lparr>queue := rest\<rparr>) = (r, locs, log', i')"
    using assms(3,4) by (auto simp: work_def split: list.splits prod.splits)
  have run: "\<not> failed (log\<lparr>queue := rest\<rparr>)" using assms(2) by simp
  have len: "length batch \<le> 64" using fill_batch_split [OF assms(3)] by simp
  obtain e log1 i1 f where "write_entries io i batch (log\<lparr>queue := rest\<rparr>) = (e, locs, log1, i1)" "e \<noteq> None \<longrightarrow> r = e"
    "e = None \<longrightarrow> r \<in> {None, Some IoError}"
    "log' = log1\<lparr>failed := f, reserved_bytes := reserved_bytes log1 - sum_list (map entry_bytes batch)\<rparr>"
    "r \<noteq> None \<and> \<not> is_reclaim (hd batch) \<longrightarrow> f"
    using work_batch_running [OF b(2) run] .
  then show ?thesis by (intro that [OF R b(1) len])
qed

lemma log_contents_round:
  assumes "log_inv (log\<lparr>queue := q\<rparr>) R"
  shows "log_contents log = Some (records_in R)"
  using log_contents_inv [of log R] assms by simp



text \<open>A log of two records, for the concrete instances: one waiting to be written.\<close>

definition sample_log :: append_log where
  "sample_log = \<lparr>directory = [], segment_bytes = 100, max_disk_bytes = 100, reserved_bytes = 25, disk_bytes = 0, segments = [],
     serial = 0, next_segment = 1, active = 0, fd_open = False, queue = [Append [7]], stopping = False, failed = False\<rparr>"

lemma recover_empty: "recover 100 100 [] = Inr (sample_log\<lparr>reserved_bytes := 0, queue := []\<rparr>)"
  by (simp add: recover_def sample_log_def)

lemma sample_journal: "journal sample_log"
proof -
  have "append [7] (sample_log\<lparr>reserved_bytes := 0, queue := []\<rparr>) = Inr sample_log"
    by (simp add: append_def sample_log_def header_size_def Let_def)
  then show ?thesis by (rule journal_append [OF journal_new [OF recover_empty]])
qed

lemma sample_fields: "\<not> failed sample_log" "fill_batch 0 (queue sample_log) = ([Append [7]], [])" "serial sample_log = 0"
  "log_contents sample_log = Some []" "directory sample_log = []" "unat (serial sample_log) + 64 < 2 ^ 64"
  by (simp_all add: sample_log_def log_contents_def)

lemma sample_work:
  "work (\<lambda>_. IoOk) 0 True sample_log =
     (Some (None, [Some \<lparr>loc_segment = 1, loc_offset = 0, loc_serial = 1, loc_size = 1\<rparr>]),
      sample_log\<lparr>directory := [(1, frame_bytes 1 [7])], reserved_bytes := 0, disk_bytes := 25,
        segments := [(1, \<lparr>seg_size = 25, seg_last = 1\<rparr>)], serial := 1, next_segment := 2, active := 1, fd_open := True, queue := []\<rparr>, 4)"
proof -
  have "record_ok [7]" by (simp add: record_ok_def max_record_def)
  then show ?thesis
    by (simp add: work_def work_batch_def sample_log_def Let_def write_record_def frame_Inr open_segment_def write_frame_def
        header_size_def seg_of_def new_segment_def)
qed


lemma located_read:
  "located R es locs \<Longrightarrow> log_inv log R \<Longrightarrow>
   list_all2 (\<lambda>e l. \<exists>d loc. e = Append d \<and> l = Some loc \<and> read_record loc log = Inr d) es locs"
  by (induction R es locs rule: located.induct) (simp_all add: read_lies_at)

text \<open>
  C23. Every record of a batch can be read back at the location that was reported for it: after a
  round of the writer over a batch of appends that reported success, \<^verbatim>\<open>read\<close> at each location
  passes the checks of the header and of the payload and returns the record that was appended.
\<close>

theorem journal_read_back:
  assumes j: "journal log" "\<not> failed log" and n: "unat (serial log) + 64 < 2 ^ 64"
    and fb: "fill_batch 0 (queue log) = (batch, rest)" "appends batch"
    and step: "work io i applied_ok log = (Some (None, locs), log', i')"
  shows "list_all2 (\<lambda>e l. \<exists>d loc. e = Append d \<and> l = Some loc \<and> read_record loc log' = Inr d) batch locs"
proof -
  obtain R e log1 i1 f where w: "log_inv (log\<lparr>queue := rest\<rparr>) R" "batch \<noteq> []" "length batch \<le> 64"
    "write_entries io i batch (log\<lparr>queue := rest\<rparr>) = (e, locs, log1, i1)" "e \<noteq> None \<longrightarrow> None = e" "e = None \<longrightarrow> None \<in> {None, Some IoError}"
    "log' = log1\<lparr>failed := f, reserved_bytes := reserved_bytes log1 - sum_list (map entry_bytes batch)\<rparr>"
    using work_round [OF j fb(1) step] .
  have e: "e = None" using w(5) by (cases e) simp_all
  have n': "unat (serial (log\<lparr>queue := rest\<rparr>)) + length batch < 2 ^ 64" using n w(3) by simp
  obtain S where S: "log_inv log1 S" "located S batch locs"
    using write_entries_ok [OF w(1) fb(2) n' w(4) [unfolded e]] by blast
  have inv: "log_inv log' S" using S(1) by (simp add: w(7))
  show ?thesis by (rule located_read [OF S(2) inv])
qed

theorem journal_read_back_witness:
  "read_record \<lparr>loc_segment = 1, loc_offset = 0, loc_serial = 1, loc_size = 1\<rparr> (fst (snd (work (\<lambda>_. IoOk) 0 True sample_log))) = Inr [7]"
  using journal_read_back [OF sample_journal sample_fields(1,6,2) _ sample_work] by (simp add: sample_work)




lemma drops_records:
  assumes "drops fence retained R S" "segments_ok R"
  shows "subseq (records_in S) (records_in R)" "\<forall>x\<in>set (records_in R). fence < fst x \<longrightarrow> x \<in> set (records_in S)"
proof -
  obtain P where P: "S = filter P R" "\<forall>x\<in>set R. \<not> P x \<longrightarrow> last_serial 0 (snd x) \<le> fence"
    using assms(1) by (auto simp: drops_def)
  show "subseq (records_in S) (records_in R)"
    unfolding P(1) by (induction R) (auto intro: list_emb_append_mono list_emb_append2)
  show "\<forall>x\<in>set (records_in R). fence < fst x \<longrightarrow> x \<in> set (records_in S)"
  proof (intro ballI impI)
    fix r assume "r \<in> set (records_in R)" and r: "fence < fst r"
    then obtain y where y: "y \<in> set R" "r \<in> set (snd y)" by auto
    have "fst r \<le> last_serial 0 (snd y)" using records_le_last [OF segments_ok_records [OF assms(2) y(1)] y(2)] .
    then have "P y" using P(2) y(1) r by (meson leD order_trans)
    then show "r \<in> set (records_in S)" using y P(1) by (cases y) auto
  qed
qed

text \<open>
  C22. Reclaiming segments up to a sequence number loses no record above it: after a round of the
  writer with a reclamation, successful or not, the journal can be read, holds some of the records
  of before in the same order, and among them every record above the number.
\<close>

theorem journal_reclaim_keeps:
  assumes j: "journal log" "\<not> failed log" and old: "log_contents log = Some old"
    and fb: "fill_batch 0 (queue log) = ([Reclaim fence retained], rest)"
    and step: "work io i applied_ok log = (Some (r, locs), log', i')"
  shows "\<exists>rs. log_contents log' = Some rs \<and> subseq rs old \<and> (\<forall>x\<in>set old. fence < fst x \<longrightarrow> x \<in> set rs)"
proof -
  let ?batch = "[Reclaim fence retained]"
  obtain R e log1 i1 f where w: "log_inv (log\<lparr>queue := rest\<rparr>) R" "?batch \<noteq> []" "length ?batch \<le> 64"
    "write_entries io i ?batch (log\<lparr>queue := rest\<rparr>) = (e, locs, log1, i1)" "e \<noteq> None \<longrightarrow> r = e" "e = None \<longrightarrow> r \<in> {None, Some IoError}"
    "log' = log1\<lparr>failed := f, reserved_bytes := reserved_bytes log1 - sum_list (map entry_bytes ?batch)\<rparr>"
    using work_round [OF j fb step] .
  have R: "old = records_in R" "segments_ok R"
    using log_contents_round [OF w(1)] old w(1) by (simp_all add: log_inv_def)
  obtain e2 log2 i2 where p: "prune_segments io i fence retained (log\<lparr>queue := rest\<rparr>) = (e2, log2, i2)" by (metis prod_cases3)
  have "log1 = log2" using w(4) p by (cases e2) simp_all
  moreover obtain S where S: "log_inv log2 S" "drops fence retained R S" using prune_segments_inv [OF w(1) p] by blast
  ultimately have "log_inv log' S" by (simp add: w(7))
  then show ?thesis using log_contents_inv [of log' S] drops_records [OF S(2) R(2)] R(1) by simp
qed


definition written_log :: append_log where
  "written_log = fst (snd (work (\<lambda>_. IoOk) 0 True sample_log))"

lemma written_journal: "journal written_log"
  using journal_work [OF sample_journal sample_fields(6) sample_work] by (simp add: written_log_def sample_work)

lemma written_log_fields:
  "written_log = \<lparr>directory = [(1, frame_bytes 1 [7])], segment_bytes = 100, max_disk_bytes = 100, reserved_bytes = 0, disk_bytes = 25,
     segments = [(1, \<lparr>seg_size = 25, seg_last = 1\<rparr>)], serial = 1, next_segment = 2, active = 1, fd_open = True, queue = [],
     stopping = False, failed = False\<rparr>"
  unfolding written_log_def sample_work by (simp add: sample_log_def)

lemma written_inv: "log_inv written_log [(1, [(1, [7])])]"
  by (simp add: written_log_fields log_inv_def segments_ok_def info_of_def header_size_def record_ok_def max_record_def)

lemma written_contents: "log_contents (written_log\<lparr>queue := q\<rparr>) = Some [(1, [7])]"
  using log_contents_inv [of "written_log\<lparr>queue := q\<rparr>" "[(1, [(1, [7])])]"] written_inv by simp

theorem journal_reclaim_keeps_witness:
  "\<exists>log r locs rs i. work (\<lambda>_. IoOk) 0 True (written_log\<lparr>queue := [Reclaim 0 []]\<rparr>) = (Some (r, locs), log, i) \<and>
     log_contents log = Some rs \<and> (1, [7]) \<in> set rs"
proof -
  let ?log = "written_log\<lparr>queue := [Reclaim 0 []]\<rparr>"
  have "prune 0 [] written_log = Inr ?log" by (simp add: prune_def written_log_fields)
  then have j: "journal ?log" by (rule journal_prune [OF written_journal])
  have f: "\<not> failed ?log" "fill_batch 0 (queue ?log) = ([Reclaim 0 []], [])"
    by (simp_all add: written_log_fields)
  have "\<exists>r locs log i. work (\<lambda>_. IoOk) 0 True ?log = (Some (r, locs), log, i)"
    by (simp add: work_def f(2) split: prod.split)
  then obtain r locs log i where w: "work (\<lambda>_. IoOk) 0 True ?log = (Some (r, locs), log, i)" by blast
  show ?thesis using journal_reclaim_keeps [OF j f(1) written_contents f(2) w] w by auto
qed


subsection \<open>Replay\<close>

fun consecutive :: "u64 \<Rightarrow> log_record list \<Rightarrow> bool" where
  "consecutive s [] = True"
| "consecutive s ((n, d) # rs) \<longleftrightarrow> n = s \<and> consecutive (s + 1) rs"

text \<open>The records a replay visits, if none is missing.\<close>

definition later_than :: "u64 \<Rightarrow> log_record list \<Rightarrow> log_record list" where
  "later_than n rs = filter (\<lambda>r. n < fst r) rs"

lemma later_simps [simp]: "later_than n [] = []" "later_than n (xs @ ys) = later_than n xs @ later_than n ys"
  "later_than n (r # rs) = (if n < fst r then r # later_than n rs else later_than n rs)"
  by (simp_all add: later_than_def)

lemma consecutive_append:
  "consecutive s (xs @ ys) \<longleftrightarrow> consecutive s xs \<and> consecutive (s + of_nat (length xs)) ys"
proof (induction xs arbitrary: s)
  case (Cons x xs)
  then show ?case by (cases x) (simp add: add.assoc)
qed simp

lemma replay_step:
  "replay_visit n collect_visit (s, acc) loc d =
     (if loc_serial loc \<le> n then Inr (s, acc) else if loc_serial loc \<noteq> s then Inl MissingRecords
      else Inr (s + 1, acc @ [(loc_serial loc, d)]))"
  by (simp add: replay_visit_def collect_visit_def)

lemma visit_replay:
  "visit_records (replay_visit n collect_visit) k off rs (s, acc) =
     (if consecutive s (later_than n rs) then Inr (s + of_nat (length (later_than n rs)), acc @ later_than n rs) else Inl MissingRecords)"
proof (induction rs arbitrary: off s acc)
  case (Cons r rs)
  obtain m d where r: "r = (m, d)" by (cases r)
  have "n < m \<longleftrightarrow> \<not> m \<le> n" by auto
  then show ?case
    using Cons.IH by (cases "m \<le> n"; cases "m = s") (simp_all add: r replay_step add.assoc)
qed simp

lemma visit_replay_segments:
  "visit_segments (replay_visit n collect_visit) R (s, acc) =
     (if consecutive s (later_than n (records_in R)) then Inr (s + of_nat (length (later_than n (records_in R))), acc @ later_than n (records_in R))
      else Inl MissingRecords)"
proof (induction R arbitrary: s acc)
  case (Cons x R)
  obtain k rs where "x = (k, rs)" by (cases x)
  then show ?case using Cons.IH by (simp add: visit_replay consecutive_append add.assoc)
qed simp

text \<open>
  C21. Replay after a checkpoint delivers exactly the records above it: on a log that can be read
  the visitor is given every record whose sequence number is larger than the checkpoint's, once
  and in order, provided these follow the checkpoint without a gap, and the log then continues
  after both; with a gap the replay is refused.
\<close>

theorem journal_replay:
  assumes "journal log" "\<not> failed log" "log_contents log = Some rs"
  shows "replay n collect_visit log [] =
    (if consecutive (n + 1) (later_than n rs) then Inr (log\<lparr>serial := max (serial log) n\<rparr>, later_than n rs) else Inl MissingRecords)"
proof -
  obtain R where R: "log_inv log R" using journal_journal_inv [OF assms(1)] assms(2) by (auto simp: journal_inv_def)
  then have "rs = records_in R" using log_contents_inv [OF R] assms(3) by simp
  then show ?thesis
    unfolding replay_def scan_all_log [OF R] visit_replay_segments by simp
qed

theorem journal_replay_witness: "\<exists>log. replay 0 collect_visit written_log [] = Inr (log, [(1, [7])])"
proof -
  have "\<not> failed written_log" "written_log\<lparr>queue := []\<rparr> = written_log"
    by (simp_all add: written_log_fields)
  then show ?thesis
    using journal_replay [OF written_journal _ written_contents [of "[]", unfolded \<open>written_log\<lparr>queue := []\<rparr> = written_log\<close>], of 0] by simp
qed

end
