(* ===== verification/Message_Content.thy ===== *)
theory Message_Content
  imports Mqtt_Packet
begin

text \<open>
  \<^verbatim>\<open>src/session/mqtt_message_queue.h\<close>: the message content that sessions share, the
  counted pointers to it, and the cache of contents.  Points in time are nanoseconds of the
  steady clock.
\<close>

subsection \<open>Shared contents\<close>

record shared_content =
  sc_topic :: bytes
  sc_payload :: bytes
  sc_dup :: bool
  sc_qos :: byte
  sc_retain :: bool
  sc_properties :: properties
  sc_timestamp :: nat
  sc_expiry :: "nat option"
  sc_sender :: bytes

definition shared_message_content ::
  "nat \<Rightarrow> bytes \<Rightarrow> bytes \<Rightarrow> byte \<Rightarrow> bool \<Rightarrow> bool \<Rightarrow> properties \<Rightarrow> bytes \<Rightarrow> shared_content" where
  "shared_message_content clock topic msg_payload msg_qos msg_retain msg_dup props sender =
     \<lparr>sc_topic = topic, sc_payload = msg_payload, sc_dup = msg_dup, sc_qos = msg_qos, sc_retain = msg_retain,
      sc_properties = props, sc_timestamp = clock, sc_expiry = None, sc_sender = sender\<rparr>"


subsection \<open>Counted pointers\<close>

text \<open>
  The objects on the heap with their reference counts, and the pointer variables that are alive
  with what they hold.  A step is \<open>None\<close> if it touches an object that has been deleted, or lowers
  a count that is zero.
\<close>

type_synonym address = nat
type_synonym variable = nat

record pointers =
  counts :: "address \<Rightarrow> nat option"
  held :: "variable \<Rightarrow> address option option"

definition no_pointers :: pointers where
  "no_pointers = \<lparr>counts = (\<lambda>_. None), held = (\<lambda>_. None)\<rparr>"

definition add_ref :: "address \<Rightarrow> pointers \<Rightarrow> pointers option" where
  "add_ref a s = (case counts s a of None \<Rightarrow> None | Some n \<Rightarrow> Some (s\<lparr>counts := (counts s)(a \<mapsto> n + 1)\<rparr>))"

definition release :: "address \<Rightarrow> pointers \<Rightarrow> pointers option" where
  "release a s =
     (case counts s a of
        None \<Rightarrow> None
      | Some n \<Rightarrow> if n = 0 then None else Some (s\<lparr>counts := (counts s)(a := (if n = 1 then None else Some (n - 1)))\<rparr>))"

definition add_held :: "address option \<Rightarrow> pointers \<Rightarrow> pointers option" where
  "add_held p s = (case p of None \<Rightarrow> Some s | Some a \<Rightarrow> add_ref a s)"

definition release_held :: "address option \<Rightarrow> pointers \<Rightarrow> pointers option" where
  "release_held p s = (case p of None \<Rightarrow> Some s | Some a \<Rightarrow> release a s)"

definition holds :: "variable \<Rightarrow> pointers \<Rightarrow> address option" where
  "holds v s = (case held s v of None \<Rightarrow> None | Some p \<Rightarrow> p)"

definition hold :: "variable \<Rightarrow> address option \<Rightarrow> pointers \<Rightarrow> pointers" where
  "hold v p s = s\<lparr>held := (held s)(v \<mapsto> p)\<rparr>"

text \<open>The operations of \<^verbatim>\<open>SharedMessageContentPtr\<close>; a new object starts with count 0.\<close>

datatype ptr_op =
    Default variable
  | Construct variable address
  | Copy variable variable
  | Move variable variable
  | CopyAssign variable variable
  | MoveAssign variable variable
  | Reset variable
  | Destroy variable

fun ptr_step :: "ptr_op \<Rightarrow> pointers \<Rightarrow> pointers option" where
  "ptr_step (Default v) s = Some (hold v None s)"
| "ptr_step (Construct v a) s = add_held (Some a) (hold v (Some a) (s\<lparr>counts := (counts s)(a \<mapsto> 0)\<rparr>))"
| "ptr_step (Copy v w) s = add_held (holds w s) (hold v (holds w s) s)"
| "ptr_step (Move v w) s = Some (hold w None (hold v (holds w s) s))"
| "ptr_step (CopyAssign v w) s =
     (if v = w then Some s
      else case release_held (holds v s) s of
        None \<Rightarrow> None
      | Some s \<Rightarrow> add_held (holds w s) (hold v (holds w s) s))"
| "ptr_step (MoveAssign v w) s =
     (if v = w then Some s
      else case release_held (holds v s) s of
        None \<Rightarrow> None
      | Some s \<Rightarrow> Some (hold w None (hold v (holds w s) s)))"
| "ptr_step (Reset v) s = (case release_held (holds v s) s of None \<Rightarrow> None | Some s \<Rightarrow> Some (hold v None s))"
| "ptr_step (Destroy v) s =
     (case release_held (holds v s) s of None \<Rightarrow> None | Some s \<Rightarrow> Some (s\<lparr>held := (held s)(v := None)\<rparr>))"

text \<open>When C++ allows a step: variables are constructed once, used while alive, and addresses given out by new are free.\<close>

fun ptr_allowed :: "ptr_op \<Rightarrow> pointers \<Rightarrow> bool" where
  "ptr_allowed (Default v) s \<longleftrightarrow> held s v = None"
| "ptr_allowed (Construct v a) s \<longleftrightarrow> held s v = None \<and> counts s a = None"
| "ptr_allowed (Copy v w) s \<longleftrightarrow> held s v = None \<and> held s w \<noteq> None"
| "ptr_allowed (Move v w) s \<longleftrightarrow> held s v = None \<and> held s w \<noteq> None"
| "ptr_allowed (CopyAssign v w) s \<longleftrightarrow> held s v \<noteq> None \<and> held s w \<noteq> None"
| "ptr_allowed (MoveAssign v w) s \<longleftrightarrow> held s v \<noteq> None \<and> held s w \<noteq> None"
| "ptr_allowed (Reset v) s \<longleftrightarrow> held s v \<noteq> None"
| "ptr_allowed (Destroy v) s \<longleftrightarrow> held s v \<noteq> None"

inductive ptr_run :: "pointers \<Rightarrow> bool" where
  "ptr_run no_pointers"
| "ptr_run s \<Longrightarrow> ptr_allowed c s \<Longrightarrow> ptr_step c s = Some t \<Longrightarrow> ptr_run t"


subsection \<open>The cache\<close>

function decimal :: "nat \<Rightarrow> bytes" where
  "decimal n = (if n < 10 then [of_nat (48 + n)] else decimal (n div 10) @ [of_nat (48 + n mod 10)])"
  by pat_completeness auto
termination by (relation "measure id") auto

abbreviation bar :: byte where "bar \<equiv> 0x7C"

definition generate_cache_key :: "bytes \<Rightarrow> bytes \<Rightarrow> nat \<Rightarrow> byte \<Rightarrow> bytes" where
  "generate_cache_key topic sender payload_size q =
     topic @ [bar] @ sender @ [bar] @ decimal payload_size @ [bar] @ decimal (unat q)"

type_synonym content_cache = "bytes \<rightharpoonup> shared_content"

definition get_or_create_content ::
  "nat \<Rightarrow> bytes \<Rightarrow> bytes \<Rightarrow> byte \<Rightarrow> bool \<Rightarrow> bool \<Rightarrow> properties \<Rightarrow> bytes \<Rightarrow> content_cache \<Rightarrow> shared_content \<times> content_cache" where
  "get_or_create_content clock topic payload q retain dup props sender cache =
     (let key = generate_cache_key topic sender (length payload) q in
      case cache key of
        Some c \<Rightarrow> (c, cache)
      | None \<Rightarrow>
          let c = shared_message_content clock topic payload q retain dup props sender in (c, cache(key \<mapsto> c)))"

definition get_or_create_content_from_packet :: "nat \<Rightarrow> publish_packet \<Rightarrow> bytes \<Rightarrow> content_cache \<Rightarrow> shared_content \<times> content_cache" where
  "get_or_create_content_from_packet clock p sender cache =
     get_or_create_content clock (topic_name p) (publish_payload p) (publish_qos p) (retain_flag p) (dup_flag p)
       (publish_properties p) sender cache"

definition cleanup_expired_content :: "nat \<Rightarrow> nat \<Rightarrow> content_cache \<Rightarrow> content_cache" where
  "cleanup_expired_content clock max_age_seconds cache =
     (\<lambda>k. case cache k of
        None \<Rightarrow> None
      | Some c \<Rightarrow> if clock - sc_timestamp c > max_age_seconds * 1000000000 then None else Some c)"

definition clear_cache :: content_cache where
  "clear_cache = Map.empty"


subsection \<open>Counts are exact\<close>

definition holders :: "pointers \<Rightarrow> address \<Rightarrow> variable set" where
  "holders s a = {v. held s v = Some (Some a)}"

definition pointers_ok :: "pointers \<Rightarrow> bool" where
  "pointers_ok s \<longleftrightarrow> finite (dom (held s)) \<and>
     (\<forall>a. counts s a = (if holders s a = {} then None else Some (card (holders s a))))"

lemma finite_holders: "finite (dom (held s)) \<Longrightarrow> finite (holders s a)"
  by (rule finite_subset [of _ "dom (held s)"]) (auto simp: holders_def)

lemma counts_none: "pointers_ok s \<Longrightarrow> counts s a = None \<longleftrightarrow> holders s a = {}"
  by (simp add: pointers_ok_def)

text \<open>Taking a reference for \<open>v\<close>, which holds nothing, and giving it up.\<close>

lemma take_ref:
  assumes ok: "pointers_ok s" and v: "holds v s = None" and w: "holders s a \<noteq> {}"
  shows "\<exists>t. add_held (Some a) (hold v (Some a) s) = Some t \<and> pointers_ok t \<and> held t = (held s)(v \<mapsto> Some a)"
proof -
  have n: "counts s a = Some (card (holders s a))" using ok w by (simp add: pointers_ok_def)
  let ?t = "hold v (Some a) s\<lparr>counts := (counts s)(a \<mapsto> card (holders s a) + 1)\<rparr>"
  have t: "add_held (Some a) (hold v (Some a) s) = Some ?t" using n by (simp add: add_held_def add_ref_def hold_def)
  have h: "holders ?t b = (if b = a then insert v (holders s a) else holders s b)" for b
    using v by (auto simp: holders_def hold_def holds_def split: option.splits)
  have f: "finite (holders s a)" "finite (dom (held s))" using ok finite_holders by (auto simp: pointers_ok_def)
  have "v \<notin> holders s a" using v by (auto simp: holders_def holds_def)
  then have "card (insert v (holders s a)) = card (holders s a) + 1" using f(1) by simp
  then have "pointers_ok ?t"
    using ok f(2) unfolding pointers_ok_def h by (simp add: hold_def)
  then show ?thesis using t by (simp add: hold_def)
qed

lemma give_ref:
  assumes ok: "pointers_ok s" and v: "held s v = Some p"
  shows "\<exists>t. release_held p s = Some t \<and> held t = held s \<and> pointers_ok (hold v None t) \<and> pointers_ok (t\<lparr>held := (held t)(v := None)\<rparr>)"
proof (cases p)
  case None
  have "holders (hold v None s) a = holders s a" "holders (s\<lparr>held := (held s)(v := None)\<rparr>) a = holders s a" for a
    using v None by (auto simp: holders_def hold_def)
  then show ?thesis using ok v None unfolding release_held_def
    by (auto simp: pointers_ok_def hold_def)
next
  case (Some a)
  have in_h: "v \<in> holders s a" using v Some by (simp add: holders_def)
  have f: "finite (holders s a)" "finite (dom (held s))" using ok finite_holders by (auto simp: pointers_ok_def)
  have n: "counts s a = Some (card (holders s a))" using ok in_h by (auto simp: pointers_ok_def)
  have pos: "0 < card (holders s a)" using f(1) in_h by (auto simp: card_gt_0_iff)
  let ?c = "(counts s)(a := (if card (holders s a) = 1 then None else Some (card (holders s a) - 1)))"
  let ?t = "s\<lparr>counts := ?c\<rparr>"
  have t: "release_held p s = Some ?t" using n pos by (simp add: release_held_def release_def Some)
  have h: "holders (hold v None ?t) b = holders s b - {v}" "holders (?t\<lparr>held := (held ?t)(v := None)\<rparr>) b = holders s b - {v}" for b
    by (auto simp: holders_def hold_def)
  have other: "holders s b - {v} = holders s b" if "b \<noteq> a" for b using v Some that by (auto simp: holders_def)
  have "holders s a - {v} = {} \<longleftrightarrow> card (holders s a - {v}) = 0" using f(1) by (simp only: card_0_eq finite_Diff)
  moreover have "card (holders s a - {v}) = card (holders s a) - 1" using in_h by (rule card_Diff_singleton)
  ultimately have e: "holders s a - {v} = {} \<longleftrightarrow> card (holders s a) = 1" using pos by linarith
  have c: "?c b = (if holders s b - {v} = {} then None else Some (card (holders s b - {v})))" for b
  proof (cases "b = a")
    case True
    then show ?thesis using e in_h f(1) by simp
  next
    case False
    then show ?thesis using other [OF False] ok by (simp add: pointers_ok_def)
  qed
  have "pointers_ok (hold v None ?t)" "pointers_ok (?t\<lparr>held := (held ?t)(v := None)\<rparr>)"
    unfolding pointers_ok_def h using c f(2) by (simp_all add: hold_def)
  then show ?thesis using t by simp
qed


lemma holders_nonempty: "holds w s = Some a \<Longrightarrow> holders s a \<noteq> {}"
  by (auto simp: holders_def holds_def split: option.splits)

lemma bij_counts: "bij_betw f A B \<Longrightarrow> card B = card A \<and> (B = {} \<longleftrightarrow> A = {})"
  using bij_betw_same_card [of f A B] bij_betw_imp_surj_on [of f A B] by auto

lemma ptr_step_ok:
  assumes ok: "pointers_ok s" and allowed: "ptr_allowed c s"
  shows "\<exists>t. ptr_step c s = Some t \<and> pointers_ok t"
proof (cases c)
  case (Default v)
  then have v: "held s v = None" using allowed by simp
  have "holders (hold v None s) a = holders s a" for a using v by (auto simp: holders_def hold_def)
  then show ?thesis using ok Default by (simp add: pointers_ok_def) (simp add: hold_def)
next
  case (Construct v a)
  then have v: "held s v = None" "counts s a = None" using allowed by simp_all
  have none: "holders s a = {}" using ok v(2) counts_none by blast
  let ?t = "s\<lparr>held := (held s)(v \<mapsto> Some a), counts := (counts s)(a \<mapsto> 1)\<rparr>"
  have "holders ?t b = (if b = a then {v} else holders s b)" for b
    using v(1) none by (auto simp: holders_def)
  then have "pointers_ok ?t" using ok by (simp add: pointers_ok_def)
  then show ?thesis using Construct by (simp add: add_held_def add_ref_def hold_def)
next
  case (Copy v w)
  then have v: "held s v = None" "holds v s = None" using allowed by (simp_all add: holds_def)
  show ?thesis
  proof (cases "holds w s")
    case None
    have "holders (hold v None s) a = holders s a" for a using v(1) by (auto simp: holders_def hold_def)
    then show ?thesis using ok Copy None by (simp add: add_held_def pointers_ok_def) (simp add: hold_def)
  next
    case (Some a)
    then show ?thesis using take_ref [OF ok v(2) holders_nonempty [OF Some]] Copy by auto
  qed
next
  case (Move v w)
  then have v: "held s v = None" "held s w \<noteq> None" "v \<noteq> w" using allowed by auto
  let ?t = "hold w None (hold v (holds w s) s)"
  have "bij_betw (\<lambda>x. if x = w then v else x) (holders s a) (holders ?t a)" for a
    using v by (intro bij_betw_byWitness [where f' = "\<lambda>x. if x = v then w else x"]) (auto simp: holders_def hold_def holds_def)
  then have "card (holders ?t a) = card (holders s a) \<and> (holders ?t a = {} \<longleftrightarrow> holders s a = {})" for a
    by (rule bij_counts)
  then have "pointers_ok ?t" using ok by (simp add: pointers_ok_def) (simp add: hold_def)
  then show ?thesis using Move by simp
next
  case (CopyAssign v w)
  show ?thesis
  proof (cases "v = w")
    case True
    then show ?thesis using ok CopyAssign by simp
  next
    case False
    obtain p q where p: "held s v = Some p" "held s w = Some q" using allowed CopyAssign by auto
    obtain t where t: "release_held p s = Some t" "held t = held s" "pointers_ok (hold v None t)" using give_ref [OF ok p(1)] by blast
    have h: "holds v s = p" "holds w t = q" "holds w (hold v None t) = q" "holds v (hold v None t) = None"
      using p t(2) False by (simp_all add: holds_def hold_def)
    have two: "hold v q (hold v None t) = hold v q t" by (simp add: hold_def)
    show ?thesis
    proof (cases q)
      case None
      then show ?thesis using CopyAssign False t h by (simp add: add_held_def)
    next
      case (Some a)
      then have "holders (hold v None t) a \<noteq> {}" using holders_nonempty [of w "hold v None t" a] h(3) by simp
      from take_ref [OF t(3) h(4) this] show ?thesis using CopyAssign False t(1) h two Some by auto
    qed
  qed
next
  case (MoveAssign v w)
  show ?thesis
  proof (cases "v = w")
    case True
    then show ?thesis using ok MoveAssign by simp
  next
    case False
    obtain p q where p: "held s v = Some p" "held s w = Some q" using allowed MoveAssign by auto
    obtain t where t: "release_held p s = Some t" "held t = held s" "pointers_ok (hold v None t)" using give_ref [OF ok p(1)] by blast
    let ?s = "hold v None t" let ?t = "hold w None (hold v q t)"
    have "bij_betw (\<lambda>x. if x = w then v else x) (holders ?s a) (holders ?t a)" for a
      using p t(2) False by (intro bij_betw_byWitness [where f' = "\<lambda>x. if x = v then w else x"]) (auto simp: holders_def hold_def)
    then have "card (holders ?t a) = card (holders ?s a) \<and> (holders ?t a = {} \<longleftrightarrow> holders ?s a = {})" for a
      by (rule bij_counts)
    then have "pointers_ok ?t" using t(3) by (simp add: pointers_ok_def) (simp add: hold_def)
    then show ?thesis using MoveAssign False t(1,2) p by (simp add: holds_def)
  qed
next
  case (Reset v)
  obtain p where p: "held s v = Some p" using allowed Reset by auto
  then show ?thesis using give_ref [OF ok p] Reset by (auto simp: holds_def)
next
  case (Destroy v)
  obtain p where p: "held s v = Some p" using allowed Destroy by auto
  then show ?thesis using give_ref [OF ok p] Destroy by (auto simp: holds_def)
qed

lemma ptr_run_ok: "ptr_run s \<Longrightarrow> pointers_ok s"
proof (induction rule: ptr_run.induct)
  case 1
  show ?case by (simp add: pointers_ok_def no_pointers_def holders_def)
next
  case (2 s c t)
  then show ?case using ptr_step_ok [of s c] by auto
qed



end
