(* ===== verification/Retain_Store.thy ===== *)
theory Retain_Store
  imports Topic_Tree Message_Content "HOL-Library.Product_Lexorder"
begin

text \<open>
  \<^verbatim>\<open>RetainStore\<close> of \<^verbatim>\<open>src/session/mqtt_retain_store.{h,cpp}\<close>: the retained messages in
  a trie of topic levels with an index by time of expiry.  The children of a node are listed in
  the order in which the unordered map is traversed; the index, a \<^verbatim>\<open>std::set\<close> of pairs, is
  its ascending list.  A pointer to a node is its path.  Times are nanoseconds of the steady
  clock; the reading of the clock that limits warnings is a parameter.  Allocations of nodes are
  numbered and succeed as \<open>mem\<close> says.
\<close>

definition retain_handling_delivers :: "byte \<Rightarrow> bool \<Rightarrow> bool" where
  "retain_handling_delivers rh existed = (if rh \<ge> 2 then False else if rh = 1 \<and> existed then False else True)"

datatype write_kind = Stored | Replaced | Removed | Absent | Rejected

record write_result =
  kind :: write_kind
  message_delta :: int
  byte_delta :: int
  warn :: "string option"

definition no_result :: write_result where
  "no_result = \<lparr>kind = Absent, message_delta = 0, byte_delta = 0, warn = None\<rparr>"

record retained_copy =
  rc_topic :: bytes
  rc_content :: "shared_content option"
  rc_expires :: "nat option"

record match_result =
  messages :: "retained_copy list"
  match_truncated :: bool
  match_message_delta :: int
  match_byte_delta :: int

record retain_config =
  max_messages :: nat
  max_payload_bytes :: nat
  max_total_bytes :: nat

record retain_item =
  ri_content :: shared_content
  ri_expires :: "nat option"
  ri_bytes :: nat

datatype rnode = RNode (r_children: "(level \<times> rnode) list") (r_item: "retain_item option")

definition new_rnode :: rnode where
  "new_rnode = RNode [] None"

type_synonym expiry_index = "(nat \<times> bytes) list"

record retain_store =
  rs_root :: rnode
  rs_expiry :: expiry_index
  message_count :: nat
  total_bytes :: nat
  last_warn :: "nat option"

definition empty_store :: retain_store where
  "empty_store = \<lparr>rs_root = new_rnode, rs_expiry = [], message_count = 0, total_bytes = 0, last_warn = None\<rparr>"


subsection \<open>Topics and nodes\<close>

fun retain_split_loop :: "bytes \<Rightarrow> bytes \<Rightarrow> level list" where
  "retain_split_loop current [] = [current]"
| "retain_split_loop current (c # cs) =
     (if c = slash then current # retain_split_loop [] cs else retain_split_loop (current @ [c]) cs)"

definition retain_split :: "bytes \<Rightarrow> level list" where
  "retain_split topic = retain_split_loop [] topic"

definition join_topic :: "bytes \<Rightarrow> level \<Rightarrow> bool \<Rightarrow> bytes" where
  "join_topic parent segment at_root = (if at_root then segment else parent @ [slash] @ segment)"

definition r_child :: "level \<Rightarrow> rnode \<Rightarrow> rnode option" where
  "r_child l nd = map_of (r_children nd) l"

definition r_put :: "level \<Rightarrow> rnode \<Rightarrow> rnode \<Rightarrow> rnode" where
  "r_put l ch nd = RNode (put l ch (r_children nd)) (r_item nd)"

definition r_drop :: "level \<Rightarrow> rnode \<Rightarrow> rnode" where
  "r_drop l nd = RNode (filter (\<lambda>(k, _). k \<noteq> l) (r_children nd)) (r_item nd)"

text \<open>\<^verbatim>\<open>descend\<close> without and with creation of the missing nodes.\<close>

fun descend :: "level list \<Rightarrow> rnode \<Rightarrow> rnode option" where
  "descend [] nd = Some nd"
| "descend (s # ss) nd = (case r_child s nd of None \<Rightarrow> None | Some ch \<Rightarrow> descend ss ch)"

fun descend_create :: "node_memory \<Rightarrow> nat \<Rightarrow> level list \<Rightarrow> rnode \<Rightarrow> bool \<times> rnode" where
  "descend_create mem i [] nd = (True, nd)"
| "descend_create mem i (s # ss) nd =
     (case r_child s nd of
        None \<Rightarrow>
          if mem i then (case descend_create mem (i + 1) ss new_rnode of (ok, ch) \<Rightarrow> (ok, r_put s ch nd))
          else (False, nd)
      | Some ch \<Rightarrow> (case descend_create mem i ss ch of (ok, ch') \<Rightarrow> (ok, r_put s ch' nd)))"

text \<open>Writing the fields of the node at a path.\<close>

fun set_item :: "retain_item \<Rightarrow> level list \<Rightarrow> rnode \<Rightarrow> rnode" where
  "set_item it [] nd = RNode (r_children nd) (Some it)"
| "set_item it (s # ss) nd = (case r_child s nd of None \<Rightarrow> nd | Some ch \<Rightarrow> r_put s (set_item it ss ch) nd)"

definition unindex :: "retain_item option \<Rightarrow> bytes \<Rightarrow> expiry_index \<Rightarrow> expiry_index" where
  "unindex item topic ex =
     (case item of None \<Rightarrow> ex | Some it \<Rightarrow> (case ri_expires it of None \<Rightarrow> ex | Some t \<Rightarrow> removeAll (t, topic) ex))"

definition index_expiry :: "nat option \<Rightarrow> bytes \<Rightarrow> expiry_index \<Rightarrow> expiry_index" where
  "index_expiry e topic ex = (case e of None \<Rightarrow> ex | Some t \<Rightarrow> if (t, topic) \<in> set ex then ex else insort (t, topic) ex)"

text \<open>The message to be replaced has the entry of the index that the new one needs.\<close>

definition same_key :: "retain_item option \<Rightarrow> nat option \<Rightarrow> bool" where
  "same_key old e \<longleftrightarrow> old \<noteq> None \<and> e \<noteq> None \<and> ri_expires (the old) = e"

definition account_removed :: "nat \<Rightarrow> retain_store \<Rightarrow> retain_store" where
  "account_removed bytes s =
     s\<lparr>message_count := (if message_count s > 0 then message_count s - 1 else message_count s),
       total_bytes := (if total_bytes s \<ge> bytes then total_bytes s - bytes else 0)\<rparr>"

text \<open>The bytes of the erased message, the node and the index.\<close>

fun erase_at :: "bytes \<Rightarrow> level list \<Rightarrow> rnode \<Rightarrow> expiry_index \<Rightarrow> nat option \<times> rnode \<times> expiry_index" where
  "erase_at topic [] nd ex =
     (case r_item nd of
        None \<Rightarrow> (None, nd, ex)
      | Some it \<Rightarrow> (Some (ri_bytes it), RNode (r_children nd) None, unindex (Some it) topic ex))"
| "erase_at topic (s # ss) nd ex =
     (case r_child s nd of
        None \<Rightarrow> (None, nd, ex)
      | Some ch \<Rightarrow>
          (case erase_at topic ss ch ex of
             (erased, ch', ex') \<Rightarrow>
               (erased,
                (if erased \<noteq> None \<and> r_children ch' = [] \<and> r_item ch' = None then r_drop s nd else r_put s ch' nd), ex')))"

definition warn_locked :: "nat \<Rightarrow> string \<Rightarrow> retain_store \<Rightarrow> string option \<times> retain_store" where
  "warn_locked clock reason s =
     (case last_warn s of
        Some t \<Rightarrow> if clock - t < 1000000000 then (None, s) else (Some reason, s\<lparr>last_warn := Some clock\<rparr>)
      | None \<Rightarrow> (Some reason, s\<lparr>last_warn := Some clock\<rparr>))"

definition expired :: "nat \<Rightarrow> retain_item \<Rightarrow> bool" where
  "expired now it \<longleftrightarrow> (case ri_expires it of None \<Rightarrow> False | Some t \<Rightarrow> now \<ge> t)"

definition copy_of :: "bytes \<Rightarrow> retain_item \<Rightarrow> retained_copy" where
  "copy_of topic it = \<lparr>rc_topic = topic, rc_content = Some (ri_content it), rc_expires = ri_expires it\<rparr>"


subsection \<open>Writing\<close>

definition peek :: "bytes \<Rightarrow> nat \<Rightarrow> retain_store \<Rightarrow> retained_copy option" where
  "peek topic now s =
     (if topic = [] then None
      else case descend (retain_split topic) (rs_root s) of
        None \<Rightarrow> None
      | Some nd \<Rightarrow>
          (case r_item nd of None \<Rightarrow> None | Some it \<Rightarrow> if expired now it then None else Some (copy_of topic it)))"

text \<open>\<^verbatim>\<open>install\<close> puts back what a failed commit has to undo; it is not guarded against memory exhaustion.\<close>

definition install :: "retained_copy \<Rightarrow> retain_store \<Rightarrow> write_result \<times> retain_store" where
  "install copy s =
     (case rc_content copy of
        None \<Rightarrow> (no_result, s)
      | Some content \<Rightarrow>
          if rc_topic copy = [] then (no_result, s)
          else
            let topic = rc_topic copy; payload_bytes = length (sc_payload content); segments = retain_split topic;
                old = (case descend segments (rs_root s) of None \<Rightarrow> None | Some nd \<Rightarrow> r_item nd);
                old_bytes = (case old of None \<Rightarrow> 0 | Some it \<Rightarrow> ri_bytes it);
                rt = (case descend segments (rs_root s) of None \<Rightarrow> snd (descend_create (\<lambda>_. True) 0 segments (rs_root s)) | Some _ \<Rightarrow> rs_root s);
                ex = index_expiry (rc_expires copy) topic (rs_expiry s);
                ex = (if old \<noteq> None \<and> \<not> same_key old (rc_expires copy) then unindex old topic ex else ex)
            in (no_result\<lparr>kind := (if old \<noteq> None then Replaced else Stored), message_delta := (if old \<noteq> None then 0 else 1),
                          byte_delta := int payload_bytes - int old_bytes\<rparr>,
                s\<lparr>rs_root := set_item \<lparr>ri_content = content, ri_expires = rc_expires copy, ri_bytes = payload_bytes\<rparr> segments rt,
                  rs_expiry := ex,
                  message_count := sz_sub (message_count s) (if old \<noteq> None then 1 else 0) + 1,
                  total_bytes := (if total_bytes s \<ge> old_bytes then total_bytes s - old_bytes + payload_bytes else payload_bytes)\<rparr>))"

definition remove_topic :: "bytes \<Rightarrow> retain_store \<Rightarrow> write_result \<times> retain_store" where
  "remove_topic topic s =
     (if topic = [] then (no_result, s)
      else case erase_at topic (retain_split topic) (rs_root s) (rs_expiry s) of
        (None, rt, ex) \<Rightarrow> (no_result, s\<lparr>rs_root := rt, rs_expiry := ex\<rparr>)
      | (Some bytes, rt, ex) \<Rightarrow>
          (no_result\<lparr>kind := Removed, message_delta := -1, byte_delta := - int bytes\<rparr>,
           account_removed bytes (s\<lparr>rs_root := rt, rs_expiry := ex\<rparr>)))"


lemma erase_index: "erase_at topic ss nd ex = (r, nd', ex') \<Longrightarrow> length ex' \<le> length ex"
proof (induction topic ss nd ex arbitrary: r nd' ex' rule: erase_at.induct)
  case (1 topic nd ex)
  then show ?case by (auto simp: unindex_def length_removeAll_less_eq split: option.splits)
next
  case (2 topic s ss nd ex)
  then show ?case by (auto split: option.splits prod.splits)
qed

text \<open>The loop over the index; it ends when the loop condition fails, which is the result \<open>Some\<close>.\<close>

partial_function (option) reclaim_loop ::
  "nat \<Rightarrow> int \<Rightarrow> int \<Rightarrow> retain_store \<Rightarrow> (int \<times> int \<times> retain_store) option" where
  "reclaim_loop now dm db s =
     (case rs_expiry s of
        [] \<Rightarrow> Some (dm, db, s)
      | (t, topic) # rest \<Rightarrow>
          if t \<le> now then
            (case erase_at topic (retain_split topic) (rs_root s) (rs_expiry s) of
               (None, rt, ex) \<Rightarrow> reclaim_loop now dm db (s\<lparr>rs_root := rt, rs_expiry := tl ex\<rparr>)
             | (Some bytes, rt, ex) \<Rightarrow>
                 reclaim_loop now (dm - 1) (db - int bytes) (account_removed bytes (s\<lparr>rs_root := rt, rs_expiry := ex\<rparr>)))
          else Some (dm, db, s))"

definition store_limits_reject :: "retain_config \<Rightarrow> nat \<Rightarrow> nat \<Rightarrow> string option" where
  "store_limits_reject limits new_count new_bytes =
     (if new_count > max_messages limits then Some ''retained message count limit''
      else if new_bytes > max_total_bytes limits then Some ''retained byte limit''
      else None)"

text \<open>
  \<^verbatim>\<open>store\<close> after the checks of the packet, with the reclaimed deltas.  \<open>mem\<close> decides the nodes,
  \<open>mem_index\<close> the entry of the index.
\<close>

definition reject :: "nat \<Rightarrow> string \<Rightarrow> int \<Rightarrow> int \<Rightarrow> retain_store \<Rightarrow> write_result \<times> retain_store" where
  "reject clock reason dm db s =
     (case warn_locked clock reason s of
        (w, s) \<Rightarrow> (no_result\<lparr>kind := Rejected, message_delta := dm, byte_delta := db, warn := w\<rparr>, s))"

definition store_message ::
  "node_memory \<Rightarrow> bool \<Rightarrow> nat \<Rightarrow> retain_config \<Rightarrow> bytes \<Rightarrow> retain_item \<Rightarrow> int \<Rightarrow> int \<Rightarrow> retain_store \<Rightarrow> write_result \<times> retain_store" where
  "store_message mem mem_index clock limits topic it dm db s =
     (let segments = retain_split topic; existing = descend segments (rs_root s);
          old = (case existing of None \<Rightarrow> None | Some nd \<Rightarrow> r_item nd);
          old_bytes = (case old of None \<Rightarrow> 0 | Some o' \<Rightarrow> ri_bytes o');
          new_count = sz_sub (message_count s) (if old \<noteq> None then 1 else 0) + 1;
          new_bytes = sz_sub (total_bytes s) old_bytes + ri_bytes it
      in case store_limits_reject limits new_count new_bytes of
           Some reason \<Rightarrow> reject clock reason dm db s
         | None \<Rightarrow>
             (case (if existing = None then descend_create mem 0 segments (rs_root s) else (True, rs_root s)) of
                (False, rt) \<Rightarrow> reject clock ''out of memory'' 0 0 (s\<lparr>rs_root := rt\<rparr>)
              | (True, rt) \<Rightarrow>
                  if ri_expires it \<noteq> None \<and> \<not> same_key old (ri_expires it) \<and> \<not> mem_index
                  then reject clock ''out of memory'' dm db (s\<lparr>rs_root := rt\<rparr>)
                  else
                    let ex = (if same_key old (ri_expires it) then rs_expiry s else index_expiry (ri_expires it) topic (rs_expiry s));
                        ex = (if old \<noteq> None \<and> \<not> same_key old (ri_expires it) then unindex old topic ex else ex)
                    in (no_result\<lparr>kind := (if old \<noteq> None then Replaced else Stored),
                          message_delta := dm + (if old \<noteq> None then 0 else 1),
                          byte_delta := db + int (ri_bytes it) - int old_bytes\<rparr>,
                        s\<lparr>rs_root := set_item it segments rt, rs_expiry := ex, message_count := new_count,
                          total_bytes := new_bytes\<rparr>)))"

definition retain_topic_ok :: "bytes \<Rightarrow> bool" where
  "retain_topic_ok topic \<longleftrightarrow> topic \<noteq> [] \<and> plus_byte \<notin> set topic \<and> hash_byte \<notin> set topic"

definition store ::
  "bool \<Rightarrow> node_memory \<Rightarrow> bool \<Rightarrow> nat \<Rightarrow> publish_packet \<Rightarrow> bytes \<Rightarrow> retain_config \<Rightarrow> nat \<Rightarrow> retain_store \<Rightarrow> (write_result \<times> retain_store) option" where
  "store mem_content mem mem_index clock p sender limits now s =
     (let topic = topic_name p; props = publish_properties p in
      if \<not> retain_topic_ok topic then Some (no_result, s)
      else if publish_payload p = [] then Some (remove_topic topic s)
      else if has_message_expiry_interval props \<and> message_expiry_interval props = 0 then Some (remove_topic topic s)
      else
        let payload_bytes = length (publish_payload p);
            payload_limit = (if max_payload_bytes limits = 0 then 1024 * 1024 else max_payload_bytes limits)
        in if payload_bytes > payload_limit then Some (reject clock ''payload exceeds max_payload_bytes'' 0 0 s)
           else if \<not> mem_content then Some (reject clock ''out of memory'' 0 0 s)
           else
             let it = \<lparr>ri_content = shared_message_content clock topic (publish_payload p) (publish_qos p) True False props sender,
                       ri_expires = (if has_message_expiry_interval props
                         then Some (now + unat (message_expiry_interval props) * 1000000000) else None),
                       ri_bytes = payload_bytes\<rparr>
             in (case reclaim_loop now 0 0 s of
                   None \<Rightarrow> None
                 | Some (dm, db, s) \<Rightarrow> Some (store_message mem mem_index clock limits topic it dm db s)))"


subsection \<open>Matching\<close>

record match_pick =
  pick_limit :: nat
  pick_truncated :: bool
  best :: "retained_copy list"

text \<open>The heap is its list in ascending order of topics: the greatest topic is on top.\<close>

definition offer :: "retained_copy \<Rightarrow> match_pick \<Rightarrow> match_pick" where
  "offer copy p =
     (if pick_limit p = 0 then p\<lparr>pick_truncated := True\<rparr>
      else if length (best p) < pick_limit p then p\<lparr>best := insort_key rc_topic copy (best p)\<rparr>
      else
        let p = (if rc_topic copy < rc_topic (last (best p))
                 then p\<lparr>best := insort_key rc_topic copy (butlast (best p))\<rparr> else p)
        in p\<lparr>pick_truncated := True\<rparr>)"

definition consider_node :: "nat \<Rightarrow> bytes \<Rightarrow> rnode \<Rightarrow> match_pick \<times> bytes list \<Rightarrow> match_pick \<times> bytes list" where
  "consider_node now topic nd st =
     (case r_item nd of
        None \<Rightarrow> st
      | Some it \<Rightarrow>
          if topic = [] then st
          else if expired now it then (fst st, snd st @ [topic])
          else (offer (copy_of topic it) (fst st), snd st))"

lemma r_child_size: "(l, c) \<in> set cs \<Longrightarrow> size c < size (RNode cs it)"
  by (induction cs) auto

function collect :: "nat \<Rightarrow> bytes \<Rightarrow> bool \<Rightarrow> rnode \<Rightarrow> match_pick \<times> bytes list \<Rightarrow> match_pick \<times> bytes list" where
  "collect now topic at_root (RNode cs it) st =
     fold (\<lambda>(l, ch) st. if at_root \<and> system_level l then st else collect now (join_topic topic l at_root) False ch st)
       cs (consider_node now topic (RNode cs it) st)"
  by pat_completeness auto
termination by (relation "measure (\<lambda>(_, _, _, nd, _). size nd)") (auto dest: r_child_size)

fun walk :: "nat \<Rightarrow> bytes \<Rightarrow> level list \<Rightarrow> bool \<Rightarrow> rnode \<Rightarrow> match_pick \<times> bytes list \<Rightarrow> match_pick \<times> bytes list" where
  "walk now topic [] root_level nd st = consider_node now topic nd st"
| "walk now topic (s # ss) root_level nd st =
     (if s = multi_level_wildcard then (if ss \<noteq> [] then st else collect now topic root_level nd st)
      else if s = single_level_wildcard then
        fold (\<lambda>(l, ch) st. if root_level \<and> system_level l then st else walk now (join_topic topic l root_level) ss False ch st)
          (r_children nd) st
      else (case r_child s nd of
          None \<Rightarrow> st
        | Some ch \<Rightarrow> walk now (join_topic topic s root_level) ss False ch st))"

fun purge :: "nat \<Rightarrow> bytes list \<Rightarrow> int \<Rightarrow> int \<Rightarrow> retain_store \<Rightarrow> int \<times> int \<times> retain_store" where
  "purge now [] dm db s = (dm, db, s)"
| "purge now (topic # topics) dm db s =
     (case descend (retain_split topic) (rs_root s) of
        None \<Rightarrow> purge now topics dm db s
      | Some nd \<Rightarrow>
          (case r_item nd of
             None \<Rightarrow> purge now topics dm db s
           | Some it \<Rightarrow>
               if \<not> expired now it then purge now topics dm db s
               else (case erase_at topic (retain_split topic) (rs_root s) (rs_expiry s) of
                   (None, rt, ex) \<Rightarrow> purge now topics dm db (s\<lparr>rs_root := rt, rs_expiry := ex\<rparr>)
                 | (Some bytes, rt, ex) \<Rightarrow>
                     purge now topics (dm - 1) (db - int bytes) (account_removed bytes (s\<lparr>rs_root := rt, rs_expiry := ex\<rparr>)))))"

definition match_filter :: "bytes \<Rightarrow> nat \<Rightarrow> nat \<Rightarrow> retain_store \<Rightarrow> match_result \<times> retain_store" where
  "match_filter f limit now s =
     (if f = [] then (\<lparr>messages = [], match_truncated = False, match_message_delta = 0, match_byte_delta = 0\<rparr>, s)
      else
        case walk now [] (retain_split f) True (rs_root s) (\<lparr>pick_limit = limit, pick_truncated = False, best = []\<rparr>, []) of
          (pk, topics) \<Rightarrow>
            (case purge now topics 0 0 s of
               (dm, db, s) \<Rightarrow>
                 (\<lparr>messages = sort_key rc_topic (rev (best pk)), match_truncated = pick_truncated pk,
                   match_message_delta = dm, match_byte_delta = db\<rparr>, s)))"

end
