(* ===== verification/Retain_Lemmas.thy ===== *)
theory Retain_Lemmas
  imports Retain_Store
begin

text \<open>
  What the retain store promises: it is a map from topics to messages, with exact counters and an
  exact index of expiry, and matching a filter gives the first topics of the map that the filter
  matches.
\<close>

subsection \<open>Topics as paths\<close>

definition path_topic :: "bytes \<Rightarrow> bool \<Rightarrow> level list \<Rightarrow> bytes" where
  "path_topic topic at_root p = (case p of [] \<Rightarrow> topic | l # ls \<Rightarrow>
     foldl (\<lambda>t l. join_topic t l False) (join_topic topic l at_root) ls)"

lemma path_topic_simps [simp]:
  "path_topic topic at_root [] = topic"
  "path_topic topic at_root (l # p) = path_topic (join_topic topic l at_root) False p"
  by (cases p; simp add: path_topic_def)+

definition topic_of :: "level list \<Rightarrow> bytes" where
  "topic_of p = path_topic [] True p"

lemma retain_split_loop_all:
  "retain_split_loop cur cs = (case split_all cs of l # ls \<Rightarrow> (cur @ l) # ls | [] \<Rightarrow> [])"
proof (induction cs arbitrary: cur)
  case (Cons c cs)
  obtain l ls where "split_all cs = l # ls" by (rule split_all_Cons)
  then show ?case using Cons by simp
qed simp

lemma retain_split_all: "retain_split topic = split_all topic"
  using split_all_Cons [of topic] by (metis (no_types, lifting) append_Nil list.simps(5) retain_split_def retain_split_loop_all)

lemma path_topic_append: "path_topic (t @ u) False p = t @ path_topic u False p"
proof (induction p arbitrary: u)
  case (Cons l p)
  have "join_topic (t @ u) l False = t @ join_topic u l False" by (simp add: join_topic_def)
  then show ?case using Cons [of "join_topic u l False"] by simp
qed simp

lemma topic_of_Cons: "topic_of (l # p) = l @ path_topic [] False p"
  using path_topic_append [of l "[]" p] by (simp add: topic_of_def join_topic_def)

lemma path_topic_Nil_Cons: "path_topic [] False (l # p) = slash # topic_of (l # p)"
  using path_topic_append [of "[slash] @ l" "[]" p] by (simp add: join_topic_def topic_of_Cons)

lemma topic_of_split: "topic_of (split_all t) = t"
proof (induction t)
  case Nil
  show ?case by (simp add: topic_of_Cons)
next
  case (Cons c cs)
  obtain l ls where s: "split_all cs = l # ls" by (rule split_all_Cons)
  show ?case
  proof (cases "c = slash")
    case True
    then have "topic_of (split_all (c # cs)) = path_topic [] False (l # ls)" by (simp add: topic_of_Cons s del: path_topic_simps(2))
    then show ?thesis using Cons s True by (simp add: path_topic_Nil_Cons del: path_topic_simps(2))
  next
    case False
    then show ?thesis using Cons by (simp add: s topic_of_Cons)
  qed
qed

lemma split_all_level: "slash \<notin> set l \<Longrightarrow> split_all (l @ cs) = (case split_all cs of m # ms \<Rightarrow> (l @ m) # ms | [] \<Rightarrow> [])"
proof (induction l)
  case Nil
  then show ?case using split_all_Cons [of cs] by (metis (no_types, lifting) append_Nil list.simps(5))
next
  case (Cons c l)
  obtain m ms where "split_all cs = m # ms" by (rule split_all_Cons)
  then show ?case using Cons by simp
qed

lemma split_topic_of: "p \<noteq> [] \<Longrightarrow> \<forall>l\<in>set p. slash \<notin> set l \<Longrightarrow> split_all (topic_of p) = p"
proof (induction p)
  case (Cons l p)
  show ?case
  proof (cases p)
    case Nil
    then show ?thesis using Cons.prems by (simp add: topic_of_Cons split_all_level [of l "[]", simplified])
  next
    case (Cons m q)
    have "split_all (topic_of p) = p" using Cons.IH Cons.prems Cons by simp
    then have "split_all (path_topic [] False p) = [] # p" by (simp add: Cons path_topic_Nil_Cons del: path_topic_simps(2))
    then show ?thesis using Cons.prems by (simp add: topic_of_Cons split_all_level)
  qed
qed simp

lemma split_all_inj: "split_all t = split_all u \<Longrightarrow> t = u"
  by (metis topic_of_split)


subsection \<open>The items of a trie\<close>

definition item_at :: "rnode \<Rightarrow> level list \<Rightarrow> retain_item option" where
  "item_at nd p = (case descend p nd of None \<Rightarrow> None | Some n \<Rightarrow> r_item n)"

lemma item_at_simps [simp]:
  "item_at nd [] = r_item nd"
  "item_at nd (l # p) = (case r_child l nd of None \<Rightarrow> None | Some ch \<Rightarrow> item_at ch p)"
  by (simp_all add: item_at_def split: option.split)

lemma r_child_simps [simp]:
  "r_child k (r_put l ch nd) = (if k = l then Some ch else r_child k nd)"
  "r_child k (r_drop l nd) = (if k = l then None else r_child k nd)"
  "r_item (r_put l ch nd) = r_item nd" "r_item (r_drop l nd) = r_item nd"
  by (simp_all add: r_child_def r_put_def r_drop_def map_of_filter_key)

lemma r_child_new [simp]: "r_child k new_rnode = None" "r_item new_rnode = None" "r_child k (RNode cs it) = map_of cs k"
  by (simp_all add: r_child_def new_rnode_def)

lemma item_at_new [simp]: "item_at new_rnode p = None"
  by (cases p) simp_all

text \<open>Levels of topics that can be stored, and one child per level.\<close>

definition level_ok :: "level \<Rightarrow> bool" where
  "level_ok l \<longleftrightarrow> slash \<notin> set l \<and> plus_byte \<notin> set l \<and> hash_byte \<notin> set l"

inductive rnode_ok :: "rnode \<Rightarrow> bool" where
  "distinct (map fst cs) \<Longrightarrow> (\<And>l c. (l, c) \<in> set cs \<Longrightarrow> level_ok l \<and> rnode_ok c) \<Longrightarrow> rnode_ok (RNode cs it)"

inductive_simps rnode_ok_RNode: "rnode_ok (RNode cs it)"

lemma rnode_ok_iff:
  "rnode_ok nd \<longleftrightarrow> distinct (map fst (r_children nd)) \<and> (\<forall>(l, c)\<in>set (r_children nd). level_ok l \<and> rnode_ok c)"
  by (cases nd) (auto simp: rnode_ok_RNode)

lemma rnode_ok_child: "rnode_ok nd \<Longrightarrow> r_child l nd = Some c \<Longrightarrow> rnode_ok c \<and> level_ok l"
  using rnode_ok_iff [of nd] by (auto simp: r_child_def dest: map_of_SomeD)

lemma rnode_ok_new [simp]: "rnode_ok new_rnode"
  by (simp add: new_rnode_def rnode_ok_RNode)

lemma rnode_ok_put: "rnode_ok nd \<Longrightarrow> rnode_ok c \<Longrightarrow> level_ok l \<Longrightarrow> rnode_ok (r_put l c nd)"
  unfolding r_put_def rnode_ok_RNode using rnode_ok_iff [of nd] distinct_put [of "r_children nd" l c]
  by (auto dest: put_in)

lemma rnode_ok_drop: "rnode_ok nd \<Longrightarrow> rnode_ok (r_drop l nd)"
  unfolding r_drop_def rnode_ok_RNode using rnode_ok_iff [of nd]
  by (auto simp: distinct_map inj_on_def)

lemma descend_create_item:
  "descend_create mem i p nd = (ok, nd') \<Longrightarrow> item_at nd' = item_at nd \<and> (ok \<longrightarrow> descend p nd' \<noteq> None)"
proof (induction mem i p nd arbitrary: ok nd' rule: descend_create.induct)
  case (2 mem i s ss nd)
  show ?case
  proof (cases "r_child s nd")
    case None
    show ?thesis
    proof (cases "mem i")
      case True
      obtain ch where c: "descend_create mem (i + 1) ss new_rnode = (ok, ch)" "nd' = r_put s ch nd"
        using 2(3) None True by (auto split: prod.splits)
      have "item_at ch = item_at new_rnode" "ok \<longrightarrow> descend ss ch \<noteq> None" using 2(1) [OF None True c(1)] by auto
      moreover have "item_at nd' p = item_at nd p" for p
        using calculation(1) None by (cases p) (simp_all add: c(2))
      ultimately show ?thesis by (auto simp: c(2))
    qed (use 2(3) None in simp)
  next
    case (Some ch0)
    obtain ch where c: "descend_create mem i ss ch0 = (ok, ch)" "nd' = r_put s ch nd"
      using 2(3) Some by (auto split: prod.splits)
    have "item_at ch = item_at ch0" "ok \<longrightarrow> descend ss ch \<noteq> None" using 2(2) [OF Some c(1)] by auto
    moreover have "item_at nd' p = item_at nd p" for p
      using calculation(1) Some by (cases p) (simp_all add: c(2))
    ultimately show ?thesis by (auto simp: c(2))
  qed
qed simp

lemma descend_create_fail: "descend_create mem i p nd = (False, nd') \<Longrightarrow> \<exists>j. \<not> mem j"
  by (induction mem i p nd arbitrary: nd' rule: descend_create.induct) (auto split: option.splits if_splits prod.splits)

lemma descend_create_ok:
  "descend_create mem i p nd = (ok, nd') \<Longrightarrow> rnode_ok nd \<Longrightarrow> \<forall>l\<in>set p. level_ok l \<Longrightarrow> rnode_ok nd'"
proof (induction mem i p nd arbitrary: ok nd' rule: descend_create.induct)
  case (2 mem i s ss nd)
  show ?case
  proof (cases "r_child s nd")
    case None
    then show ?thesis using 2(1) 2(3-5) by (cases "mem i") (auto split: prod.splits intro!: rnode_ok_put)
  next
    case (Some ch0)
    then show ?thesis using 2(2) 2(3-5) rnode_ok_child [OF 2(4) Some] by (auto split: prod.splits intro!: rnode_ok_put)
  qed
qed simp

lemma set_item_at:
  "descend p nd \<noteq> None \<Longrightarrow> item_at (set_item it p nd) = (item_at nd)(p \<mapsto> it)"
proof (induction it p nd rule: set_item.induct)
  case (1 it nd)
  show ?case
  proof
    fix q show "item_at (set_item it [] nd) q = ((item_at nd)([] \<mapsto> it)) q"
      by (cases q) (simp_all add: r_child_def)
  qed
next
  case (2 it s ss nd)
  then obtain ch where c: "r_child s nd = Some ch" "descend ss ch \<noteq> None" by (auto split: option.splits)
  show ?case
  proof
    fix q show "item_at (set_item it (s # ss) nd) q = ((item_at nd)(s # ss \<mapsto> it)) q"
      using 2(1) [OF c] by (cases q) (simp_all add: c(1))
  qed
qed

lemma set_item_ok: "rnode_ok nd \<Longrightarrow> rnode_ok (set_item it p nd)"
proof (induction it p nd rule: set_item.induct)
  case (1 it nd)
  then show ?case using rnode_ok_iff [of nd] by (auto simp: rnode_ok_RNode)
next
  case (2 it s ss nd)
  then show ?case by (auto split: option.split dest: rnode_ok_child intro!: rnode_ok_put)
qed

lemma no_items: "r_children nd = [] \<Longrightarrow> r_item nd = None \<Longrightarrow> item_at nd p = None"
  by (cases p) (simp_all add: r_child_def)

lemma erase_at_item:
  "erase_at topic p nd ex = (r, nd', ex') \<Longrightarrow>
   r = map_option ri_bytes (item_at nd p) \<and> item_at nd' = (item_at nd)(p := None) \<and> ex' = unindex (item_at nd p) topic ex"
proof (induction topic p nd ex arbitrary: r nd' ex' rule: erase_at.induct)
  case (1 topic nd ex)
  have "item_at (RNode (r_children nd) None) q = ((item_at nd)([] := None)) q" for q
    by (cases q) (simp_all add: r_child_def)
  then show ?case using 1 by (auto simp: unindex_def split: option.splits)
next
  case (2 topic s ss nd ex)
  show ?case
  proof (cases "r_child s nd")
    case None
    then show ?thesis using 2(2) by (auto simp: unindex_def)
  next
    case (Some ch)
    obtain ch' where c: "erase_at topic ss ch ex = (r, ch', ex')"
      "nd' = (if r \<noteq> None \<and> r_children ch' = [] \<and> r_item ch' = None then r_drop s nd else r_put s ch' nd)"
      using 2(2) Some by (auto split: prod.splits)
    have IH: "r = map_option ri_bytes (item_at ch ss)" "item_at ch' = (item_at ch)(ss := None)" "ex' = unindex (item_at ch ss) topic ex"
      using 2(1) [OF Some c(1)] by auto
    have "item_at nd' q = ((item_at nd)(s # ss := None)) q" for q
    proof (cases "r \<noteq> None \<and> r_children ch' = [] \<and> r_item ch' = None")
      case True
      then have "item_at ch' x = None" for x using no_items by blast
      then have "item_at ch x = None" if "x \<noteq> ss" for x using IH(2) that by (metis fun_upd_other)
      moreover have "nd' = r_drop s nd" unfolding c(2) by (rule if_P [OF True])
      ultimately show ?thesis using Some by (cases q) simp_all
    next
      case False
      have "nd' = r_put s ch' nd" unfolding c(2) by (rule if_not_P [OF False])
      then show ?thesis using IH(2) Some by (cases q) simp_all
    qed
    then show ?thesis using IH Some by auto
  qed
qed

lemma erase_at_ok: "erase_at topic p nd ex = (r, nd', ex') \<Longrightarrow> rnode_ok nd \<Longrightarrow> rnode_ok nd'"
proof (induction topic p nd ex arbitrary: r nd' ex' rule: erase_at.induct)
  case (1 topic nd ex)
  then show ?case using rnode_ok_iff [of nd] by (auto simp: rnode_ok_RNode split: option.splits)
next
  case (2 topic s ss nd ex)
  then show ?case
    by (auto split: option.splits prod.splits if_splits dest: rnode_ok_child intro!: rnode_ok_put rnode_ok_drop)
qed



subsection \<open>The store as a map\<close>

definition rs_map :: "retain_store \<Rightarrow> bytes \<Rightarrow> retain_item option" where
  "rs_map s topic = item_at (rs_root s) (split_all topic)"

definition bytes_in :: "(bytes \<Rightarrow> retain_item option) \<Rightarrow> nat" where
  "bytes_in m = (\<Sum>topic\<in>dom m. ri_bytes (the (m topic)))"

definition deadlines :: "(bytes \<Rightarrow> retain_item option) \<Rightarrow> (nat \<times> bytes) set" where
  "deadlines m = {(t, topic). \<exists>it. m topic = Some it \<and> ri_expires it = Some t}"

definition store_ok :: "retain_store \<Rightarrow> bool" where
  "store_ok s \<longleftrightarrow> rnode_ok (rs_root s) \<and> r_item (rs_root s) = None \<and> finite (dom (rs_map s)) \<and>
     (\<forall>topic\<in>dom (rs_map s). retain_topic_ok topic) \<and>
     sorted (rs_expiry s) \<and> distinct (rs_expiry s) \<and> set (rs_expiry s) = deadlines (rs_map s) \<and>
     message_count s = card (dom (rs_map s)) \<and> total_bytes s = bytes_in (rs_map s)"

lemma rs_map_simps [simp]:
  "rs_map (s\<lparr>rs_expiry := ex\<rparr>) = rs_map s" "rs_map (s\<lparr>message_count := n\<rparr>) = rs_map s"
  "rs_map (s\<lparr>total_bytes := b\<rparr>) = rs_map s" "rs_map (s\<lparr>last_warn := w\<rparr>) = rs_map s"
  "rs_map (account_removed b s) = rs_map s"
  by (simp_all add: rs_map_def fun_eq_iff account_removed_def)

lemma rs_map_upd:
  "item_at rt = (item_at (rs_root s))(split_all topic := v) \<Longrightarrow> rs_map (s\<lparr>rs_root := rt\<rparr>) = (rs_map s)(topic := v)"
  by (auto simp: rs_map_def fun_eq_iff dest: split_all_inj)

lemma bytes_in_remove:
  assumes "finite (dom m)" "m topic = Some it"
  shows "bytes_in m = bytes_in (m(topic := None)) + ri_bytes it"
proof -
  have "dom (m(topic := None)) = dom m - {topic}" by auto
  moreover have "bytes_in m = ri_bytes it + (\<Sum>x\<in>dom m - {topic}. ri_bytes (the (m x)))"
    using assms unfolding bytes_in_def by (subst sum.remove [of _ topic]) auto
  moreover have "(\<Sum>x\<in>dom m - {topic}. ri_bytes (the ((m(topic := None)) x))) = (\<Sum>x\<in>dom m - {topic}. ri_bytes (the (m x)))"
    by (rule sum.cong) auto
  ultimately show ?thesis by (simp add: bytes_in_def)
qed

lemma bytes_in_put:
  assumes "finite (dom m)"
  shows "bytes_in (m(topic \<mapsto> it)) + (case m topic of None \<Rightarrow> 0 | Some o' \<Rightarrow> ri_bytes o') = bytes_in m + ri_bytes it"
proof -
  have "bytes_in (m(topic \<mapsto> it)) = bytes_in (m(topic := None)) + ri_bytes it"
    using bytes_in_remove [of "m(topic \<mapsto> it)" topic it] assms by simp
  moreover have "bytes_in (m(topic := None)) + (case m topic of None \<Rightarrow> 0 | Some o' \<Rightarrow> ri_bytes o') = bytes_in m"
    using bytes_in_remove [OF assms, of topic] by (cases "m topic") (simp_all add: fun_upd_idem)
  ultimately show ?thesis by simp
qed

lemma deadlines_remove: "deadlines (m(topic := None)) = deadlines m - {(t, x). x = topic}"
  by (auto simp: deadlines_def)

lemma set_unindex:
  assumes "set ex = deadlines m"
  shows "set (unindex (m topic) topic ex) = deadlines (m(topic := None))"
proof (cases "m topic")
  case None
  then show ?thesis using assms by (simp add: unindex_def fun_upd_idem)
next
  case (Some it)
  show ?thesis
  proof (cases "ri_expires it")
    case None
    then show ?thesis using assms Some by (auto simp: unindex_def deadlines_def)
  next
    case e: (Some t)
    then show ?thesis using assms Some by (auto simp: unindex_def deadlines_def)
  qed
qed

lemma unindex_sorted: "sorted ex \<Longrightarrow> distinct ex \<Longrightarrow> sorted (unindex it topic ex) \<and> distinct (unindex it topic ex)"
  by (simp add: unindex_def removeAll_filter_not_eq sorted_wrt_filter split: option.split)

lemma erase_step:
  assumes ok: "store_ok s" and er: "erase_at topic (retain_split topic) (rs_root s) (rs_expiry s) = (Some b, rt, ex)"
    and s': "s' = account_removed b (s\<lparr>rs_root := rt, rs_expiry := ex\<rparr>)"
  shows "store_ok s' \<and> rs_map s' = (rs_map s)(topic := None) \<and> topic \<in> dom (rs_map s) \<and>
    message_count s = message_count s' + 1 \<and> total_bytes s = total_bytes s' + b \<and> ex = unindex (rs_map s topic) topic (rs_expiry s)"
proof -
  have e: "Some b = map_option ri_bytes (rs_map s topic)" "item_at rt = (item_at (rs_root s))(split_all topic := None)"
    "ex = unindex (rs_map s topic) topic (rs_expiry s)"
    using erase_at_item [OF er] by (simp_all add: rs_map_def retain_split_all)
  then obtain it where it: "rs_map s topic = Some it" "b = ri_bytes it" by (auto simp: map_option_case split: option.splits)
  have f: "finite (dom (rs_map s))" using ok by (simp add: store_ok_def)
  have m: "rs_map s' = (rs_map s)(topic := None)"
    using rs_map_upd [OF e(2)] by (simp add: s' rs_map_def fun_eq_iff account_removed_def)
  have bytes: "total_bytes s = bytes_in ((rs_map s)(topic := None)) + b"
    using bytes_in_remove [OF f it(1)] ok it(2) by (simp add: store_ok_def)
  have dom: "dom ((rs_map s)(topic := None)) = dom (rs_map s) - {topic}" by auto
  have cnt: "message_count s = card (dom (rs_map s) - {topic}) + 1"
  proof -
    have "topic \<in> dom (rs_map s)" using it(1) by blast
    from card.remove [OF f this] show ?thesis using ok by (simp only: store_ok_def Suc_eq_plus1)
  qed
  have c': "message_count s' = card (dom (rs_map s) - {topic})" "total_bytes s' = bytes_in ((rs_map s)(topic := None))"
    using cnt bytes by (simp_all add: s' account_removed_def)
  have r: "rs_root s' = rt" "rs_expiry s' = ex" by (simp_all add: s' account_removed_def)
  have "r_item rt = None" using fun_cong [OF e(2), of "[]"] ok split_all_nonempty by (simp add: store_ok_def)
  moreover have "rnode_ok rt" using erase_at_ok [OF er] ok by (simp add: store_ok_def)
  moreover have "sorted ex \<and> distinct ex" unfolding e(3) using unindex_sorted ok by (simp add: store_ok_def)
  moreover have "set ex = deadlines (rs_map s')" unfolding e(3) m using set_unindex ok by (simp add: store_ok_def)
  ultimately have "store_ok s'"
    using ok unfolding store_ok_def m r c' dom by auto
  then show ?thesis using m it(1) cnt bytes c' e(3) by auto
qed

lemma erase_none:
  assumes "erase_at topic (retain_split topic) (rs_root s) (rs_expiry s) = (None, rt, ex)"
  shows "item_at rt = item_at (rs_root s) \<and> ex = rs_expiry s \<and> rs_map s topic = None"
proof -
  have e: "None = map_option ri_bytes (rs_map s topic)" "item_at rt = (item_at (rs_root s))(split_all topic := None)"
    "ex = unindex (rs_map s topic) topic (rs_expiry s)"
    using erase_at_item [OF assms] by (simp_all add: rs_map_def retain_split_all)
  then have n: "rs_map s topic = None" by (cases "rs_map s topic") simp_all
  then show ?thesis using e by (simp add: unindex_def rs_map_def fun_upd_idem)
qed



subsection \<open>Reclaiming expired messages\<close>

definition live :: "nat \<Rightarrow> (bytes \<Rightarrow> retain_item option) \<Rightarrow> bytes \<Rightarrow> retain_item option" where
  "live now m topic = (case m topic of None \<Rightarrow> None | Some it \<Rightarrow> if expired now it then None else Some it)"

definition accounted :: "retain_store \<Rightarrow> int \<Rightarrow> int \<Rightarrow> retain_store \<Rightarrow> bool" where
  "accounted s dm db s' \<longleftrightarrow> int (message_count s') = int (message_count s) + dm \<and> int (total_bytes s') = int (total_bytes s) + db"

lemma accounted_refl [simp]: "accounted s 0 0 s"
  by (simp add: accounted_def)

lemma accounted_trans: "accounted s a b t \<Longrightarrow> accounted t c d u \<Longrightarrow> accounted s (a + c) (b + d) u"
  by (simp add: accounted_def)

lemma live_remove: "m topic = Some it \<Longrightarrow> expired now it \<Longrightarrow> live now (m(topic := None)) = live now m"
  by (auto simp: live_def fun_eq_iff)

lemma index_head:
  assumes ok: "store_ok s" and ex: "rs_expiry s = (t, topic) # rest"
  obtains it where "rs_map s topic = Some it" "ri_expires it = Some t"
proof -
  have "(t, topic) \<in> deadlines (rs_map s)" using ok ex unfolding store_ok_def by (metis list.set_intros(1))
  then show ?thesis using that by (auto simp: deadlines_def)
qed

lemma reclaim_loop_ok:
  assumes "store_ok s"
  shows "\<exists>dm' db' s'. reclaim_loop now dm db s = Some (dm', db', s') \<and> store_ok s' \<and> rs_map s' = live now (rs_map s) \<and>
    accounted s (dm' - dm) (db' - db) s' \<and> last_warn s' = last_warn s"
  using assms
proof (induction "length (rs_expiry s)" arbitrary: s dm db rule: less_induct)
  case less
  show ?case
  proof (cases "rs_expiry s")
    case Nil
    have "expired now it = False" if "rs_map s topic = Some it" for topic it
      using that less.prems Nil by (auto simp: store_ok_def deadlines_def expired_def split: option.splits)
    then have "rs_map s = live now (rs_map s)" by (auto simp: live_def fun_eq_iff split: option.splits)
    then show ?thesis using less.prems Nil by (subst reclaim_loop.simps) simp
  next
    case (Cons x rest)
    obtain t topic where x: "x = (t, topic)" by (cases x)
    obtain it where it: "rs_map s topic = Some it" "ri_expires it = Some t"
      using index_head [OF less.prems, of t topic rest] Cons x by blast
    show ?thesis
    proof (cases "t \<le> now")
      case False
      have "t \<le> t'" if "(t', topic') \<in> deadlines (rs_map s)" for t' topic'
      proof -
        have "(t', topic') \<in> set (rs_expiry s)" using that less.prems by (simp add: store_ok_def)
        moreover have "\<forall>y\<in>set rest. (t, topic) \<le> y" using less.prems Cons x by (simp add: store_ok_def)
        ultimately show ?thesis using Cons x by (auto simp: less_eq_prod_def)
      qed
      then have "expired now it' = False" if "rs_map s topic' = Some it'" for topic' it'
        using that False by (fastforce simp: deadlines_def expired_def split: option.splits)
      then have "rs_map s = live now (rs_map s)" by (auto simp: live_def fun_eq_iff split: option.splits)
      then show ?thesis using less.prems False Cons x by (subst reclaim_loop.simps) simp
    next
      case True
      obtain r rt ex where er: "erase_at topic (retain_split topic) (rs_root s) (rs_expiry s) = (r, rt, ex)" by (metis prod_cases3)
      then obtain b where b: "r = Some b" using erase_at_item [OF er] it(1) by (simp add: rs_map_def retain_split_all)
      let ?s = "account_removed b (s\<lparr>rs_root := rt, rs_expiry := ex\<rparr>)"
      have st: "store_ok ?s" "rs_map ?s = (rs_map s)(topic := None)" "message_count s = message_count ?s + 1"
        "total_bytes s = total_bytes ?s + b" "ex = unindex (Some it) topic (rs_expiry s)"
        using erase_step [OF less.prems er [unfolded b] refl] unfolding it(1) by blast+
      have "length (rs_expiry ?s) < length (rs_expiry s)"
        using st(5) it(2) Cons x by (simp add: account_removed_def unindex_def length_removeAll_less_eq le_imp_less_Suc)
      then obtain dm' db' s' where IH: "reclaim_loop now (dm - 1) (db - int b) ?s = Some (dm', db', s')" "store_ok s'"
        "rs_map s' = live now (rs_map ?s)" "accounted ?s (dm' - (dm - 1)) (db' - (db - int b)) s'" "last_warn s' = last_warn ?s"
        using less.hyps st(1) by blast
      have "live now (rs_map ?s) = live now (rs_map s)"
        unfolding st(2) by (rule live_remove [of "rs_map s" topic it, OF it(1)]) (simp add: expired_def it(2) True)
      moreover have "accounted s (dm' - dm) (db' - db) s'" using IH(4) st(3,4) by (simp add: accounted_def)
      moreover have "reclaim_loop now dm db s = Some (dm', db', s')"
        using IH(1) er b Cons x True by (subst reclaim_loop.simps) simp
      moreover have "last_warn s' = last_warn s" using IH(5) by (simp add: account_removed_def)
      ultimately show ?thesis using IH(2,3) by simp
    qed
  qed
qed



subsection \<open>Storing a message\<close>

lemma split_all_sub: "l \<in> set (split_all t) \<Longrightarrow> set l \<subseteq> set t"
proof (induction t arbitrary: l)
  case (Cons c cs)
  obtain m ms where "split_all cs = m # ms" by (rule split_all_Cons)
  then show ?case using Cons by (cases "c = slash") (force split: if_splits)+
qed simp

lemma retain_topic_levels: "retain_topic_ok topic \<Longrightarrow> l \<in> set (split_all topic) \<Longrightarrow> level_ok l"
  using split_all_no_slash [of l topic] split_all_sub [of l topic] by (auto simp: retain_topic_ok_def level_ok_def)

definition reindex :: "retain_item option \<Rightarrow> nat option \<Rightarrow> bytes \<Rightarrow> expiry_index \<Rightarrow> expiry_index" where
  "reindex old e topic ex = (if same_key old e then ex else unindex old topic (index_expiry e topic ex))"

lemma index_expiry_ok:
  "sorted ex \<Longrightarrow> distinct ex \<Longrightarrow> sorted (index_expiry e topic ex) \<and> distinct (index_expiry e topic ex) \<and>
   set (index_expiry e topic ex) = set ex \<union> (case e of None \<Rightarrow> {} | Some t \<Rightarrow> {(t, topic)})"
  by (auto simp: index_expiry_def sorted_insort distinct_insort set_insort_key split: option.splits)

lemma deadlines_put:
  "deadlines (m(topic \<mapsto> it)) = deadlines (m(topic := None)) \<union> (case ri_expires it of None \<Rightarrow> {} | Some t \<Rightarrow> {(t, topic)})"
  by (auto simp: deadlines_def split: option.splits)

lemma reindex_ok:
  assumes "sorted ex" "distinct ex" "set ex = deadlines m"
  shows "sorted (reindex (m topic) (ri_expires it) topic ex) \<and> distinct (reindex (m topic) (ri_expires it) topic ex) \<and>
    set (reindex (m topic) (ri_expires it) topic ex) = deadlines (m(topic \<mapsto> it))"
proof (cases "same_key (m topic) (ri_expires it)")
  case True
  then obtain o' t where "m topic = Some o'" "ri_expires it = Some t" "ri_expires o' = Some t" by (auto simp: same_key_def)
  then have "deadlines (m(topic \<mapsto> it)) = deadlines m" by (auto simp: deadlines_def)
  then show ?thesis using True assms by (simp add: reindex_def)
next
  case False
  let ?ix = "index_expiry (ri_expires it) topic ex"
  have ix: "sorted ?ix" "distinct ?ix" "set ?ix = deadlines m \<union> (case ri_expires it of None \<Rightarrow> {} | Some t \<Rightarrow> {(t, topic)})"
    using index_expiry_ok [OF assms(1,2)] assms(3) by simp_all
  have "set (unindex (m topic) topic ?ix) = deadlines (m(topic \<mapsto> it))"
  proof (cases "m topic")
    case None
    then show ?thesis unfolding deadlines_put using ix(3) by (simp add: unindex_def fun_upd_idem)
  next
    case (Some o')
    show ?thesis
    proof (cases "ri_expires o'")
      case None
      then have "deadlines (m(topic := None)) = deadlines m" using Some by (auto simp: deadlines_def)
      then show ?thesis unfolding deadlines_put using ix(3) Some None by (simp add: unindex_def)
    next
      case e: (Some t)
      have "deadlines (m(topic := None)) = deadlines m - {(t, topic)}" using Some e by (auto simp: deadlines_def)
      moreover have "ri_expires it \<noteq> Some t" using False Some e by (auto simp: same_key_def)
      ultimately show ?thesis unfolding deadlines_put using ix(3) Some e by (auto simp: unindex_def split: option.splits)
    qed
  qed
  then show ?thesis using False unindex_sorted [OF ix(1,2)] by (simp add: reindex_def)
qed

definition replaced_bytes :: "retain_item option \<Rightarrow> nat" where
  "replaced_bytes old = (case old of None \<Rightarrow> 0 | Some o' \<Rightarrow> ri_bytes o')"

lemma store_put:
  assumes ok: "store_ok s" and topic: "retain_topic_ok topic"
    and rt: "descend (split_all topic) rt \<noteq> None" "item_at rt = item_at (rs_root s)" "rnode_ok rt"
    and s': "rs_root s' = set_item it (split_all topic) rt" "rs_expiry s' = reindex (rs_map s topic) (ri_expires it) topic (rs_expiry s)"
      "message_count s' = message_count s - (if rs_map s topic \<noteq> None then 1 else 0) + 1"
      "total_bytes s' = total_bytes s - replaced_bytes (rs_map s topic) + ri_bytes it"
  shows "store_ok s' \<and> rs_map s' = (rs_map s)(topic \<mapsto> it) \<and>
    accounted s (if rs_map s topic \<noteq> None then 0 else 1) (int (ri_bytes it) - int (replaced_bytes (rs_map s topic))) s'"
proof -
  let ?m = "rs_map s"
  have f: "finite (dom ?m)" and c: "message_count s = card (dom ?m)" and b: "total_bytes s = bytes_in ?m"
    using ok by (simp_all add: store_ok_def)
  have "item_at (rs_root s') = (item_at (rs_root s))(split_all topic \<mapsto> it)" using set_item_at [OF rt(1)] rt(2) by (simp add: s'(1))
  then have m: "rs_map s' = ?m(topic \<mapsto> it)" by (auto simp: rs_map_def fun_eq_iff dest: split_all_inj)
  have le: "replaced_bytes (?m topic) \<le> bytes_in ?m"
    using bytes_in_remove [OF f, of topic] by (cases "?m topic") (simp_all add: replaced_bytes_def)
  have bytes: "bytes_in (?m(topic \<mapsto> it)) = total_bytes s'"
    using bytes_in_put [OF f, of topic it] le unfolding s'(4) b replaced_bytes_def by linarith
  have card: "card (dom (?m(topic \<mapsto> it))) = message_count s'"
  proof (cases "?m topic")
    case None
    then have "topic \<notin> dom ?m" by auto
    then show ?thesis using f None by (simp add: s'(3) c)
  next
    case (Some o')
    then have d: "topic \<in> dom ?m" by auto
    then have "dom (?m(topic \<mapsto> it)) = dom ?m" by auto
    moreover have "0 < card (dom ?m)" using f d by (auto simp: card_gt_0_iff)
    ultimately show ?thesis using Some by (simp add: s'(3) c)
  qed
  have root: "rnode_ok (rs_root s')" "r_item (rs_root s') = None"
    using set_item_ok [OF rt(3)] fun_cong [OF rt(2), of "[]"] set_item_at [OF rt(1), of it, THEN fun_cong, of "[]"] ok split_all_nonempty [of topic]
    by (simp_all add: s'(1) store_ok_def)
  have ix: "sorted (rs_expiry s') \<and> distinct (rs_expiry s') \<and> set (rs_expiry s') = deadlines (?m(topic \<mapsto> it))"
    unfolding s'(2) using ok by (intro reindex_ok) (simp_all add: store_ok_def)
  have "\<forall>t\<in>dom (?m(topic \<mapsto> it)). retain_topic_ok t" using ok topic by (auto simp: store_ok_def)
  moreover have "finite (dom (?m(topic \<mapsto> it)))" using f by simp
  ultimately have "store_ok s'" unfolding store_ok_def m using root ix bytes card by simp
  moreover have "accounted s (if ?m topic \<noteq> None then 0 else 1) (int (ri_bytes it) - int (replaced_bytes (?m topic))) s'"
  proof -
    have "0 < card (dom ?m)" if "?m topic \<noteq> None" using f that by (auto simp: card_gt_0_iff)
    then show ?thesis using le by (auto simp: accounted_def s'(3,4) c b)
  qed
  ultimately show ?thesis using m by simp
qed


lemma store_ok_warn [simp]: "store_ok (s\<lparr>last_warn := w\<rparr>) = store_ok s"
  by (simp add: store_ok_def)

lemma reject_result:
  assumes "reject clock reason dm db s = (r, s')"
  shows "kind r = Rejected \<and> message_delta r = dm \<and> byte_delta r = db \<and> (\<exists>w. s' = s\<lparr>last_warn := w\<rparr>)"
proof -
  have "\<exists>w. s = s\<lparr>last_warn := w\<rparr>" by (rule exI [of _ "last_warn s"]) simp
  then show ?thesis using assms by (auto simp: reject_def warn_locked_def split: option.splits if_splits)
qed

lemma item_in_map: "(case descend (retain_split topic) (rs_root s) of None \<Rightarrow> None | Some nd \<Rightarrow> r_item nd) = rs_map s topic"
  by (simp add: rs_map_def item_at_def retain_split_all)

text \<open>Making room for the node of a topic.\<close>

lemma make_room:
  assumes ok: "store_ok s" and topic: "retain_topic_ok topic"
    and step: "(if descend (retain_split topic) (rs_root s) = None then descend_create mem 0 (retain_split topic) (rs_root s) else (True, rs_root s)) = (b, rt)"
  shows "item_at rt = item_at (rs_root s) \<and> rnode_ok rt \<and> (b \<longrightarrow> descend (split_all topic) rt \<noteq> None)"
proof (cases "descend (retain_split topic) (rs_root s) = None")
  case True
  then have "descend_create mem 0 (split_all topic) (rs_root s) = (b, rt)" using step by (simp add: retain_split_all)
  then show ?thesis
    using descend_create_item descend_create_ok retain_topic_levels [OF topic] ok unfolding store_ok_def by blast
next
  case False
  then show ?thesis using step ok by (auto simp: retain_split_all store_ok_def)
qed

lemma store_ok_root:
  assumes "store_ok s" "item_at rt = item_at (rs_root s)" "rnode_ok rt"
  shows "store_ok (s\<lparr>rs_root := rt\<rparr>)" "rs_map (s\<lparr>rs_root := rt\<rparr>) = rs_map s"
proof -
  show m: "rs_map (s\<lparr>rs_root := rt\<rparr>) = rs_map s" using assms(2) by (simp add: rs_map_def fun_eq_iff)
  have "r_item rt = r_item (rs_root s)" using fun_cong [OF assms(2), of "[]"] by simp
  then show "store_ok (s\<lparr>rs_root := rt\<rparr>)" using assms(1,3) unfolding store_ok_def m by simp
qed

definition store_outcome :: "retain_config \<Rightarrow> bytes \<Rightarrow> retain_item \<Rightarrow> retain_store \<Rightarrow> write_result \<Rightarrow> retain_store \<Rightarrow> bool" where
  "store_outcome limits topic it s r s' \<longleftrightarrow> store_ok s' \<and>
     (kind r = Rejected \<and> rs_map s' = rs_map s \<or>
      kind r = (if rs_map s topic = None then Stored else Replaced) \<and> rs_map s' = (rs_map s)(topic \<mapsto> it) \<and>
      message_count s' \<le> max_messages limits \<and> total_bytes s' \<le> max_total_bytes limits)"

lemma old_fits:
  assumes "store_ok s"
  shows "(if rs_map s topic \<noteq> None then 1 else 0) \<le> message_count s" "replaced_bytes (rs_map s topic) \<le> total_bytes s"
proof -
  have f: "finite (dom (rs_map s))" using assms by (simp add: store_ok_def)
  show "(if rs_map s topic \<noteq> None then 1 else 0) \<le> message_count s"
    using f assms by (auto simp: store_ok_def Suc_le_eq card_gt_0_iff)
  show "replaced_bytes (rs_map s topic) \<le> total_bytes s"
    using bytes_in_remove [OF f, of topic] assms by (cases "rs_map s topic") (simp_all add: replaced_bytes_def store_ok_def)
qed

lemma store_message_outcome:
  assumes ok: "store_ok s" and topic: "retain_topic_ok topic"
    and step: "store_message mem mem_index clock limits topic it dm db s = (r, s')"
  shows "store_outcome limits topic it s r s' \<and>
    (accounted s (message_delta r - dm) (byte_delta r - db) s' \<or> (\<exists>i. \<not> mem i) \<and> kind r = Rejected)"
proof -
  let ?old = "rs_map s topic"
  define n where "n = sz_sub (message_count s) (if ?old \<noteq> None then 1 else 0) + 1"
  define b where "b = sz_sub (total_bytes s) (replaced_bytes ?old) + ri_bytes it"
  have nb: "n = message_count s - (if ?old \<noteq> None then 1 else 0) + 1" "b = total_bytes s - replaced_bytes ?old + ri_bytes it"
    using old_fits [OF ok, of topic] by (simp_all add: n_def b_def)
  have rej: "store_outcome limits topic it s r s' \<and> accounted s (message_delta r - dm') (byte_delta r - db') s'"
    if "reject clock reason dm' db' t = (r, s')" "store_ok t" "rs_map t = rs_map s" "message_count t = message_count s" "total_bytes t = total_bytes s"
    for reason dm' db' t
    using reject_result [OF that(1)] that(2-5) by (auto simp: store_outcome_def accounted_def)
  let ?lim = "store_limits_reject limits n b"
  obtain okm rt where room: "(if descend (retain_split topic) (rs_root s) = None then descend_create mem 0 (retain_split topic) (rs_root s) else (True, rs_root s)) = (okm, rt)"
    by (metis surj_pair)
  note rt = make_room [OF ok topic room]
  let ?t = "s\<lparr>rs_root := rt\<rparr>"
  have t: "store_ok ?t" "rs_map ?t = rs_map s" using store_ok_root [OF ok] rt by blast+
  let ?k = "same_key ?old (ri_expires it)" let ?ex = "reindex ?old (ri_expires it) topic (rs_expiry s)"
  have ex: "(if ?old \<noteq> None \<and> \<not> ?k
      then unindex ?old topic (if ?k then rs_expiry s else index_expiry (ri_expires it) topic (rs_expiry s))
      else if ?k then rs_expiry s else index_expiry (ri_expires it) topic (rs_expiry s)) = ?ex"
    by (auto simp: reindex_def unindex_def)
  have step': "(case ?lim of
      None \<Rightarrow> (case (okm, rt) of
          (True, rt) \<Rightarrow> if ri_expires it \<noteq> None \<and> \<not> ?k \<and> \<not> mem_index then reject clock ''out of memory'' dm db (s\<lparr>rs_root := rt\<rparr>)
            else (no_result\<lparr>kind := (if ?old \<noteq> None then Replaced else Stored), message_delta := dm + (if ?old \<noteq> None then 0 else 1),
                    byte_delta := db + int (ri_bytes it) - int (replaced_bytes ?old)\<rparr>,
                  s\<lparr>rs_root := set_item it (split_all topic) rt, rs_expiry := ?ex, message_count := n, total_bytes := b\<rparr>)
        | (False, rt) \<Rightarrow> reject clock ''out of memory'' 0 0 (s\<lparr>rs_root := rt\<rparr>))
    | Some reason \<Rightarrow> reject clock reason dm db s) = (r, s')"
    using step unfolding store_message_def Let_def item_in_map room n_def b_def replaced_bytes_def ex unfolding retain_split_all .
  show ?thesis
  proof (cases ?lim)
    case (Some reason)
    then show ?thesis using step' rej [of reason dm db s] ok by simp
  next
    case lim: None
    show ?thesis
    proof (cases okm)
      case False
      then have "\<exists>i. \<not> mem i" using room descend_create_fail by (auto split: if_splits)
      moreover have "reject clock ''out of memory'' 0 0 ?t = (r, s')" using step' lim False by simp
      ultimately show ?thesis using rej [of "''out of memory''" 0 0 ?t] t reject_result by simp
    next
      case True
      show ?thesis
      proof (cases "ri_expires it \<noteq> None \<and> \<not> ?k \<and> \<not> mem_index")
        case c: True
        have "reject clock ''out of memory'' dm db ?t = (r, s')" using step' unfolding lim option.case prod.case eqTrueI [OF True] bool.case if_P [OF c] .
        then show ?thesis using rej [of "''out of memory''" dm db ?t] t by simp
      next
        case c: False
        have "(no_result\<lparr>kind := (if ?old \<noteq> None then Replaced else Stored), message_delta := dm + (if ?old \<noteq> None then 0 else 1),
              byte_delta := db + int (ri_bytes it) - int (replaced_bytes ?old)\<rparr>,
            s\<lparr>rs_root := set_item it (split_all topic) rt, rs_expiry := ?ex, message_count := n, total_bytes := b\<rparr>) = (r, s')"
          using step' unfolding lim option.case prod.case eqTrueI [OF True] bool.case if_not_P [OF c] .
        then have rs: "r = no_result\<lparr>kind := (if ?old \<noteq> None then Replaced else Stored), message_delta := dm + (if ?old \<noteq> None then 0 else 1),
              byte_delta := db + int (ri_bytes it) - int (replaced_bytes ?old)\<rparr>"
          "s' = s\<lparr>rs_root := set_item it (split_all topic) rt, rs_expiry := ?ex, message_count := n, total_bytes := b\<rparr>" by blast+
        have put: "store_ok s' \<and> rs_map s' = (rs_map s)(topic \<mapsto> it) \<and>
            accounted s (if ?old \<noteq> None then 0 else 1) (int (ri_bytes it) - int (replaced_bytes ?old)) s'"
          using rt True by (intro store_put [OF ok topic]) (simp_all add: rs(2) nb)
        have "n \<le> max_messages limits" "b \<le> max_total_bytes limits" using lim by (auto simp: store_limits_reject_def split: if_splits)
        moreover have "kind r = (if ?old = None then Stored else Replaced)" "message_delta r - dm = (if ?old \<noteq> None then 0 else 1)"
          "byte_delta r - db = int (ri_bytes it) - int (replaced_bytes ?old)" by (simp_all add: rs(1))
        ultimately show ?thesis using put unfolding store_outcome_def by (simp add: rs(2))
      qed
    qed
  qed
qed



subsection \<open>Removing, installing, purging\<close>

lemma empty_topic_absent: "store_ok s \<Longrightarrow> rs_map s [] = None"
  by (auto simp: store_ok_def retain_topic_ok_def)

lemma remove_topic_ok:
  assumes ok: "store_ok s" and step: "remove_topic topic s = (r, s')"
  shows "store_ok s' \<and> rs_map s' = (rs_map s)(topic := None) \<and> kind r = (if rs_map s topic = None then Absent else Removed) \<and>
    accounted s (message_delta r) (byte_delta r) s' \<and> last_warn s' = last_warn s"
proof (cases "topic = []")
  case True
  then have "r = no_result" "s' = s" using step by (simp_all add: remove_topic_def)
  then show ?thesis using ok empty_topic_absent [OF ok] True by (simp add: no_result_def fun_upd_idem)
next
  case False
  obtain x rt ex where er: "erase_at topic (retain_split topic) (rs_root s) (rs_expiry s) = (x, rt, ex)" by (metis prod_cases3)
  show ?thesis
  proof (cases x)
    case None
    note n = erase_none [OF er [unfolded None]]
    have "rnode_ok rt" using erase_at_ok [OF er] ok by (simp add: store_ok_def)
    then have "store_ok (s\<lparr>rs_root := rt\<rparr>)" "rs_map (s\<lparr>rs_root := rt\<rparr>) = rs_map s" using store_ok_root [OF ok, of rt] n by blast+
    moreover have "s' = s\<lparr>rs_root := rt\<rparr>" "r = no_result" using step er None False n by (simp_all add: remove_topic_def)
    ultimately show ?thesis using n by (simp add: no_result_def accounted_def fun_upd_idem)
  next
    case (Some b)
    let ?s = "account_removed b (s\<lparr>rs_root := rt, rs_expiry := ex\<rparr>)"
    have "(no_result\<lparr>kind := Removed, message_delta := -1, byte_delta := - int b\<rparr>, ?s) = (r, s')"
      using step er Some False by (simp add: remove_topic_def)
    then have "s' = ?s" "kind r = Removed" "message_delta r = -1" "byte_delta r = - int b" by auto
    moreover have "store_ok ?s \<and> rs_map ?s = (rs_map s)(topic := None) \<and> topic \<in> dom (rs_map s) \<and>
        message_count s = message_count ?s + 1 \<and> total_bytes s = total_bytes ?s + b"
      using erase_step [OF ok er [unfolded Some] refl] by blast
    moreover have "last_warn ?s = last_warn s" by (simp add: account_removed_def)
    ultimately show ?thesis by (simp add: accounted_def domIff)
  qed
qed

lemma install_ok:
  assumes ok: "store_ok s" and step: "install copy s = (r, s')" and copy: "rc_content copy = Some c" "retain_topic_ok (rc_topic copy)"
  shows "store_ok s' \<and> rs_map s' = (rs_map s)(rc_topic copy \<mapsto> \<lparr>ri_content = c, ri_expires = rc_expires copy, ri_bytes = length (sc_payload c)\<rparr>) \<and>
    accounted s (message_delta r) (byte_delta r) s'"
proof -
  let ?t = "rc_topic copy" let ?old = "rs_map s ?t"
  let ?it = "\<lparr>ri_content = c, ri_expires = rc_expires copy, ri_bytes = length (sc_payload c)\<rparr>"
  define rt where "rt = (case descend (retain_split ?t) (rs_root s) of None \<Rightarrow> snd (descend_create (\<lambda>_. True) 0 (retain_split ?t) (rs_root s)) | Some _ \<Rightarrow> rs_root s)"
  have t: "?t \<noteq> []" using copy(2) by (simp add: retain_topic_ok_def)
  have room: "item_at rt = item_at (rs_root s) \<and> rnode_ok rt \<and> descend (split_all ?t) rt \<noteq> None"
  proof (cases "descend (retain_split ?t) (rs_root s)")
    case None
    obtain b rt' where d: "descend_create (\<lambda>_. True) 0 (retain_split ?t) (rs_root s) = (b, rt')" by (metis surj_pair)
    have b using descend_create_fail [of "\<lambda>_. True" 0 "retain_split ?t" "rs_root s" rt'] d by (cases b) auto
    then show ?thesis using make_room [OF ok copy(2), of "\<lambda>_. True" b rt'] None d by (simp add: rt_def)
  next
    case (Some n)
    then show ?thesis using ok by (simp add: rt_def store_ok_def retain_split_all)
  qed
  let ?ex = "reindex ?old (rc_expires copy) ?t (rs_expiry s)"
  have ex: "(if ?old \<noteq> None \<and> \<not> same_key ?old (rc_expires copy) then unindex ?old ?t (index_expiry (rc_expires copy) ?t (rs_expiry s))
      else index_expiry (rc_expires copy) ?t (rs_expiry s)) = ?ex"
  proof (cases "same_key ?old (rc_expires copy)")
    case True
    then obtain o' e where k: "?old = Some o'" "rc_expires copy = Some e" "ri_expires o' = Some e" by (auto simp: same_key_def)
    then have "(e, ?t) \<in> deadlines (rs_map s)" by (auto simp: deadlines_def)
    then have "(e, ?t) \<in> set (rs_expiry s)" using ok by (simp add: store_ok_def)
    then show ?thesis using True k(2) by (simp add: reindex_def index_expiry_def)
  next
    case False
    then show ?thesis by (auto simp: reindex_def unindex_def)
  qed
  have f: "(if ?old \<noteq> None then 1 else 0) \<le> message_count s" "replaced_bytes ?old \<le> total_bytes s" using old_fits [OF ok, of ?t] .
  have eq: "r = no_result\<lparr>kind := (if ?old \<noteq> None then Replaced else Stored), message_delta := (if ?old \<noteq> None then 0 else 1),
        byte_delta := int (length (sc_payload c)) - int (replaced_bytes ?old)\<rparr>"
    "s' = s\<lparr>rs_root := set_item ?it (retain_split ?t) rt, rs_expiry := ?ex,
        message_count := sz_sub (message_count s) (if ?old \<noteq> None then 1 else 0) + 1,
        total_bytes := (if total_bytes s \<ge> replaced_bytes ?old then total_bytes s - replaced_bytes ?old + length (sc_payload c) else length (sc_payload c))\<rparr>"
    using step t unfolding install_def copy(1) option.case Let_def item_in_map ex rt_def [symmetric] replaced_bytes_def [symmetric] by simp_all
  have "store_ok s' \<and> rs_map s' = (rs_map s)(?t \<mapsto> ?it) \<and>
      accounted s (if ?old \<noteq> None then 0 else 1) (int (ri_bytes ?it) - int (replaced_bytes ?old)) s'"
    using room f by (intro store_put [OF ok copy(2), of rt]) (simp_all add: eq(2) retain_split_all)
  then show ?thesis by (simp add: eq(1))
qed

lemma purge_ok:
  assumes "store_ok s" "purge now ts dm db s = (dm', db', s')"
  shows "store_ok s' \<and> rs_map s' = (\<lambda>t. if t \<in> set ts then live now (rs_map s) t else rs_map s t) \<and>
    accounted s (dm' - dm) (db' - db) s' \<and> last_warn s' = last_warn s"
  using assms
proof (induction ts arbitrary: dm db s)
  case Nil
  then show ?case by simp
next
  case (Cons t ts)
  have skip: ?case if p: "purge now ts dm db s = (dm', db', s')" and l: "live now (rs_map s) t = rs_map s t"
    using Cons.IH [OF Cons.prems(1) p] l by (auto simp: fun_eq_iff)
  show ?case
  proof (cases "rs_map s t")
    case None
    then have "purge now ts dm db s = (dm', db', s')"
      using Cons.prems(2) by (auto simp: rs_map_def item_at_def retain_split_all split: option.splits)
    then show ?thesis using skip None by (simp add: live_def)
  next
    case (Some it)
    then obtain nd where nd: "descend (retain_split t) (rs_root s) = Some nd" "r_item nd = Some it"
      by (auto simp: rs_map_def item_at_def retain_split_all split: option.splits)
    show ?thesis
    proof (cases "expired now it")
      case False
      then have "purge now ts dm db s = (dm', db', s')" using Cons.prems(2) nd by simp
      then show ?thesis using skip Some False by (simp add: live_def)
    next
      case True
      obtain x rt ex where er: "erase_at t (retain_split t) (rs_root s) (rs_expiry s) = (x, rt, ex)" by (metis prod_cases3)
      then obtain b where b: "x = Some b" using erase_at_item [OF er] Some by (simp add: rs_map_def retain_split_all)
      let ?s = "account_removed b (s\<lparr>rs_root := rt, rs_expiry := ex\<rparr>)"
      have st: "store_ok ?s" "rs_map ?s = (rs_map s)(t := None)" "message_count s = message_count ?s + 1" "total_bytes s = total_bytes ?s + b"
        using erase_step [OF Cons.prems(1) er [unfolded b] refl] by blast+
      have p: "purge now ts (dm - 1) (db - int b) ?s = (dm', db', s')" using Cons.prems(2) nd True er b by simp
      have IH: "store_ok s'" "rs_map s' = (\<lambda>u. if u \<in> set ts then live now (rs_map ?s) u else rs_map ?s u)"
        "accounted ?s (dm' - (dm - 1)) (db' - (db - int b)) s'" "last_warn s' = last_warn ?s"
        using Cons.IH [OF st(1) p] by blast+
      have "rs_map s' = (\<lambda>u. if u \<in> set (t # ts) then live now (rs_map s) u else rs_map s u)"
        unfolding IH(2) st(2) using Some True by (auto simp: live_def fun_eq_iff)
      moreover have "accounted s (dm' - dm) (db' - db) s'" using IH(3) st(3,4) by (simp add: accounted_def)
      ultimately show ?thesis using IH(1,4) by (simp add: account_removed_def)
    qed
  qed
qed



subsection \<open>The reclaiming loop ends\<close>

lemma finite_items: "finite {p. item_at nd p \<noteq> None}"
proof (induction "size nd" arbitrary: nd rule: less_induct)
  case less
  obtain cs it where nd: "nd = RNode cs it" by (cases nd)
  have "{p. item_at nd p \<noteq> None} \<subseteq> insert [] (\<Union>(l, c)\<in>set cs. (#) l ` {p. item_at c p \<noteq> None})"
  proof
    fix p assume "p \<in> {p. item_at nd p \<noteq> None}"
    then show "p \<in> insert [] (\<Union>(l, c)\<in>set cs. (#) l ` {p. item_at c p \<noteq> None})"
      by (cases p) (auto simp: nd split: option.splits dest: map_of_SomeD intro!: bexI)
  qed
  moreover have "finite (\<Union>(l, c)\<in>set cs. (#) l ` {p. item_at c p \<noteq> None})"
    using less.hyps r_child_size unfolding nd by (intro finite_UN_I) (auto intro!: finite_imageI)
  then have "finite (insert [] (\<Union>(l, c)\<in>set cs. (#) l ` {p. item_at c p \<noteq> None}))" by (rule finite.insertI)
  ultimately show ?case by (rule finite_subset)
qed

text \<open>
  C15. The loop that reclaims expired messages ends, on every store: also when the index names a
  topic that is gone, or holds an entry with another time than the message has, each round takes a
  message out of the trie or an entry out of the index.
\<close>

theorem reclaim_terminates: "\<exists>r. reclaim_loop now dm db s = Some r"
proof (induction "card {p. item_at (rs_root s) p \<noteq> None} + length (rs_expiry s)" arbitrary: dm db s rule: less_induct)
  case less
  show ?case
  proof (cases "rs_expiry s")
    case Nil
    then show ?thesis by (subst reclaim_loop.simps) simp
  next
    case (Cons x rest)
    obtain t topic where x: "x = (t, topic)" by (cases x)
    obtain y rt ex where er: "erase_at topic (retain_split topic) (rs_root s) (rs_expiry s) = (y, rt, ex)" by (metis prod_cases3)
    let ?p = "split_all topic"
    note e = erase_at_item [OF er, unfolded retain_split_all]
    show ?thesis
    proof (cases "t \<le> now")
      case False
      then show ?thesis using Cons x by (subst reclaim_loop.simps) simp
    next
      case True
      show ?thesis
      proof (cases y)
        case None
        note n = erase_none [OF er [unfolded None]]
        let ?s = "s\<lparr>rs_root := rt, rs_expiry := tl ex\<rparr>"
        have "\<exists>r. reclaim_loop now dm db ?s = Some r" using n Cons by (intro less.hyps) simp
        then show ?thesis using er None Cons x True by (subst reclaim_loop.simps) simp
      next
        case (Some b)
        let ?s = "account_removed b (s\<lparr>rs_root := rt, rs_expiry := ex\<rparr>)"
        have i: "item_at (rs_root s) ?p \<noteq> None" using e Some by (cases "item_at (rs_root s) ?p") simp_all
        have d: "{p. item_at rt p \<noteq> None} = {p. item_at (rs_root s) p \<noteq> None} - {?p}" using e by auto
        have "card {p. item_at rt p \<noteq> None} < card {p. item_at (rs_root s) p \<noteq> None}"
          unfolding d by (rule card_Diff1_less [OF finite_items]) (use i in simp)
        moreover have "length ex \<le> length (rs_expiry s)" by (rule erase_index [OF er])
        ultimately have "\<exists>r. reclaim_loop now (dm - 1) (db - int b) ?s = Some r" by (intro less.hyps) (simp add: account_removed_def)
        then show ?thesis using er Some Cons x True by (subst reclaim_loop.simps) simp
      qed
    qed
  qed
qed


subsection \<open>The refinement\<close>

definition retained_item :: "nat \<Rightarrow> publish_packet \<Rightarrow> bytes \<Rightarrow> nat \<Rightarrow> retain_item" where
  "retained_item clock p sender now =
     \<lparr>ri_content = shared_message_content clock (topic_name p) (publish_payload p) (publish_qos p) True False (publish_properties p) sender,
      ri_expires = (if has_message_expiry_interval (publish_properties p)
        then Some (now + unat (message_expiry_interval (publish_properties p)) * 1000000000) else None),
      ri_bytes = length (publish_payload p)\<rparr>"

definition clears :: "publish_packet \<Rightarrow> bool" where
  "clears p \<longleftrightarrow> publish_payload p = [] \<or>
     has_message_expiry_interval (publish_properties p) \<and> message_expiry_interval (publish_properties p) = 0"

text \<open>What a retained PUBLISH does to the map from topics to messages.\<close>

definition store_spec ::
  "nat \<Rightarrow> publish_packet \<Rightarrow> bytes \<Rightarrow> retain_config \<Rightarrow> nat \<Rightarrow> (bytes \<Rightarrow> retain_item option) \<Rightarrow> write_result \<Rightarrow> (bytes \<Rightarrow> retain_item option) \<Rightarrow> bool" where
  "store_spec clock p sender limits now m r m' \<longleftrightarrow>
     (let topic = topic_name p; it = retained_item clock p sender now in
      if \<not> retain_topic_ok topic then kind r = Absent \<and> m' = m
      else if clears p then kind r = (if m topic = None then Absent else Removed) \<and> m' = m(topic := None)
      else kind r = Rejected \<and> (m' = m \<or> m' = live now m) \<or>
           kind r = (if live now m topic = None then Stored else Replaced) \<and> m' = (live now m)(topic \<mapsto> it) \<and>
             card (dom m') \<le> max_messages limits \<and> bytes_in m' \<le> max_total_bytes limits)"

inductive retain_run :: "retain_store \<Rightarrow> bool" where
  retain_new: "retain_run empty_store"
| retain_store: "retain_run s \<Longrightarrow> store mc mem mi clock p sender limits now s = Some (r, s') \<Longrightarrow> retain_run s'"
| retain_remove: "retain_run s \<Longrightarrow> remove_topic topic s = (r, s') \<Longrightarrow> retain_run s'"
| retain_install:
    "retain_run s \<Longrightarrow> retain_topic_ok (rc_topic copy) \<Longrightarrow> rc_content copy = Some c \<Longrightarrow> install copy s = (r, s') \<Longrightarrow> retain_run s'"
| retain_match: "retain_run s \<Longrightarrow> match_filter f limit now s = (res, s') \<Longrightarrow> retain_run s'"

lemma store_refines:
  assumes ok: "store_ok s"
  shows "\<exists>r s'. store mc mem mi clock p sender limits now s = Some (r, s') \<and> store_ok s' \<and>
    store_spec clock p sender limits now (rs_map s) r (rs_map s') \<and>
    (accounted s (message_delta r) (byte_delta r) s' \<or> (\<exists>i. \<not> mem i) \<and> kind r = Rejected)"
proof -
  let ?t = "topic_name p" let ?it = "retained_item clock p sender now"
  define limit where "limit = (if max_payload_bytes limits = 0 then 1024 * 1024 else max_payload_bytes limits)"
  have rej: "\<exists>r s'. Some (reject clock reason 0 0 s) = Some (r, s') \<and> store_ok s' \<and> kind r = Rejected \<and> rs_map s' = rs_map s \<and>
      accounted s (message_delta r) (byte_delta r) s'" for reason
  proof -
    obtain r s' where "reject clock reason 0 0 s = (r, s')" by (metis surj_pair)
    then show ?thesis using reject_result [of clock reason 0 0 s r s'] ok by (auto simp: accounted_def)
  qed
  have eq: "store mc mem mi clock p sender limits now s =
    (if \<not> retain_topic_ok ?t then Some (no_result, s)
     else if clears p then Some (remove_topic ?t s)
     else if length (publish_payload p) > limit then Some (reject clock ''payload exceeds max_payload_bytes'' 0 0 s)
     else if \<not> mc then Some (reject clock ''out of memory'' 0 0 s)
     else case reclaim_loop now 0 0 s of None \<Rightarrow> None | Some (dm, db, s) \<Rightarrow> Some (store_message mem mi clock limits ?t ?it dm db s))"
    unfolding store_def Let_def clears_def retained_item_def limit_def by simp
  consider "\<not> retain_topic_ok ?t" | "retain_topic_ok ?t" "clears p" |
    "retain_topic_ok ?t" "\<not> clears p" "length (publish_payload p) > limit \<or> \<not> mc" |
    "retain_topic_ok ?t" "\<not> clears p" "\<not> length (publish_payload p) > limit" "mc" by blast
  then show ?thesis
  proof cases
    case 1
    then show ?thesis using ok by (simp add: eq store_spec_def no_result_def)
  next
    case 2
    obtain r s' where "remove_topic ?t s = (r, s')" by (metis surj_pair)
    then show ?thesis using remove_topic_ok [OF ok] 2 by (simp add: eq store_spec_def)
  next
    case 3
    then obtain reason where "store mc mem mi clock p sender limits now s = Some (reject clock reason 0 0 s)" by (metis eq)
    then show ?thesis using rej [of reason] 3 by (auto simp: store_spec_def)
  next
    case 4
    obtain dm db s1 where l: "reclaim_loop now 0 0 s = Some (dm, db, s1)" "store_ok s1" "rs_map s1 = live now (rs_map s)" "accounted s dm db s1"
      using reclaim_loop_ok [OF ok, of now 0 0] by auto
    obtain r s' where m: "store_message mem mi clock limits ?t ?it dm db s1 = (r, s')" by (metis surj_pair)
    have out: "store_outcome limits ?t ?it s1 r s'"
      "accounted s1 (message_delta r - dm) (byte_delta r - db) s' \<or> (\<exists>i. \<not> mem i) \<and> kind r = Rejected"
      using store_message_outcome [OF l(2) 4(1) m] by simp_all
    have ok': "store_ok s'" using out(1) by (simp add: store_outcome_def)
    then have c: "message_count s' = card (dom (rs_map s'))" "total_bytes s' = bytes_in (rs_map s')" by (simp_all add: store_ok_def)
    have "store_spec clock p sender limits now (rs_map s) r (rs_map s')"
      using out(1) 4 unfolding store_spec_def store_outcome_def Let_def l(3) c by auto
    moreover have "accounted s (message_delta r) (byte_delta r) s' \<or> (\<exists>i. \<not> mem i) \<and> kind r = Rejected"
      using out(2) l(4) by (auto simp: accounted_def)
    moreover have "store mc mem mi clock p sender limits now s = Some (r, s')" unfolding eq using 4 l(1) m by simp
    ultimately show ?thesis using ok' by blast
  qed
qed



subsection \<open>Matching a filter\<close>

text \<open>The nodes a walk visits, with their paths, in the order of the walk.\<close>

function paths_below :: "bool \<Rightarrow> rnode \<Rightarrow> (level list \<times> rnode) list" where
  "paths_below at_root (RNode cs it) =
     ([], RNode cs it) # concat (map (\<lambda>(l, ch). if at_root \<and> system_level l then []
       else map (\<lambda>(p, n). (l # p, n)) (paths_below False ch)) cs)"
  by pat_completeness auto
termination by (relation "measure (\<lambda>(_, nd). size nd)") (auto dest: r_child_size)

fun found :: "level list \<Rightarrow> bool \<Rightarrow> rnode \<Rightarrow> (level list \<times> rnode) list" where
  "found [] root_level nd = [([], nd)]"
| "found (s # ss) root_level nd =
     (if s = multi_level_wildcard then (if ss \<noteq> [] then [] else paths_below root_level nd)
      else if s = single_level_wildcard then
        concat (map (\<lambda>(l, ch). if root_level \<and> system_level l then [] else map (\<lambda>(p, n). (l # p, n)) (found ss False ch)) (r_children nd))
      else (case r_child s nd of None \<Rightarrow> [] | Some ch \<Rightarrow> map (\<lambda>(p, n). (s # p, n)) (found ss False ch)))"

definition consider_all :: "nat \<Rightarrow> bytes \<Rightarrow> bool \<Rightarrow> (level list \<times> rnode) list \<Rightarrow> match_pick \<times> bytes list \<Rightarrow> match_pick \<times> bytes list" where
  "consider_all now topic at_root pns st = fold (\<lambda>(p, n). consider_node now (path_topic topic at_root p) n) pns st"

lemma consider_all_simps [simp]:
  "consider_all now topic ar [] st = st"
  "consider_all now topic ar ((p, n) # pns) st = consider_all now topic ar pns (consider_node now (path_topic topic ar p) n st)"
  "consider_all now topic ar (xs @ ys) st = consider_all now topic ar ys (consider_all now topic ar xs st)"
  by (simp_all add: consider_all_def)

lemma consider_all_below:
  "consider_all now topic ar (map (\<lambda>(p, n). (l # p, n)) pns) st = consider_all now (join_topic topic l ar) False pns st"
proof (induction pns arbitrary: st)
  case (Cons x pns)
  obtain p n where "x = (p, n)" by (cases x)
  then show ?case using Cons by simp
qed simp

lemma prefixed_in [simp]: "(l # q, n) \<in> (\<lambda>(p, n). (k # p, n)) ` A \<longleftrightarrow> k = l \<and> (q, n) \<in> A"
  by force

lemma below_in:
  "(l # q, n) \<in> set (concat (map (\<lambda>(l, ch). if c l then [] else map (\<lambda>(p, n). (l # p, n)) (g ch)) cs)) \<longleftrightarrow>
     (\<exists>ch. (l, ch) \<in> set cs \<and> \<not> c l \<and> (q, n) \<in> set (g ch))"
proof (induction cs)
  case (Cons x cs)
  obtain k ch where x: "x = (k, ch)" by (cases x)
  have "(l # q, n) \<in> set (if c k then [] else map (\<lambda>(p, n). (k # p, n)) (g ch)) \<longleftrightarrow> k = l \<and> \<not> c l \<and> (q, n) \<in> set (g ch)"
    by auto
  then show ?case using Cons by (auto simp: x)
qed simp

lemma fold_children:
  assumes "\<And>l ch st. (l, ch) \<in> set cs \<Longrightarrow> f l ch st = consider_all now (join_topic topic l ar) False (g l ch) st"
  shows "fold (\<lambda>(l, ch) st. if c l then st else f l ch st) cs st =
    consider_all now topic ar (concat (map (\<lambda>(l, ch). if c l then [] else map (\<lambda>(p, n). (l # p, n)) (g l ch)) cs)) st"
  using assms by (induction cs arbitrary: st) (auto simp: consider_all_below)

lemma collect_paths: "collect now topic ar nd st = consider_all now topic ar (paths_below ar nd) st"
proof (induction "size nd" arbitrary: nd topic ar st rule: less_induct)
  case less
  obtain cs it where nd: "nd = RNode cs it" by (cases nd)
  have "collect now (join_topic topic l ar) False ch st = consider_all now (join_topic topic l ar) False (paths_below False ch) st"
    if "(l, ch) \<in> set cs" for l ch st
    using less.hyps r_child_size [OF that] nd by blast
  from fold_children [where c = "\<lambda>l. ar \<and> system_level l" and f = "\<lambda>l. collect now (join_topic topic l ar) False"
      and g = "\<lambda>_. paths_below False", OF this]
  show ?case by (simp add: nd)
qed

lemma walk_found: "walk now topic fs rl nd st = consider_all now topic rl (found fs rl nd) st"
proof (induction fs arbitrary: topic rl nd st)
  case (Cons s ss)
  have w: "fold (\<lambda>(l, ch) st. if rl \<and> system_level l then st else walk now (join_topic topic l rl) ss False ch st) (r_children nd) st =
      consider_all now topic rl (concat (map (\<lambda>(l, ch). if rl \<and> system_level l then [] else map (\<lambda>(p, n). (l # p, n)) (found ss False ch)) (r_children nd))) st"
    by (rule fold_children [where c = "\<lambda>l. rl \<and> system_level l" and f = "\<lambda>l. walk now (join_topic topic l rl) ss False"
        and g = "\<lambda>_. found ss False"]) (rule Cons.IH)
  show ?case
    by (simp only: walk.simps found.simps w) (simp add: collect_paths Cons.IH consider_all_below split: option.split)
qed simp

lemma child_in: "rnode_ok nd \<Longrightarrow> (l, c) \<in> set (r_children nd) \<longleftrightarrow> r_child l nd = Some c"
  using rnode_ok_iff [of nd] by (simp add: r_child_def map_of_eq_Some_iff)

lemma paths_below_iff:
  "rnode_ok nd \<Longrightarrow> (p, n) \<in> set (paths_below ar nd) \<longleftrightarrow> descend p nd = Some n \<and> \<not> (ar \<and> p \<noteq> [] \<and> system_level (hd p))"
proof (induction "size nd" arbitrary: nd p ar rule: less_induct)
  case less
  obtain cs it where nd: "nd = RNode cs it" by (cases nd)
  show ?case
  proof (cases p)
    case Nil
    then show ?thesis by (auto simp: nd)
  next
    case (Cons l q)
    have "(p, n) \<in> set (paths_below ar nd) \<longleftrightarrow> (\<exists>ch. (l, ch) \<in> set cs \<and> \<not> (ar \<and> system_level l) \<and> (q, n) \<in> set (paths_below False ch))"
      using below_in [of l q n "\<lambda>l. ar \<and> system_level l" "paths_below False" cs] by (simp add: nd Cons)
    also have "\<dots> \<longleftrightarrow> (\<exists>ch. r_child l nd = Some ch \<and> \<not> (ar \<and> system_level l) \<and> descend q ch = Some n)"
    proof -
      have "(l, ch) \<in> set cs \<longleftrightarrow> r_child l nd = Some ch" for ch using child_in [OF less.prems] by (simp add: nd)
      moreover have "(q, n) \<in> set (paths_below False ch) \<longleftrightarrow> descend q ch = Some n" if "r_child l nd = Some ch" for ch
        using less.hyps [of ch q False] that r_child_size [of l ch cs it] child_in [OF less.prems, of l ch] rnode_ok_child [OF less.prems that]
        by (simp add: nd)
      ultimately show ?thesis by blast
    qed
    finally show ?thesis by (auto simp: Cons split: option.splits)
  qed
qed

lemma wildcards_not_ok: "\<not> level_ok multi_level_wildcard" "\<not> level_ok single_level_wildcard"
  by (simp_all add: level_ok_def)

lemma found_iff:
  "rnode_ok nd \<Longrightarrow> (p, n) \<in> set (found fs rl nd) \<longleftrightarrow> descend p nd = Some n \<and> matches_from rl fs p"
proof (induction fs arbitrary: nd p rl)
  case Nil
  then show ?case by (cases p) (auto simp: matches_from_def topic_matches_def)
next
  case (Cons s ss)
  show ?case
  proof (cases "s = multi_level_wildcard")
    case True
    show ?thesis
    proof (cases "ss = []")
      case ss: True
      have "matches_from rl (s # ss) p \<longleftrightarrow> \<not> (rl \<and> p \<noteq> [] \<and> system_level (hd p))"
        by (auto simp: matches_from_def topic_matches_def True ss)
      then show ?thesis using paths_below_iff [OF Cons.prems, of p n rl] True ss by simp
    next
      case False
      have "\<not> (descend p nd = Some n \<and> matches_from rl (s # ss) p)"
      proof
        assume a: "descend p nd = Some n \<and> matches_from rl (s # ss) p"
        then obtain l q where p: "p = l # q" using False by (cases p) (auto simp: matches_from_def topic_matches_def matches_Nil split: if_splits)
        then have "l = s" using a False True by (auto simp: matches_from_Cons)
        moreover obtain ch where "r_child l nd = Some ch" using a p by (auto split: option.splits)
        ultimately show False using rnode_ok_child [OF Cons.prems, of l ch] True wildcards_not_ok by blast
      qed
      then show ?thesis using True False by simp
    qed
  next
    case nh: False
    show ?thesis
    proof (cases p)
      case Nil
      then show ?thesis using nh by (auto simp: matches_from_def topic_matches_def split: option.splits)
    next
      case (Cons l q)
      have sub: "(q, n) \<in> set (found ss False ch) \<longleftrightarrow> descend q ch = Some n \<and> matches ss q" if "r_child l nd = Some ch" for ch
        using Cons.IH [of ch q False] rnode_ok_child [OF Cons.prems that] by (simp add: matches_from_def)
      show ?thesis
      proof (cases "s = single_level_wildcard")
        case True
        have "(p, n) \<in> set (found (s # ss) rl nd) \<longleftrightarrow> (\<exists>ch. (l, ch) \<in> set (r_children nd) \<and> \<not> (rl \<and> system_level l) \<and> (q, n) \<in> set (found ss False ch))"
          using below_in [of l q n "\<lambda>l. rl \<and> system_level l" "found ss False" "r_children nd"] True by (simp add: Cons)
        also have "\<dots> \<longleftrightarrow> (\<exists>ch. r_child l nd = Some ch \<and> \<not> (rl \<and> system_level l) \<and> descend q ch = Some n \<and> matches ss q)"
          using child_in [OF Cons.prems] sub by blast
        also have "\<dots> \<longleftrightarrow> descend p nd = Some n \<and> \<not> (rl \<and> system_level l) \<and> matches ss q"
          by (auto simp: Cons split: option.splits)
        also have "\<dots> \<longleftrightarrow> descend p nd = Some n \<and> matches_from rl (s # ss) p"
        proof -
          have "l \<noteq> single_level_wildcard" if "descend p nd = Some n"
            using that rnode_ok_child [OF Cons.prems] wildcards_not_ok by (auto simp: Cons split: option.splits)
          then show ?thesis using True nh by (auto simp: Cons matches_from_Cons)
        qed
        finally show ?thesis .
      next
        case False
        have "(p, n) \<in> set (found (s # ss) rl nd) \<longleftrightarrow> l = s \<and> (\<exists>ch. r_child l nd = Some ch \<and> (q, n) \<in> set (found ss False ch))"
          using False nh by (cases "r_child s nd") (auto simp: Cons)
        also have "\<dots> \<longleftrightarrow> l = s \<and> descend p nd = Some n \<and> matches ss q" using sub by (auto simp: Cons split: option.splits)
        also have "\<dots> \<longleftrightarrow> descend p nd = Some n \<and> matches_from rl (s # ss) p" using False nh by (auto simp: Cons matches_from_Cons)
        finally show ?thesis .
      qed
    qed
  qed
qed


lemma distinct_prefixed: "distinct (map fst xs) \<Longrightarrow> distinct (map fst (map (\<lambda>(p, n). (l # p, n)) xs))"
  by (induction xs) (force)+

lemma distinct_below:
  assumes "distinct (map fst cs)" "\<And>l ch. (l, ch) \<in> set cs \<Longrightarrow> distinct (map fst (g ch))"
  shows "distinct (map fst (concat (map (\<lambda>(l, ch). if c l then [] else map (\<lambda>(p, n). (l # p, n)) (g ch)) cs)))"
  using assms
proof (induction cs)
  case (Cons x cs)
  obtain l ch where x: "x = (l, ch)" by (cases x)
  let ?rest = "concat (map (\<lambda>(l, ch). if c l then [] else map (\<lambda>(p, n). (l # p, n)) (g ch)) cs)"
  let ?here = "if c l then [] else map (\<lambda>(p, n). (l # p, n)) (g ch)"
  have rest: "distinct (map fst ?rest)"
  proof (rule Cons.IH)
    show "distinct (map fst cs)" using Cons.prems(1) by simp
    show "distinct (map fst (g ch'))" if "(k, ch') \<in> set cs" for k ch' using Cons.prems(2) [of k ch'] that by simp
  qed
  have here: "distinct (map fst ?here)" using distinct_prefixed [OF Cons.prems(2) [of l ch]] by (simp add: x del: map_map)
  have "p \<notin> fst ` set ?rest" if here_p: "p \<in> fst ` set ?here" for p
  proof
    assume "p \<in> fst ` set ?rest"
    then obtain n where n: "(p, n) \<in> set ?rest" by force
    obtain q where q: "p = l # q" using here_p by (cases "c l") auto
    then have "l \<in> fst ` set cs" using n below_in [of l q n c g cs] by force
    then show False using Cons.prems(1) x by simp
  qed
  then have "fst ` set ?here \<inter> fst ` set ?rest = {}" by blast
  then show ?case using here rest unfolding x list.map concat.simps prod.case map_append distinct_append set_map by blast
qed simp

lemma distinct_found: "rnode_ok nd \<Longrightarrow> distinct (map fst (found fs rl nd))"
proof -
  have pb: "rnode_ok nd \<Longrightarrow> distinct (map fst (paths_below ar nd))" for nd ar
  proof (induction "size nd" arbitrary: nd ar rule: less_induct)
    case less
    obtain cs it where nd: "nd = RNode cs it" by (cases nd)
    have ok: "distinct (map fst cs)" "\<And>l ch. (l, ch) \<in> set cs \<Longrightarrow> rnode_ok ch" using less.prems by (auto simp: nd rnode_ok_RNode)
    let ?rest = "concat (map (\<lambda>(l, ch). if ar \<and> system_level l then [] else map (\<lambda>(p, n). (l # p, n)) (paths_below False ch)) cs)"
    have "distinct (map fst ?rest)" using less.hyps r_child_size ok(2) nd by (intro distinct_below [OF ok(1)]) blast
    moreover have "[] \<notin> fst ` set ?rest" by (auto split: if_splits)
    ultimately show ?case by (simp add: nd)
  qed
  show "rnode_ok nd \<Longrightarrow> ?thesis"
  proof (induction fs arbitrary: rl nd)
    case (Cons s ss)
    have ch: "rnode_ok ch" if "(l, ch) \<in> set (r_children nd)" for l ch using Cons.prems rnode_ok_iff [of nd] that by auto
    have "distinct (map fst (concat (map (\<lambda>(l, ch). if rl \<and> system_level l then [] else map (\<lambda>(p, n). (l # p, n)) (found ss False ch)) (r_children nd))))"
      using Cons.prems rnode_ok_iff [of nd] ch Cons.IH by (intro distinct_below) auto
    moreover have "distinct (map fst (map (\<lambda>(p, n). (s # p, n)) (found ss False c)))" if "r_child s nd = Some c" for c
      using rnode_ok_child [OF Cons.prems that] by (intro distinct_prefixed Cons.IH) simp
    ultimately show ?case using pb [OF Cons.prems] by (simp split: option.split del: map_map)
  qed simp
qed

text \<open>What is offered, and what is found expired.\<close>

definition items_of :: "(level list \<times> rnode) list \<Rightarrow> (bytes \<times> retain_item) list" where
  "items_of pns = map (\<lambda>(p, n). (topic_of p, the (r_item n))) (filter (\<lambda>(p, n). r_item n \<noteq> None \<and> topic_of p \<noteq> []) pns)"

lemma items_of_Cons [simp]:
  "items_of ((p, n) # pns) = (case r_item n of None \<Rightarrow> items_of pns
     | Some it \<Rightarrow> if topic_of p = [] then items_of pns else (topic_of p, it) # items_of pns)"
  by (simp add: items_of_def split: option.split)

lemma items_of_Nil [simp]: "items_of [] = []"
  by (simp add: items_of_def)

lemma consider_all_items:
  "consider_all now [] True pns (pk, ex) =
     (fold offer (map (\<lambda>(t, it). copy_of t it) (filter (\<lambda>(t, it). \<not> expired now it) (items_of pns))) pk,
      ex @ map fst (filter (\<lambda>(t, it). expired now it) (items_of pns)))"
proof (induction pns arbitrary: pk ex)
  case (Cons x pns)
  obtain p n where "x = (p, n)" by (cases x)
  then show ?case using Cons by (simp add: consider_node_def topic_of_def [symmetric] split: option.split)
qed simp


subsection \<open>The smallest topics\<close>

lemma take_insort:
  "sorted (map f ys) \<Longrightarrow> f c \<notin> f ` set ys \<Longrightarrow> 0 < n \<Longrightarrow> n \<le> length ys \<Longrightarrow>
   take n (insort_key f c ys) = (if f c < f (last (take n ys)) then insort_key f c (butlast (take n ys)) else take n ys)"
proof (induction ys arbitrary: n)
  case (Cons y ys)
  obtain m where n: "n = Suc m" using Cons.prems(3) by (cases n) auto
  show ?case
  proof (cases "f c \<le> f y")
    case True
    have lt: "f c < f y" using True Cons.prems(2) by (simp add: order_less_le)
    have "take n (y # ys) \<noteq> []" by (simp add: n)
    then have "last (take n (y # ys)) \<in> set (y # ys)" using last_in_set set_take_subset by (metis subsetD)
    then have "f y \<le> f (last (take n (y # ys)))" using Cons.prems(1) by auto
    moreover have "butlast (take n (y # ys)) = take m (y # ys)" using Cons.prems(4) butlast_take [of n "y # ys"] by (simp add: n del: take_Suc_Cons)
    moreover have "insort_key f c (take m (y # ys)) = c # take m (y # ys)" using True by (cases m) simp_all
    ultimately show ?thesis using lt True by (simp add: n)
  next
    case False
    show ?thesis
    proof (cases "m = 0")
      case True
      then show ?thesis using False by (auto simp: n)
    next
      case m: False
      then have ne: "take m ys \<noteq> []" using Cons.prems(4) by (auto simp: n)
      have IH: "take m (insort_key f c ys) = (if f c < f (last (take m ys)) then insort_key f c (butlast (take m ys)) else take m ys)"
        using Cons m by (auto simp: n)
      show ?thesis using IH False ne by (simp add: n)
    qed
  qed
qed simp

lemma sort_key_snoc:
  assumes "distinct (map f (xs @ [c]))"
  shows "sort_key f (xs @ [c]) = insort_key f c (sort_key f xs)"
proof -
  have i: "inj_on f (set xs \<union> {c})" "distinct xs" "c \<notin> set xs" "f c \<notin> f ` set xs" using assms by (auto simp: distinct_map)
  have "distinct (map f (sort_key f (xs @ [c])))" "distinct (map f (insort_key f c (sort_key f xs)))"
    using i by (auto simp: distinct_map distinct_insort set_insort_key)
  then show ?thesis
    using map_sorted_distinct_set_unique [of f "sort_key f (xs @ [c])" "insort_key f c (sort_key f xs)"] i
    by (simp add: set_insort_key sorted_insort_key)
qed

lemma fold_offer:
  "distinct (map rc_topic xs) \<Longrightarrow>
   fold offer xs \<lparr>pick_limit = limit, pick_truncated = False, best = []\<rparr> =
     \<lparr>pick_limit = limit, pick_truncated = limit < length xs, best = take limit (sort_key rc_topic xs)\<rparr>"
proof (induction xs rule: rev_induct)
  case (snoc c xs)
  let ?ys = "sort_key rc_topic xs"
  have d: "distinct (map rc_topic xs)" "rc_topic c \<notin> rc_topic ` set xs" using snoc.prems by auto
  have s: "sort_key rc_topic (xs @ [c]) = insort_key rc_topic c ?ys" by (rule sort_key_snoc [OF snoc.prems])
  have IH: "fold offer xs \<lparr>pick_limit = limit, pick_truncated = False, best = []\<rparr> =
      \<lparr>pick_limit = limit, pick_truncated = limit < length xs, best = take limit ?ys\<rparr>" by (rule snoc.IH [OF d(1)])
  show ?case
  proof (cases "0 < limit \<and> limit \<le> length xs")
    case True
    then have "take limit (insort_key rc_topic c ?ys) =
        (if rc_topic c < rc_topic (last (take limit ?ys)) then insort_key rc_topic c (butlast (take limit ?ys)) else take limit ?ys)"
      using d(2) by (intro take_insort) simp_all
    then show ?thesis using True unfolding fold_append comp_apply IH s by (simp add: offer_def Let_def)
  next
    case False
    then show ?thesis unfolding fold_append comp_apply IH s by (auto simp: offer_def)
  qed
qed simp



subsection \<open>The result of matching\<close>

lemma descend_levels: "rnode_ok nd \<Longrightarrow> descend p nd = Some n \<Longrightarrow> l \<in> set p \<Longrightarrow> level_ok l"
proof (induction p arbitrary: nd)
  case (Cons k p)
  obtain ch where c: "r_child k nd = Some ch" "descend p ch = Some n" using Cons.prems(2) by (auto split: option.splits)
  then show ?case using Cons.IH [OF _ c(2)] rnode_ok_child [OF Cons.prems(1) c(1)] Cons.prems(3) by auto
qed simp

text \<open>The topics with a message that a filter matches.\<close>

definition retained_matches :: "bytes \<Rightarrow> retain_store \<Rightarrow> bytes set" where
  "retained_matches f s = {t \<in> dom (rs_map s). topic_matches (split_all f) (split_all t)}"

lemma items_found:
  assumes ok: "store_ok s"
  shows "set (items_of (found (split_all f) True (rs_root s))) = {(t, it). t \<in> retained_matches f s \<and> rs_map s t = Some it}"
    "distinct (map fst (items_of (found (split_all f) True (rs_root s))))"
proof -
  let ?F = "found (split_all f) True (rs_root s)"
  have rok: "rnode_ok (rs_root s)" "r_item (rs_root s) = None" using ok by (simp_all add: store_ok_def)
  have F: "(p, n) \<in> set ?F \<longleftrightarrow> descend p (rs_root s) = Some n \<and> topic_matches (split_all f) p" for p n
    using found_iff [OF rok(1), of p n "split_all f" True] by (simp add: matches_from_def)
  have path: "split_all (topic_of p) = p" if "descend p (rs_root s) = Some n" "r_item n \<noteq> None" for p n
  proof (rule split_topic_of)
    show "p \<noteq> []" using that rok(2) by auto
    show "\<forall>l\<in>set p. slash \<notin> set l" using descend_levels [OF rok(1) that(1)] by (auto simp: level_ok_def)
  qed
  show "set (items_of ?F) = {(t, it). t \<in> retained_matches f s \<and> rs_map s t = Some it}"
  proof (intro set_eqI iffI)
    fix x assume "x \<in> set (items_of ?F)"
    then obtain p n it where p: "(p, n) \<in> set ?F" "r_item n = Some it" "x = (topic_of p, it)" by (auto simp: items_of_def)
    have d: "descend p (rs_root s) = Some n" "topic_matches (split_all f) p" using F p(1) by simp_all
    have "split_all (topic_of p) = p" by (rule path [OF d(1)]) (simp add: p(2))
    then show "x \<in> {(t, it). t \<in> retained_matches f s \<and> rs_map s t = Some it}"
      using d p(2,3) by (auto simp: retained_matches_def rs_map_def item_at_def)
  next
    fix x assume "x \<in> {(t, it). t \<in> retained_matches f s \<and> rs_map s t = Some it}"
    then obtain t it where t: "x = (t, it)" "topic_matches (split_all f) (split_all t)" "rs_map s t = Some it" by (auto simp: retained_matches_def)
    then obtain n where n: "descend (split_all t) (rs_root s) = Some n" "r_item n = Some it" by (auto simp: rs_map_def item_at_def split: option.splits)
    have "(split_all t, n) \<in> set ?F" using F n(1) t(2) by simp
    moreover have "t \<noteq> []" using t(3) ok by (auto simp: store_ok_def retain_topic_ok_def)
    ultimately show "x \<in> set (items_of ?F)"
      using n(2) t(1) unfolding items_of_def set_map set_filter
      by (intro image_eqI [where x = "(split_all t, n)"]) (simp_all add: topic_of_split)
  qed
  let ?G = "filter (\<lambda>(p, n). r_item n \<noteq> None \<and> topic_of p \<noteq> []) ?F"
  have "distinct (map fst ?G)" using distinct_found [OF rok(1)] by (simp add: distinct_map_filter)
  then have "distinct (map (\<lambda>x. topic_of (fst x)) ?G)"
  proof -
    have "inj_on topic_of (fst ` set ?G)"
    proof (rule inj_onI)
      fix p q assume "p \<in> fst ` set ?G" "q \<in> fst ` set ?G" and e: "topic_of p = topic_of q"
      then obtain m n where "(p, m) \<in> set ?F" "r_item m \<noteq> None" "(q, n) \<in> set ?F" "r_item n \<noteq> None" by auto
      then have d: "descend p (rs_root s) = Some m" "r_item m \<noteq> None" "descend q (rs_root s) = Some n" "r_item n \<noteq> None" by (simp_all add: F)
      show "p = q" using path [OF d(1,2)] path [OF d(3,4)] e by metis
    qed
    then have "distinct (map topic_of (map fst ?G))" using \<open>distinct (map fst ?G)\<close> by (simp add: distinct_map del: map_map)
    then show ?thesis by (simp add: comp_def)
  qed
  then show "distinct (map fst (items_of ?F))" by (simp add: items_of_def comp_def case_prod_beta)
qed


definition fresh_matches :: "bytes \<Rightarrow> nat \<Rightarrow> retain_store \<Rightarrow> bytes set" where
  "fresh_matches f now s = {t \<in> retained_matches f s. \<not> expired now (the (rs_map s t))}"

definition copies_found :: "bytes \<Rightarrow> nat \<Rightarrow> retain_store \<Rightarrow> retained_copy list" where
  "copies_found f now s =
     map (\<lambda>(t, it). copy_of t it) (filter (\<lambda>(t, it). \<not> expired now it) (items_of (found (split_all f) True (rs_root s))))"

lemma matched_copies:
  assumes ok: "store_ok s" and xs: "xs = copies_found f now s"
  shows "distinct (map rc_topic xs)" "sort_key rc_topic xs = map (\<lambda>t. copy_of t (the (rs_map s t))) (sorted_list_of_set (fresh_matches f now s))"
    "length xs = card (fresh_matches f now s)"
proof -
  let ?I = "items_of (found (split_all f) True (rs_root s))" let ?M = "fresh_matches f now s"
  note I = items_found [OF ok, of f]
  have top: "map rc_topic xs = map fst (filter (\<lambda>(t, it). \<not> expired now it) ?I)"
    by (simp add: xs copies_found_def copy_of_def comp_def case_prod_beta)
  show d: "distinct (map rc_topic xs)" unfolding top using I(2) by (simp add: distinct_map_filter)
  have fin: "finite ?M" using ok by (auto simp: fresh_matches_def retained_matches_def store_ok_def)
  have set: "set xs = (\<lambda>t. copy_of t (the (rs_map s t))) ` ?M"
  proof (intro set_eqI iffI)
    fix c assume "c \<in> set xs"
    then obtain t it where c: "(t, it) \<in> set ?I" "\<not> expired now it" "c = copy_of t it" by (auto simp: xs copies_found_def)
    then have "t \<in> ?M" "rs_map s t = Some it" using I(1) by (auto simp: fresh_matches_def)
    then show "c \<in> (\<lambda>t. copy_of t (the (rs_map s t))) ` ?M" using c(3) by (intro image_eqI [of _ _ t]) simp_all
  next
    fix c assume "c \<in> (\<lambda>t. copy_of t (the (rs_map s t))) ` ?M"
    then obtain t where t: "t \<in> ?M" "c = copy_of t (the (rs_map s t))" by blast
    then obtain it where it: "rs_map s t = Some it" by (auto simp: fresh_matches_def retained_matches_def)
    have "(t, it) \<in> set ?I" "\<not> expired now it" using t(1) it I(1) by (auto simp: fresh_matches_def)
    then show "c \<in> set xs" unfolding xs copies_found_def using t(2) it by (simp add: image_iff) blast
  qed
  let ?ys = "map (\<lambda>t. copy_of t (the (rs_map s t))) (sorted_list_of_set ?M)"
  have ys: "map rc_topic ?ys = sorted_list_of_set ?M" by (simp add: copy_of_def comp_def)
  have inj: "inj_on rc_topic (set xs)" using d by (simp add: distinct_map)
  show "sort_key rc_topic xs = ?ys"
  proof (rule map_sorted_distinct_set_unique)
    show "inj_on rc_topic (set (sort_key rc_topic xs) \<union> set ?ys)" using inj set fin by simp
    show "distinct (map rc_topic (sort_key rc_topic xs))" using d by (simp add: distinct_map)
    show "sorted (map rc_topic ?ys)" "distinct (map rc_topic ?ys)" unfolding ys by simp_all
    show "set (sort_key rc_topic xs) = set ?ys" using set fin by simp
  qed simp
  have "length xs = card (set (map rc_topic xs))" using distinct_card [OF d] by simp
  also have "set (map rc_topic xs) = ?M" unfolding set_map set by (simp add: copy_of_def image_image)
  finally show "length xs = card ?M" .
qed

lemma match_filter_ok:
  assumes ok: "store_ok s" and f: "f \<noteq> []" and step: "match_filter f limit now s = (res, s')"
  shows "messages res = map (\<lambda>t. copy_of t (the (rs_map s t))) (take limit (sorted_list_of_set (fresh_matches f now s)))"
    "match_truncated res = (limit < card (fresh_matches f now s))"
    "rs_map s' = (\<lambda>t. if t \<in> retained_matches f s then live now (rs_map s) t else rs_map s t)"
    "store_ok s'" "accounted s (match_message_delta res) (match_byte_delta res) s'"
proof -
  let ?I = "items_of (found (split_all f) True (rs_root s))"
  let ?xs = "copies_found f now s"
  let ?ts = "map fst (filter (\<lambda>(t, it). expired now it) ?I)"
  note xs = matched_copies [OF ok refl, of f now]
  have w: "walk now [] (retain_split f) True (rs_root s) (\<lparr>pick_limit = limit, pick_truncated = False, best = []\<rparr>, []) =
      (\<lparr>pick_limit = limit, pick_truncated = limit < length ?xs, best = take limit (sort_key rc_topic ?xs)\<rparr>, ?ts)"
    unfolding walk_found retain_split_all consider_all_items copies_found_def [symmetric] fold_offer [OF xs(1)] by simp
  obtain dm db t where p: "purge now ?ts 0 0 s = (dm, db, t)" by (metis prod_cases3)
  have res: "res = \<lparr>messages = sort_key rc_topic (rev (take limit (sort_key rc_topic ?xs))), match_truncated = limit < length ?xs,
      match_message_delta = dm, match_byte_delta = db\<rparr>" "s' = t"
    using step f by (simp_all add: match_filter_def w p)
  let ?b = "take limit (sort_key rc_topic ?xs)"
  have "distinct (map rc_topic (sort_key rc_topic ?xs))" using xs(1) by (simp add: distinct_map)
  then have d: "distinct (map rc_topic ?b)" "sorted (map rc_topic ?b)"
    unfolding take_map [symmetric] by (simp_all add: distinct_take sorted_wrt_take)
  have "sort_key rc_topic (rev ?b) = ?b"
    using map_sorted_distinct_set_unique [of rc_topic "sort_key rc_topic (rev ?b)" ?b] d by (simp add: distinct_map)
  then show "messages res = map (\<lambda>t. copy_of t (the (rs_map s t))) (take limit (sorted_list_of_set (fresh_matches f now s)))"
    unfolding res(1) match_result.simps by (simp only: xs(2) take_map)
  show "match_truncated res = (limit < card (fresh_matches f now s))" by (simp only: res(1) match_result.simps xs(3))
  note pu = purge_ok [OF ok p]
  show "store_ok s'" "accounted s (match_message_delta res) (match_byte_delta res) s'" using pu by (simp_all add: res)
  have "(if t \<in> set ?ts then live now (rs_map s) t else rs_map s t) = (if t \<in> retained_matches f s then live now (rs_map s) t else rs_map s t)" for t
  proof -
    have "t \<in> set ?ts \<longleftrightarrow> (\<exists>it. t \<in> retained_matches f s \<and> rs_map s t = Some it \<and> expired now it)"
      using items_found(1) [OF ok, of f] by (auto simp: image_iff)
    moreover have "live now (rs_map s) t = rs_map s t" if "\<not> (\<exists>it. rs_map s t = Some it \<and> expired now it)"
      using that by (auto simp: live_def split: option.split)
    ultimately show ?thesis by auto
  qed
  then show "rs_map s' = (\<lambda>t. if t \<in> retained_matches f s then live now (rs_map s) t else rs_map s t)"
    using pu by (simp add: res(2))
qed

lemma empty_store_ok: "store_ok empty_store" "rs_map empty_store = Map.empty"
proof -
  show m: "rs_map empty_store = Map.empty" by (simp add: rs_map_def empty_store_def fun_eq_iff)
  show "store_ok empty_store" unfolding store_ok_def m by (simp add: empty_store_def deadlines_def bytes_in_def)
qed

lemma match_filter_store_ok: "store_ok s \<Longrightarrow> match_filter f limit now s = (res, s') \<Longrightarrow> store_ok s'"
  using match_filter_ok(4) [of s f limit now res s'] by (cases "f = []") (simp_all add: match_filter_def)

lemma retain_run_ok: "retain_run s \<Longrightarrow> store_ok s"
proof (induction rule: retain_run.induct)
  case retain_new
  show ?case by (rule empty_store_ok)
next
  case (retain_store s mc mem mi clock p sender limits now r s')
  then show ?case using store_refines [of s mc mem mi clock p sender limits now] by auto
next
  case (retain_remove s topic r s')
  then show ?case using remove_topic_ok by blast
next
  case (retain_install s copy c r s')
  then show ?case using install_ok by blast
next
  case (retain_match s f limit now res s')
  then show ?case using match_filter_store_ok by blast
qed


definition sample_publish :: publish_packet where
  "sample_publish = \<lparr>dup_flag = False, publish_qos = 0, retain_flag = True, topic_name = [0x61], packet_id = None,
     publish_properties = default_properties, publish_payload = [7]\<rparr>"

definition sample_limits :: retain_config where
  "sample_limits = \<lparr>max_messages = 10, max_payload_bytes = 0, max_total_bytes = 100\<rparr>"

definition sample_item :: retain_item where
  "sample_item = retained_item 0 sample_publish [] 0"

definition sample_store :: retain_store where
  "sample_store = \<lparr>rs_root = RNode [([0x61], RNode [] (Some sample_item))] None, rs_expiry = [], message_count = 1, total_bytes = 1, last_warn = None\<rparr>"

lemma sample_stored:
  "store True (\<lambda>_. True) True 0 sample_publish [] sample_limits 0 empty_store =
     Some (no_result\<lparr>kind := Stored, message_delta := 1, byte_delta := 1\<rparr>, sample_store)"
proof -
  have "reclaim_loop 0 0 0 empty_store = Some (0, 0, empty_store)" by (subst reclaim_loop.simps) (simp add: empty_store_def)
  moreover have "default_properties\<lparr>has_message_expiry_interval := False\<rparr> = default_properties" by (simp add: default_properties_def)
  moreover have "retain_split [0x61] = [[0x61]]" by (simp add: retain_split_def)
  ultimately show ?thesis
    by (simp add: store_def Let_def sample_publish_def retain_topic_ok_def sample_limits_def default_properties_def store_message_def
        store_limits_reject_def same_key_def index_expiry_def sample_store_def sample_item_def retained_item_def empty_store_def r_put_def new_rnode_def)
qed


text \<open>
  C7. Matching a filter returns the messages of the first topics in byte order, at most as many as
  allowed, among the topics that the filter matches by the rules of the protocol and whose message
  has not expired; it says whether there were more, drops the expired messages it met and no
  other, and keeps the counters exact.
\<close>

theorem retained_messages_matched:
  assumes "retain_run s" "f \<noteq> []" "match_filter f limit now s = (res, s')"
  shows "messages res = map (\<lambda>t. copy_of t (the (rs_map s t))) (take limit (sorted_list_of_set (fresh_matches f now s))) \<and>
    match_truncated res = (limit < card (fresh_matches f now s)) \<and>
    rs_map s' = (\<lambda>t. if t \<in> retained_matches f s then live now (rs_map s) t else rs_map s t) \<and>
    message_count s' = card (dom (rs_map s')) \<and> int (message_count s') = int (message_count s) + match_message_delta res"
proof -
  note m = match_filter_ok [OF retain_run_ok [OF assms(1)] assms(2,3)]
  have "message_count s' = card (dom (rs_map s'))" using m(4) by (simp add: store_ok_def)
  moreover have "int (message_count s') = int (message_count s) + match_message_delta res" using m(5) by (simp add: accounted_def)
  ultimately show ?thesis using m(1-3) by blast
qed


lemma sample_store_map: "rs_map sample_store = [[0x61] \<mapsto> sample_item]"
proof
  fix t
  obtain l ls where t: "split_all t = l # ls" by (rule split_all_Cons)
  have a: "split_all [0x61] = [[0x61]]" by simp
  show "rs_map sample_store t = [[0x61] \<mapsto> sample_item] t"
  proof (cases "t = [0x61]")
    case True
    then show ?thesis by (simp add: rs_map_def sample_store_def)
  next
    case False
    then have "\<not> (l = [0x61] \<and> ls = [])" using t a split_all_inj by metis
    then show ?thesis using False by (cases ls) (auto simp: rs_map_def sample_store_def t)
  qed
qed

theorem retained_messages_matched_witness:
  "\<exists>res s'. match_filter [hash_byte] 5 0 sample_store = (res, s') \<and> messages res = [copy_of [0x61] sample_item] \<and> \<not> match_truncated res"
proof -
  have run: "retain_run sample_store" using retain_store [OF retain_new sample_stored] .
  have m: "fresh_matches [hash_byte] 0 sample_store = {[0x61]}"
    by (auto simp: fresh_matches_def retained_matches_def sample_store_map topic_matches_def system_level_def expired_def sample_item_def
        retained_item_def sample_publish_def default_properties_def split: if_splits)
  obtain res s' where step: "match_filter [hash_byte] 5 0 sample_store = (res, s')" by (metis surj_pair)
  show ?thesis
    using retained_messages_matched [OF run _ step] step unfolding m by (simp add: sample_store_map)
qed

end
