(* ===== verification/WebSocket_Frame.thy ===== *)
theory WebSocket_Frame
  imports Mqtt_Strings
begin

text \<open>
  The WebSocket frame codec, \<^verbatim>\<open>websocket/websocket_frame.cpp\<close>: the frame record, the
  information of a close frame, header and payload parsing, serialization, masking, validation
  and the validator of UTF-8 text.

  A frame is the record \<open>ws_frame\<close>.  Its opcode is the byte it is stored in, because the parser
  casts any four bits to the enumeration before it tests them.  The payload length is a 64-bit
  word, and the comparison of header and payload with the data wraps around as the code's does.
  Parsing writes into a frame that the caller owns: the definitions take it and give it back also
  when they fail.  \<open>WS_FAULT\<close> stands for a read past the data or a vector that cannot be that
  long; the lemmas show when it cannot happen.

  The lemmas: what the validator of text accepts; a frame that validates is read back from its
  bytes with anything after it, and every cut of the bytes is incomplete; parsing terminates
  without a fault, consumes at least two bytes and never more than there are.
\<close>

subsection \<open>Frames\<close>

datatype ws_err =
    WS_INVALID_ARGS | WS_PROTOCOL | WS_INVALID_FRAME | WS_FRAME_TOO_LARGE | WS_INVALID_OPCODE
  | WS_FRAGMENTATION | WS_PAYLOAD_LENGTH | WS_INCOMPLETE_FRAME | WS_RESERVED_BITS | WS_CLOSE_CODE
  | WS_INVALID_UTF8 | WS_FAULT

definition CONTINUATION :: byte where "CONTINUATION = 0x0"
definition TEXT_FRAME :: byte where "TEXT_FRAME = 0x1"
definition BINARY_FRAME :: byte where "BINARY_FRAME = 0x2"
definition CLOSE_FRAME :: byte where "CLOSE_FRAME = 0x8"
definition PING_FRAME :: byte where "PING_FRAME = 0x9"
definition PONG_FRAME :: byte where "PONG_FRAME = 0xA"

lemmas opcode_defs = CONTINUATION_def TEXT_FRAME_def BINARY_FRAME_def CLOSE_FRAME_def PING_FRAME_def PONG_FRAME_def

record ws_frame =
  fin :: bool
  rsv1 :: bool
  rsv2 :: bool
  rsv3 :: bool
  opcode :: byte
  masked :: bool
  payload_len :: u64
  masking_key :: bytes
  ws_payload :: bytes

definition new_frame :: ws_frame where
  "new_frame = \<lparr>fin = False, rsv1 = False, rsv2 = False, rsv3 = False, opcode = TEXT_FRAME, masked = False,
     payload_len = 0, masking_key = [0, 0, 0, 0], ws_payload = []\<rparr>"

definition is_control_frame :: "ws_frame \<Rightarrow> bool" where
  "is_control_frame f \<longleftrightarrow> opcode f \<ge> 0x8 \<and> opcode f \<le> 0xF"

definition is_data_frame :: "ws_frame \<Rightarrow> bool" where
  "is_data_frame f \<longleftrightarrow> opcode f \<ge> 0x0 \<and> opcode f \<le> 0x7"

definition is_valid_opcode :: "byte \<Rightarrow> bool" where
  "is_valid_opcode op \<longleftrightarrow> op \<le> 0x2 \<or> op \<ge> 0x8 \<and> op \<le> 0xA"


subsection \<open>UTF-8 text\<close>

text \<open>The body of the loop: what is left of the data after one character, or rejection.\<close>

fun ws_utf8_step :: "bytes \<Rightarrow> bytes option" where
  "ws_utf8_step [] = None"
| "ws_utf8_step (b # data) =
     (if b \<le> 0x7F then Some data
      else if b AND 0xE0 = 0xC0 then
        (case data of
           b1 # rest \<Rightarrow> if b1 AND 0xC0 \<noteq> 0x80 then None else if b < 0xC2 then None else Some rest
         | _ \<Rightarrow> None)
      else if b AND 0xF0 = 0xE0 then
        (case data of
           b1 # b2 # rest \<Rightarrow>
             if b1 AND 0xC0 \<noteq> 0x80 then None
             else if b2 AND 0xC0 \<noteq> 0x80 then None
             else if b = 0xE0 \<and> b1 < 0xA0 then None
             else if b = 0xED \<and> b1 \<ge> 0xA0 then None
             else Some rest
         | _ \<Rightarrow> None)
      else if b AND 0xF8 = 0xF0 then
        (case data of
           b1 # b2 # b3 # rest \<Rightarrow>
             if b1 AND 0xC0 \<noteq> 0x80 then None
             else if b2 AND 0xC0 \<noteq> 0x80 then None
             else if b3 AND 0xC0 \<noteq> 0x80 then None
             else if b = 0xF0 \<and> b1 < 0x90 then None
             else if b \<ge> 0xF5 then None
             else Some rest
         | _ \<Rightarrow> None)
      else None)"

lemma ws_utf8_step_length: "ws_utf8_step bs = Some rest \<Longrightarrow> length rest < length bs"
  by (cases bs) (auto split: if_splits list.splits)

function ws_is_valid_utf8 :: "bytes \<Rightarrow> bool" where
  "ws_is_valid_utf8 bs =
     (if bs = [] then True
      else case ws_utf8_step bs of None \<Rightarrow> False | Some rest \<Rightarrow> ws_is_valid_utf8 rest)"
  by auto
termination by (relation "measure length") (auto dest: ws_utf8_step_length)

declare ws_is_valid_utf8.simps [simp del] ws_utf8_step.simps(2) [simp del]


subsection \<open>Close information\<close>

definition get_close_info :: "ws_frame \<Rightarrow> ws_err + u16 \<times> bytes" where
  "get_close_info f =
     (if opcode f \<noteq> CLOSE_FRAME then Inl WS_INVALID_ARGS
      else if ws_payload f = [] then Inr (1005, [])
      else if length (ws_payload f) < 2 then Inl WS_INVALID_FRAME
      else
        let code = push_bit 8 (ucast (ws_payload f ! 0)) OR ucast (ws_payload f ! 1) in
        if length (ws_payload f) > 2 then
          let reason = drop 2 (ws_payload f) in
          if \<not> ws_is_valid_utf8 reason then Inl WS_INVALID_UTF8 else Inr (code, reason)
        else Inr (code, []))"

definition set_close_info :: "u16 \<Rightarrow> bytes \<Rightarrow> ws_frame \<Rightarrow> ws_err option \<times> ws_frame" where
  "set_close_info code reason f =
     (if opcode f \<noteq> CLOSE_FRAME then (Some WS_INVALID_ARGS, f)
      else
        let f = f\<lparr>ws_payload := [ucast (drop_bit 8 code), ucast (code AND 0xFF)]\<rparr> in
        if reason \<noteq> [] \<and> \<not> ws_is_valid_utf8 reason then (Some WS_INVALID_UTF8, f)
        else
          let f = (if reason \<noteq> [] then f\<lparr>ws_payload := ws_payload f @ reason\<rparr> else f) in
          (None, f\<lparr>payload_len := of_nat (length (ws_payload f))\<rparr>))"


subsection \<open>Parsing\<close>

definition apply_mask :: "bytes \<Rightarrow> bytes \<Rightarrow> bytes" where
  "apply_mask data key = map (\<lambda>i. data ! i XOR key ! (i mod 4)) [0..<length data]"

text \<open>The length field behind the first two bytes: the length and the offset after it.\<close>

definition parse_length :: "bytes \<Rightarrow> byte \<Rightarrow> (u64 \<times> nat) option" where
  "parse_length data len7 =
     (if len7 < 126 then Some (ucast len7, 2)
      else if len7 = 126 then
        (if length data < 2 + 2 then None
         else Some (push_bit 8 (ucast (data ! 2)) OR ucast (data ! 3), 4))
      else
        (if length data < 2 + 8 then None
         else Some (be_word (take 8 (drop 2 data)), 10)))"

text \<open>The bits of the first byte, and what follows the length: the rules for control frames and the key.\<close>

definition header_bits :: "byte \<Rightarrow> ws_frame \<Rightarrow> ws_frame" where
  "header_bits byte0 f =
     f\<lparr>fin := (byte0 AND 0x80 \<noteq> 0), rsv1 := (byte0 AND 0x40 \<noteq> 0), rsv2 := (byte0 AND 0x20 \<noteq> 0),
       rsv3 := (byte0 AND 0x10 \<noteq> 0), opcode := byte0 AND 0x0F\<rparr>"

definition header_tail :: "bytes \<Rightarrow> ws_frame \<Rightarrow> nat \<Rightarrow> ws_err option \<times> ws_frame \<times> nat" where
  "header_tail data f offset =
     (if is_control_frame f \<and> payload_len f > 125 then (Some WS_PROTOCOL, f, 0)
      else if is_control_frame f \<and> \<not> fin f then (Some WS_PROTOCOL, f, 0)
      else if masked f then
        (if length data < offset + 4 then (Some WS_INCOMPLETE_FRAME, f, 0)
         else (None, f\<lparr>masking_key := take 4 (drop offset data)\<rparr>, offset + 4))
      else (None, f\<lparr>masking_key := [0, 0, 0, 0]\<rparr>, offset))"

definition parse_header :: "bytes \<Rightarrow> ws_frame \<Rightarrow> ws_err option \<times> ws_frame \<times> nat" where
  "parse_header data f =
     (if length data < 2 then (Some WS_INCOMPLETE_FRAME, f, 0)
      else
        let f = header_bits (data ! 0) f in
        if \<not> is_valid_opcode (opcode f) then (Some WS_INVALID_OPCODE, f, 0)
        else
          let f = f\<lparr>masked := (data ! 1 AND 0x80 \<noteq> 0)\<rparr> in
          case parse_length data (data ! 1 AND 0x7F) of
            None \<Rightarrow> (Some WS_INCOMPLETE_FRAME, f, 0)
          | Some (len, offset) \<Rightarrow> header_tail data (f\<lparr>payload_len := len\<rparr>) offset)"

definition validate_frame :: "ws_frame \<Rightarrow> ws_err option" where
  "validate_frame f =
     (if rsv1 f \<or> rsv2 f \<or> rsv3 f then Some WS_RESERVED_BITS
      else if \<not> is_valid_opcode (opcode f) then Some WS_INVALID_OPCODE
      else if is_control_frame f \<and> \<not> fin f then Some WS_PROTOCOL
      else if is_control_frame f \<and> payload_len f > 125 then Some WS_PROTOCOL
      else if opcode f = CLOSE_FRAME \<and> ws_payload f \<noteq> [] \<and> length (ws_payload f) < 2 then Some WS_CLOSE_CODE
      else if opcode f = CLOSE_FRAME \<and> ws_payload f \<noteq> [] \<and> length (ws_payload f) > 2 \<and>
        \<not> ws_is_valid_utf8 (drop 2 (ws_payload f)) then Some WS_INVALID_UTF8
      else if unat (payload_len f) \<noteq> length (ws_payload f) then Some WS_PAYLOAD_LENGTH
      else None)"

definition parse_payload :: "bytes \<Rightarrow> ws_frame \<Rightarrow> nat \<Rightarrow> ws_err option \<times> ws_frame \<times> nat" where
  "parse_payload data f header_len =
     (if length data < unat (of_nat header_len + payload_len f) then (Some WS_INCOMPLETE_FRAME, f, 0)
      else if length data < header_len + unat (payload_len f) then (Some WS_FAULT, f, 0)
      else
        let n = unat (payload_len f);
            raw = take n (drop header_len data);
            f = f\<lparr>ws_payload := (if n > 0 \<and> masked f then apply_mask raw (masking_key f) else raw)\<rparr> in
        if opcode f = TEXT_FRAME \<and> fin f \<and> \<not> ws_is_valid_utf8 (ws_payload f) then (Some WS_INVALID_UTF8, f, 0)
        else (None, f, unat (of_nat header_len + payload_len f)))"

definition parse_frame :: "nat \<Rightarrow> bytes \<Rightarrow> ws_frame \<Rightarrow> ws_err option \<times> ws_frame \<times> nat" where
  "parse_frame max_payload_size data f =
     (if data = [] then (Some WS_INVALID_ARGS, f, 0)
      else case parse_header data f of
        (Some e, f, _) \<Rightarrow> (Some e, f, 0)
      | (None, f, header_len) \<Rightarrow>
          if unat (payload_len f) > max_payload_size then (Some WS_FRAME_TOO_LARGE, f, 0)
          else case parse_payload data f header_len of
            (Some e, f, consumed) \<Rightarrow> (Some e, f, consumed)
          | (None, f, consumed) \<Rightarrow> (validate_frame f, f, consumed))"


subsection \<open>Serializing\<close>

definition frame_byte0 :: "ws_frame \<Rightarrow> byte" where
  "frame_byte0 f = (if fin f then 0x80 else 0) OR (if rsv1 f then 0x40 else 0) OR (if rsv2 f then 0x20 else 0) OR
     (if rsv3 f then 0x10 else 0) OR (opcode f AND 0x0F)"

definition frame_length :: "ws_frame \<Rightarrow> bytes" where
  "frame_length f =
     (let byte1 = (if masked f then 0x80 else 0 :: byte); n = payload_len f in
      if n < 126 then [byte1 OR ucast n]
      else if n \<le> 0xFFFF then [byte1 OR 126, ucast (drop_bit 8 n), ucast (n AND 0xFF)]
      else (byte1 OR 127) # map (\<lambda>i. ucast (drop_bit ((7 - i) * 8) n AND 0xFF)) [0..<8])"

definition serialize_frame :: "ws_frame \<Rightarrow> ws_err + bytes" where
  "serialize_frame f =
     (case validate_frame f of
        Some e \<Rightarrow> Inl e
      | None \<Rightarrow>
          Inr (frame_byte0 f # frame_length f @ (if masked f then take 4 (masking_key f) else []) @
               (if payload_len f > 0 then (if masked f then apply_mask (ws_payload f) (masking_key f) else ws_payload f)
                else [])))"


subsection \<open>What the validator of text accepts\<close>

text \<open>
  The test of the second byte of a sequence that starts with F4 is missing: the validator
  accepts, besides the scalar values, the encodings of 0x110000 to 0x13FFFF.
\<close>

definition ws_scalar :: "nat \<Rightarrow> bool" where
  "ws_scalar c \<longleftrightarrow> c < 0xD800 \<or> 0xE000 \<le> c \<and> c < 0x140000"

lemma cont_ex: "(b :: byte) AND 0xC0 = 0x80 \<longleftrightarrow> (\<exists>q < 64. b = cont_byte q)"
proof
  assume "b AND 0xC0 = 0x80"
  then have "0x80 \<le> unat b" "unat b < 0xC0" by (simp_all add: cont_range)
  then show "\<exists>q < 64. b = cont_byte q" by (intro exI [of _ "unat b - 0x80"]) (simp add: cont_byte_unat)
qed auto

lemma ws_utf8_step_2:
  assumes "0xC0 \<le> unat b" "unat b < 0xE0"
  shows "ws_utf8_step (b # data) = Some rest \<longleftrightarrow>
    (\<exists>q < 64. data = cont_byte q # rest \<and> 0x80 \<le> 64 * (unat b - 0xC0) + q \<and> ws_scalar (64 * (unat b - 0xC0) + q))"
proof -
  define p where "p = unat b - 0xC0"
  have b: "unat b = 0xC0 + p" "p < 32" using assms by (simp_all add: p_def)
  have "ws_utf8_step (b # data) = Some rest \<longleftrightarrow> (\<exists>q < 64. data = cont_byte q # rest \<and> \<not> b < 0xC2)"
    using assms by (cases data) (auto simp: ws_utf8_step.simps(2) lead2_range word_le_nat_alt cont_ex)
  moreover have "\<not> b < 0xC2 \<longleftrightarrow> 0x80 \<le> 64 * p + q \<and> ws_scalar (64 * p + q)" if "q < 64" for q
    using b that unfolding word_less_nat_alt ws_scalar_def by simp linarith
  ultimately show ?thesis unfolding p_def [symmetric] by blast
qed

lemma ws_utf8_step_3:
  assumes "0xE0 \<le> unat b" "unat b < 0xF0"
  shows "ws_utf8_step (b # data) = Some rest \<longleftrightarrow>
    (\<exists>q < 64. \<exists>r < 64. data = cont_byte q # cont_byte r # rest \<and>
       0x800 \<le> 64 * (64 * (unat b - 0xE0) + q) + r \<and> ws_scalar (64 * (64 * (unat b - 0xE0) + q) + r))"
proof -
  define p where "p = unat b - 0xE0"
  have b: "unat b = 0xE0 + p" "p < 16" using assms by (simp_all add: p_def)
  define ok where "ok b1 \<longleftrightarrow> \<not> (b = 0xE0 \<and> b1 < 0xA0) \<and> \<not> (b = 0xED \<and> b1 \<ge> 0xA0)" for b1 :: byte
  have "ws_utf8_step (b # data) = Some rest \<longleftrightarrow> (\<exists>b1 b2. data = b1 # b2 # rest \<and> b1 AND 0xC0 = 0x80 \<and> b2 AND 0xC0 = 0x80 \<and> ok b1)"
    using assms by (auto simp: ws_utf8_step.simps(2) lead2_range lead3_range word_le_nat_alt [of _ "0x7F"] ok_def split: list.split)
  then have "ws_utf8_step (b # data) = Some rest \<longleftrightarrow> (\<exists>q < 64. \<exists>r < 64. data = cont_byte q # cont_byte r # rest \<and> ok (cont_byte q))"
    unfolding cont_ex by blast
  moreover have "ok (cont_byte q) \<longleftrightarrow> 0x800 \<le> 64 * (64 * p + q) + r \<and> ws_scalar (64 * (64 * p + q) + r)" if "q < 64" "r < 64" for q r
  proof -
    have ok: "ok (cont_byte q) \<longleftrightarrow> \<not> (p = 0 \<and> q < 0x20) \<and> \<not> (p = 13 \<and> 0x20 \<le> q)"
      using b that by (simp add: ok_def word_less_nat_alt word_le_nat_alt word_unat_eq_iff [where ?'a = 8])
    consider "p = 0" | "0 < p" "p < 13" | "p = 13" | "13 < p" by linarith
    then show ?thesis unfolding ok ws_scalar_def
      by cases (use b that in \<open>simp; linarith\<close>)+
  qed
  ultimately show ?thesis unfolding p_def [symmetric] by blast
qed

lemma ws_utf8_step_4:
  assumes "0xF0 \<le> unat b" "unat b < 0xF8"
  shows "ws_utf8_step (b # data) = Some rest \<longleftrightarrow>
    (\<exists>q < 64. \<exists>r < 64. \<exists>s < 64. data = cont_byte q # cont_byte r # cont_byte s # rest \<and>
       0x10000 \<le> 64 * (64 * (64 * (unat b - 0xF0) + q) + r) + s \<and>
       ws_scalar (64 * (64 * (64 * (unat b - 0xF0) + q) + r) + s))"
proof -
  define p where "p = unat b - 0xF0"
  have b: "unat b = 0xF0 + p" "p < 8" using assms by (simp_all add: p_def)
  define ok where "ok q \<longleftrightarrow> \<not> (b = 0xF0 \<and> cont_byte q < 0x90) \<and> \<not> b \<ge> 0xF5" for q
  have "ws_utf8_step (b # data) = Some rest \<longleftrightarrow>
      (\<exists>q < 64. \<exists>r < 64. \<exists>s < 64. data = cont_byte q # cont_byte r # cont_byte s # rest \<and> ok q)"
    using assms by (auto simp: ws_utf8_step.simps(2) lead2_range lead3_range lead4_range word_le_nat_alt cont_ex ok_def split: list.split)
  moreover have "ok q \<longleftrightarrow> 0x10000 \<le> 64 * (64 * (64 * p + q) + r) + s \<and> ws_scalar (64 * (64 * (64 * p + q) + r) + s)"
    if "q < 64" "r < 64" "s < 64" for q r s
    using b that unfolding ok_def word_less_nat_alt word_le_nat_alt word_unat_eq_iff [where ?'a = 8] ws_scalar_def by simp linarith
  ultimately show ?thesis unfolding p_def [symmetric] by blast
qed

interpretation ws_utf8: utf8_steps ws_scalar ws_utf8_step ws_is_valid_utf8
proof unfold_locales
  show "ws_scalar c" if "c < 0x80" for c using that by (simp add: ws_scalar_def)
  show "c < 0x200000" if "ws_scalar c" for c using that unfolding ws_scalar_def by linarith
  show "ws_utf8_step (b # data) = Some data" if "unat b < 0x80" for b data
    using that by (simp add: ws_utf8_step.simps(2) word_le_nat_alt)
  show "ws_utf8_step (b # data) = None" if "0x80 \<le> unat b" "unat b < 0xC0 \<or> 0xF8 \<le> unat b" for b data
    using that by (auto simp: ws_utf8_step.simps(2) word_le_nat_alt lead2_range lead3_range lead4_range)
  show "ws_is_valid_utf8 bs \<longleftrightarrow> (\<exists>rest. ws_utf8_step bs = Some rest \<and> ws_is_valid_utf8 rest)" if "bs \<noteq> []" for bs
    using that by (subst ws_is_valid_utf8.simps) (simp split: option.splits)
qed (simp_all add: ws_utf8_step_2 ws_utf8_step_3 ws_utf8_step_4 ws_is_valid_utf8.simps)


subsection \<open>Masking and the header bytes\<close>

lemma length_apply_mask [simp]: "length (apply_mask data key) = length data"
  by (simp add: apply_mask_def)

lemma apply_mask_twice [simp]: "apply_mask (apply_mask data key) key = data"
  by (rule nth_equalityI) (simp_all add: apply_mask_def xor.assoc)

lemma apply_mask_Nil [simp]: "apply_mask [] key = []"
  by (simp add: apply_mask_def)

lemma apply_mask_append_take: "take n (apply_mask data key) = apply_mask (take n data) key"
  by (rule nth_equalityI) (auto simp: apply_mask_def)

lemma valid_opcode_cases: "is_valid_opcode op \<longleftrightarrow> op = 0 \<or> op = 1 \<or> op = 2 \<or> op = 8 \<or> op = 9 \<or> op = 10"
  unfolding is_valid_opcode_def word_le_nat_alt word_unat_eq_iff by simp linarith

lemma byte0_bits:
  assumes "is_valid_opcode (opcode f)" "\<not> rsv1 f" "\<not> rsv2 f" "\<not> rsv3 f"
  shows "frame_byte0 f AND 0x80 \<noteq> 0 \<longleftrightarrow> fin f" "frame_byte0 f AND 0x40 = 0" "frame_byte0 f AND 0x20 = 0"
    "frame_byte0 f AND 0x10 = 0" "frame_byte0 f AND 0x0F = opcode f"
  using assms unfolding valid_opcode_cases
  by (cases "fin f"; elim disjE; simp add: frame_byte0_def)+

lemma byte1_bits:
  assumes "n < 128"
  shows "((if m then 0x80 else 0) OR n :: byte) AND 0x80 \<noteq> 0 \<longleftrightarrow> m" "((if m then 0x80 else 0) OR n :: byte) AND 0x7F = n"
proof -
  have hi: "(0x80 :: byte) = NOT (mask 7)" by code_simp
  have "unat n < 2 ^ 7" using assms by (simp add: word_less_nat_alt)
  then have n: "n AND mask 7 = n" by (simp add: word_unat_eq_iff unat_and_mask)
  then have "n AND NOT (mask 7) = 0" by (metis and.assoc bit.conj_cancel_right bit.conj_zero_right)
  then show "((if m then 0x80 else 0) OR n :: byte) AND 0x80 \<noteq> 0 \<longleftrightarrow> m"
    unfolding bit.conj_disj_distrib2 hi by (auto simp: hi [symmetric])
  have "(if m then 0x80 else 0) AND mask 7 = (0 :: byte)" unfolding hi by simp
  then show "((if m then 0x80 else 0) OR n :: byte) AND 0x7F = n"
    unfolding mask_7F bit.conj_disj_distrib2 by (simp add: n)
qed


subsection \<open>Parsing a prefix and parsing with more behind\<close>

lemma parse_length_append:
  "parse_length data n = Some r \<Longrightarrow> 2 \<le> length data \<Longrightarrow> parse_length (data @ rest) n = Some r"
  by (auto simp: parse_length_def nth_append split: if_splits)

lemma parse_length_bounds:
  "parse_length data n = Some (len, offset) \<Longrightarrow> 2 \<le> length data \<Longrightarrow> 2 \<le> offset \<and> offset \<le> 10 \<and> offset \<le> length data"
  by (auto simp: parse_length_def split: if_splits)

lemma parse_length_short:
  "parse_length data n = Some (len, offset) \<Longrightarrow> 2 \<le> k \<Longrightarrow> k < offset \<Longrightarrow> parse_length (take k data) n = None"
  by (auto simp: parse_length_def split: if_splits)

lemma parse_length_take:
  "parse_length data n = Some (len, offset) \<Longrightarrow> 2 \<le> length data \<Longrightarrow> offset \<le> k \<Longrightarrow> parse_length (take k data) n = Some (len, offset)"
  by (auto simp: parse_length_def min_def take_drop split: if_splits)

lemma header_tail_bounds: "header_tail data g offset = (None, f, h) \<Longrightarrow> offset \<le> length data \<Longrightarrow> offset \<le> h \<and> h \<le> offset + 4 \<and> h \<le> length data"
  by (auto simp: header_tail_def split: if_splits)

lemma header_tail_append:
  "header_tail data g offset = (r, f, h) \<Longrightarrow> r \<noteq> Some WS_INCOMPLETE_FRAME \<Longrightarrow> header_tail (data @ rest) g offset = (r, f, h)"
  by (auto simp: header_tail_def split: if_splits)

lemma header_tail_short:
  "header_tail data g offset = (None, f, h) \<Longrightarrow> offset \<le> k \<Longrightarrow> k < h \<Longrightarrow> header_tail (take k data) g offset = (Some WS_INCOMPLETE_FRAME, g, 0)"
  by (auto simp: header_tail_def split: if_splits)

lemma parse_header_stages:
  assumes "2 \<le> length data" "is_valid_opcode (opcode (header_bits (data ! 0) g))"
  shows "parse_header data g = (let f = (header_bits (data ! 0) g)\<lparr>masked := (data ! 1 AND 0x80 \<noteq> 0)\<rparr> in
    case parse_length data (data ! 1 AND 0x7F) of
      None \<Rightarrow> (Some WS_INCOMPLETE_FRAME, f, 0)
    | Some (len, offset) \<Rightarrow> header_tail data (f\<lparr>payload_len := len\<rparr>) offset)"
  using assms by (simp add: parse_header_def Let_def)

lemma parse_header_done:
  assumes "parse_header data g = (None, f, h)"
  obtains len offset where "2 \<le> length data" "is_valid_opcode (opcode (header_bits (data ! 0) g))"
    "parse_length data (data ! 1 AND 0x7F) = Some (len, offset)"
    "header_tail data ((header_bits (data ! 0) g)\<lparr>masked := (data ! 1 AND 0x80 \<noteq> 0), payload_len := len\<rparr>) offset = (None, f, h)"
  using assms by (auto simp: parse_header_def Let_def split: if_splits option.splits)

lemma parse_header_bounds:
  assumes "parse_header data g = (None, f, h)"
  shows "2 \<le> h \<and> h \<le> 14 \<and> h \<le> length data"
proof -
  obtain len offset where st: "2 \<le> length data" "parse_length data (data ! 1 AND 0x7F) = Some (len, offset)"
    "header_tail data ((header_bits (data ! 0) g)\<lparr>masked := (data ! 1 AND 0x80 \<noteq> 0), payload_len := len\<rparr>) offset = (None, f, h)"
    by (rule parse_header_done [OF assms])
  show ?thesis using parse_length_bounds [OF st(2,1)] header_tail_bounds [OF st(3)] by simp
qed

lemma parse_header_append:
  assumes "parse_header data g = (r, f, h)" "r \<noteq> Some WS_INCOMPLETE_FRAME"
  shows "parse_header (data @ rest) g = (r, f, h)"
proof -
  have two: "2 \<le> length data" using assms by (auto simp: parse_header_def split: if_splits)
  have "(data @ rest) ! 0 = data ! 0" "(data @ rest) ! 1 = data ! 1" using two by (cases data; simp; fail | simp add: nth_append)+
  note n = this
  show ?thesis
  proof (cases "is_valid_opcode (opcode (header_bits (data ! 0) g))")
    case False
    then show ?thesis using assms two unfolding parse_header_def n Let_def by simp
  next
    case True
    have two': "2 \<le> length (data @ rest)" using two by simp
    have true': "is_valid_opcode (opcode (header_bits ((data @ rest) ! 0) g))" using True n by simp
    note st = parse_header_stages [OF two True] and st' = parse_header_stages [OF two' true']
    show ?thesis
    proof (cases "parse_length data (data ! 1 AND 0x7F)")
      case None
      then show ?thesis using assms st by (simp add: Let_def)
    next
      case (Some p)
      obtain len offset where p: "p = (len, offset)" by (cases p)
      have "parse_length (data @ rest) (data ! 1 AND 0x7F) = Some (len, offset)"
        using parse_length_append [OF Some] two p by simp
      moreover have "header_tail data ((header_bits (data ! 0) g)\<lparr>masked := (data ! 1 AND 0x80 \<noteq> 0), payload_len := len\<rparr>) offset = (r, f, h)"
        using assms(1) Some unfolding st p Let_def by simp
      ultimately show ?thesis using header_tail_append [OF _ assms(2)] unfolding st' n Let_def by simp
    qed
  qed
qed

lemma header_tail_take:
  "header_tail data g offset = (None, f, h) \<Longrightarrow> h \<le> k \<Longrightarrow> header_tail (take k data) g offset = (None, f, h)"
  by (auto simp: header_tail_def take_drop min_def split: if_splits)

lemma parse_header_take:
  assumes "parse_header data g = (None, f, h)" "h \<le> k"
  shows "parse_header (take k data) g = (None, f, h)"
proof -
  obtain len offset where st: "2 \<le> length data" "is_valid_opcode (opcode (header_bits (data ! 0) g))"
    "parse_length data (data ! 1 AND 0x7F) = Some (len, offset)"
    "header_tail data ((header_bits (data ! 0) g)\<lparr>masked := (data ! 1 AND 0x80 \<noteq> 0), payload_len := len\<rparr>) offset = (None, f, h)"
    by (rule parse_header_done [OF assms(1)])
  have b: "offset \<le> length data" "offset \<le> h" "2 \<le> h" "h \<le> length data"
    using parse_length_bounds [OF st(3,1)] header_tail_bounds [OF st(4)] parse_header_bounds [OF assms(1)] by simp_all
  have n: "take k data ! 0 = data ! 0" "take k data ! 1 = data ! 1" using b(3) assms(2) by simp_all
  have "2 \<le> length (take k data)" "is_valid_opcode (opcode (header_bits (take k data ! 0) g))"
    using b assms(2) st(2) n by simp_all
  note st' = parse_header_stages [OF this]
  have "parse_length (take k data) (data ! 1 AND 0x7F) = Some (len, offset)"
    using parse_length_take [OF st(3,1)] b assms(2) by simp
  then show ?thesis using header_tail_take [OF st(4) assms(2)] unfolding st' n Let_def by simp
qed

lemma parse_header_short:
  assumes "parse_header data g = (None, f, h)" "k < h"
  shows "\<exists>g'. parse_header (take k data) g = (Some WS_INCOMPLETE_FRAME, g', 0)"
proof (cases "k < 2")
  case True
  then have "length (take k data) < 2" by simp
  then show ?thesis unfolding parse_header_def by simp
next
  case False
  obtain len offset where st: "2 \<le> length data" "is_valid_opcode (opcode (header_bits (data ! 0) g))"
    "parse_length data (data ! 1 AND 0x7F) = Some (len, offset)"
    "header_tail data ((header_bits (data ! 0) g)\<lparr>masked := (data ! 1 AND 0x80 \<noteq> 0), payload_len := len\<rparr>) offset = (None, f, h)"
    by (rule parse_header_done [OF assms(1)])
  have n: "take k data ! 0 = data ! 0" "take k data ! 1 = data ! 1" using False by simp_all
  have "2 \<le> length (take k data)" "is_valid_opcode (opcode (header_bits (take k data ! 0) g))"
    using False assms(2) parse_header_bounds [OF assms(1)] st(2) n by simp_all
  note st' = parse_header_stages [OF this]
  show ?thesis
  proof (cases "k < offset")
    case True
    then have "parse_length (take k data) (data ! 1 AND 0x7F) = None" using parse_length_short [OF st(3) _ True] False by simp
    then show ?thesis unfolding st' n Let_def by simp
  next
    case no: False
    then have "parse_length (take k data) (data ! 1 AND 0x7F) = Some (len, offset)"
      using parse_length_take [OF st(3,1)] by simp
    then show ?thesis using header_tail_short [OF st(4) _ assms(2)] no unfolding st' n Let_def by simp
  qed
qed


text \<open>
  Below \<open>2 ^ 64 - 14\<close> the sum of header and payload does not wrap, and the frame is complete
  exactly when the data reach its end.
\<close>

definition no_wrap :: "nat \<Rightarrow> bool" where
  "no_wrap max_payload_size \<longleftrightarrow> max_payload_size + 14 < 2 ^ 64"

lemma frame_sum:
  assumes "no_wrap m" "unat (n :: u64) \<le> m" "h \<le> 14"
  shows "unat (of_nat h + n) = h + unat n"
proof -
  have "unat (of_nat h :: u64) = h" using assms(3) by (simp add: unat_of_nat take_bit_nat_eq_self)
  moreover have "h + unat n < 2 ^ 64" using assms by (simp add: no_wrap_def)
  ultimately show ?thesis by (simp add: unat_word_ariths)
qed

definition read_payload :: "bytes \<Rightarrow> ws_frame \<Rightarrow> nat \<Rightarrow> ws_frame" where
  "read_payload data f h =
     (let raw = take (unat (payload_len f)) (drop h data) in
      f\<lparr>ws_payload := (if masked f then apply_mask raw (masking_key f) else raw)\<rparr>)"

lemma parse_payload_eq:
  assumes "no_wrap m" "unat (payload_len f) \<le> m" "h \<le> 14"
  shows "parse_payload data f h =
    (if length data < h + unat (payload_len f) then (Some WS_INCOMPLETE_FRAME, f, 0)
     else let f = read_payload data f h in
       if opcode f = TEXT_FRAME \<and> fin f \<and> \<not> ws_is_valid_utf8 (ws_payload f) then (Some WS_INVALID_UTF8, f, 0)
       else (None, f, h + unat (payload_len f)))"
  using frame_sum [OF assms] unfolding parse_payload_def by (auto simp: Let_def read_payload_def)

lemma read_payload_fields [simp]:
  "payload_len (read_payload data f h) = payload_len f" "opcode (read_payload data f h) = opcode f" "fin (read_payload data f h) = fin f"
  "rsv1 (read_payload data f h) = rsv1 f" "rsv2 (read_payload data f h) = rsv2 f" "rsv3 (read_payload data f h) = rsv3 f"
  "masked (read_payload data f h) = masked f" "masking_key (read_payload data f h) = masking_key f"
  "length (ws_payload (read_payload data f h)) = min (length data - h) (unat (payload_len f))"
  by (simp_all add: read_payload_def Let_def)

lemma read_payload_append:
  "h + unat (payload_len f) \<le> length data \<Longrightarrow> read_payload (data @ rest) f h = read_payload data f h"
  by (simp add: read_payload_def)

lemma parse_frame_eq:
  assumes "no_wrap m" "parse_header data g = (None, f, h)"
  shows "parse_frame m data g =
    (if m < unat (payload_len f) then (Some WS_FRAME_TOO_LARGE, f, 0)
     else if length data < h + unat (payload_len f) then (Some WS_INCOMPLETE_FRAME, f, 0)
     else let f = read_payload data f h in
       if opcode f = TEXT_FRAME \<and> fin f \<and> \<not> ws_is_valid_utf8 (ws_payload f) then (Some WS_INVALID_UTF8, f, 0)
       else (validate_frame f, f, h + unat (payload_len f)))"
proof -
  note b = parse_header_bounds [OF assms(2)]
  then have "data \<noteq> []" by auto
  moreover have "parse_payload data f h = (if length data < h + unat (payload_len f) then (Some WS_INCOMPLETE_FRAME, f, 0)
     else let f = read_payload data f h in
       if opcode f = TEXT_FRAME \<and> fin f \<and> \<not> ws_is_valid_utf8 (ws_payload f) then (Some WS_INVALID_UTF8, f, 0)
       else (None, f, h + unat (payload_len f)))" if "\<not> m < unat (payload_len f)"
    using parse_payload_eq [OF assms(1)] that b by simp
  ultimately show ?thesis using assms(2) by (simp add: parse_frame_def Let_def)
qed

lemma parse_frame_header_error:
  "data \<noteq> [] \<Longrightarrow> parse_header data g = (Some e, f, h) \<Longrightarrow> parse_frame m data g = (Some e, f, 0)"
  by (simp add: parse_frame_def)

lemma parse_frame_append:
  assumes "no_wrap m" "parse_frame m data g = (r, f, c)" "r \<noteq> Some WS_INCOMPLETE_FRAME" "data \<noteq> []"
  shows "parse_frame m (data @ rest) g = (r, f, c)"
proof -
  obtain e f1 h where h: "parse_header data g = (e, f1, h)" by (metis prod_cases3)
  show ?thesis
  proof (cases e)
    case None
    note h = h [unfolded None]
    have h': "parse_header (data @ rest) g = (None, f1, h)" by (rule parse_header_append [OF h]) simp
    show ?thesis using assms(2,3) unfolding parse_frame_eq [OF assms(1) h] parse_frame_eq [OF assms(1) h']
      by (auto simp: read_payload_append Let_def split: if_splits)
  next
    case (Some x)
    note h = h [unfolded Some]
    have "x \<noteq> WS_INCOMPLETE_FRAME" using assms(2,3) parse_frame_header_error [OF assms(4) h, of m] by auto
    then have "parse_header (data @ rest) g = (Some x, f1, h)" using parse_header_append [OF h] by simp
    moreover have "data @ rest \<noteq> []" using assms(4) by simp
    ultimately have "parse_frame m (data @ rest) g = (Some x, f1, 0)" by (metis parse_frame_header_error)
    then show ?thesis using assms(2) parse_frame_header_error [OF assms(4) h, of m] by simp
  qed
qed

lemma parse_frame_done:
  assumes "no_wrap m" "parse_frame m data g = (None, f, c)"
  obtains f1 h where "parse_header data g = (None, f1, h)" "unat (payload_len f1) \<le> m" "f = read_payload data f1 h"
    "c = h + unat (payload_len f)" "c \<le> length data" "2 \<le> h" "h \<le> 14" "validate_frame f = None"
    "opcode f = TEXT_FRAME \<and> fin f \<longrightarrow> ws_is_valid_utf8 (ws_payload f)"
proof -
  have "data \<noteq> []" using assms(2) by (auto simp: parse_frame_def)
  obtain e f1 h where h: "parse_header data g = (e, f1, h)" by (metis prod_cases3)
  have e: "e = None" using assms(2) parse_frame_header_error [OF \<open>data \<noteq> []\<close>] h by (cases e) auto
  note h = h [unfolded e]
  show ?thesis
    using assms(2) parse_header_bounds [OF h] unfolding parse_frame_eq [OF assms(1) h]
    by (intro that [OF h]) (auto simp: Let_def split: if_splits)
qed

lemma parse_frame_short:
  assumes "no_wrap m" "parse_frame m data g = (None, f, c)" "0 < k" "k < c"
  shows "\<exists>g'. parse_frame m (take k data) g = (Some WS_INCOMPLETE_FRAME, g', 0)"
proof -
  obtain f1 h where d: "parse_header data g = (None, f1, h)" "unat (payload_len f1) \<le> m" "f = read_payload data f1 h"
    "c = h + unat (payload_len f)" "c \<le> length data" "2 \<le> h"
    by (rule parse_frame_done [OF assms(1,2)])
  have ne: "take k data \<noteq> []" using assms(3,4) d(5) by auto
  show ?thesis
  proof (cases "k < h")
    case True
    then show ?thesis using parse_header_short [OF d(1) True] parse_frame_header_error [OF ne] by blast
  next
    case False
    have "parse_header (take k data) g = (None, f1, h)" using parse_header_take [OF d(1)] False by simp
    from parse_frame_eq [OF assms(1) this] show ?thesis using assms(4) d by simp
  qed
qed


subsection \<open>What serialization writes is read back\<close>

lemma frame_length_parses:
  assumes "b # frame_length f @ rest = data"
  shows "parse_length data (data ! 1 AND 0x7F) = Some (payload_len f, Suc (length (frame_length f)))"
    and "data ! 1 AND 0x80 \<noteq> 0 \<longleftrightarrow> masked f" and "2 \<le> length data"
proof -
  define n where "n = payload_len f"
  define m :: byte where "m = (if masked f then 0x80 else 0)"
  consider "n < 126" | "\<not> n < 126" "n \<le> 0xFFFF" | "\<not> n < 126" "\<not> n \<le> 0xFFFF" by blast
  then have "parse_length data (data ! 1 AND 0x7F) = Some (payload_len f, Suc (length (frame_length f))) \<and>
    (data ! 1 AND 0x80 \<noteq> 0 \<longleftrightarrow> masked f) \<and> 2 \<le> length data"
  proof cases
    case 1
    have u: "unat (ucast n :: byte) = unat n"
      using 1 by (simp add: unsigned_ucast_eq take_bit_nat_eq_self word_less_nat_alt)
    then have "(ucast n :: byte) < 128" "(ucast n :: byte) < 126" using 1 by (simp_all add: word_less_nat_alt)
    moreover have "ucast (ucast n :: byte) = n" using u by (simp add: word_unat_eq_iff unsigned_ucast_eq take_bit_nat_eq_self unsigned_take_bit_eq)
    ultimately show ?thesis
      using 1 byte1_bits [of "ucast n" "masked f"] unfolding assms [symmetric]
      by (simp add: frame_length_def parse_length_def Let_def n_def m_def)
  next
    case 2
    have "take_bit 16 n = n" using 2 by (simp add: word_unat_eq_iff word_le_nat_alt unsigned_take_bit_eq take_bit_nat_eq_self)
    then have "k < 16" if "bit n k" for k using that by (metis bit_take_bit_iff)
    then have small: "k - 8 < 8" if "bit n k" for k using that by fastforce
    have "push_bit 8 (ucast (ucast (drop_bit 8 n) :: byte)) OR ucast (ucast (n AND 0xFF) :: byte) = n"
      unfolding mask_FF by (intro bit_word_eqI) (auto simp: bit_simps not_less intro: small)
    with 2 show ?thesis
      using byte1_bits [of 126 "masked f"] unfolding assms [symmetric]
      by (simp add: frame_length_def parse_length_def Let_def n_def m_def)
  next
    case 3
    have "map (\<lambda>i. ucast (drop_bit ((7 - i) * 8) n AND 0xFF)) [0..<8] = be_bytes 8 n"
      by (simp add: be_bytes_def byte_at_def mult.commute)
    then have "be_word (map (\<lambda>i. ucast (drop_bit ((7 - i) * 8) n AND 0xFF)) [0..<8]) = n" by simp
    with 3 show ?thesis
      using byte1_bits [of 127 "masked f"] unfolding assms [symmetric]
      by (simp add: frame_length_def parse_length_def Let_def n_def m_def)
  qed
  then show "parse_length data (data ! 1 AND 0x7F) = Some (payload_len f, Suc (length (frame_length f)))"
    "data ! 1 AND 0x80 \<noteq> 0 \<longleftrightarrow> masked f" "2 \<le> length data" by blast+
qed


text \<open>What a reader gets of a frame: the key only if the frame is masked.\<close>

definition wire_frame :: "ws_frame \<Rightarrow> ws_frame" where
  "wire_frame f = (if masked f then f else f\<lparr>masking_key := [0, 0, 0, 0]\<rparr>)"

lemma serialized_header:
  assumes "validate_frame f = None" "length (masking_key f) = 4"
  shows "parse_header (frame_byte0 f # frame_length f @ (if masked f then masking_key f else []) @ rest) g =
    (None, (wire_frame f)\<lparr>ws_payload := ws_payload g\<rparr>, Suc (length (frame_length f)) + (if masked f then 4 else 0))"
    (is "parse_header ?data g = _")
proof -
  have v: "is_valid_opcode (opcode f)" "\<not> rsv1 f" "\<not> rsv2 f" "\<not> rsv3 f"
    "\<not> (is_control_frame f \<and> \<not> fin f)" "\<not> (is_control_frame f \<and> payload_len f > 125)"
    using assms(1) by (auto simp: validate_frame_def split: if_splits)
  note len = frame_length_parses [of "frame_byte0 f" f, OF refl]
  have hb: "header_bits (frame_byte0 f) g = g\<lparr>fin := fin f, rsv1 := False, rsv2 := False, rsv3 := False, opcode := opcode f\<rparr>"
    using byte0_bits [OF v(1-4)] by (simp add: header_bits_def)
  have zero: "?data ! 0 = frame_byte0 f" by simp
  have "2 \<le> length ?data" "is_valid_opcode (opcode (header_bits (?data ! 0) g))"
    using len(3) v(1) hb by (simp_all only: zero) simp
  note st = parse_header_stages [OF this]
  let ?f = "g\<lparr>fin := fin f, rsv1 := False, rsv2 := False, rsv3 := False, opcode := opcode f, masked := masked f, payload_len := payload_len f\<rparr>"
  have c: "is_control_frame ?f \<longleftrightarrow> is_control_frame f" by (simp add: is_control_frame_def)
  have "header_tail ?data ?f (Suc (length (frame_length f))) =
      (None, (wire_frame f)\<lparr>ws_payload := ws_payload g\<rparr>, Suc (length (frame_length f)) + (if masked f then 4 else 0))"
    using v c assms(2) by (auto simp: header_tail_def wire_frame_def)
  then show ?thesis unfolding st len zero hb Let_def using len(2) by simp
qed

lemma serialize_frame_parses:
  assumes "validate_frame f = None" "length (masking_key f) = 4" "length (ws_payload f) \<le> m" "no_wrap m"
    "opcode f = TEXT_FRAME \<and> fin f \<longrightarrow> ws_is_valid_utf8 (ws_payload f)"
  obtains out where "serialize_frame f = Inr out" "2 \<le> length out" "parse_frame m out g = (None, wire_frame f, length out)"
proof -
  define body where "body = (if masked f then apply_mask (ws_payload f) (masking_key f) else ws_payload f)"
  define out where "out = frame_byte0 f # frame_length f @ (if masked f then masking_key f else []) @ body"
  have n: "unat (payload_len f) = length (ws_payload f)" using assms(1) by (auto simp: validate_frame_def split: if_splits)
  have "serialize_frame f = Inr out"
    using assms(1,2) n by (auto simp: serialize_frame_def out_def body_def word_neq_0_conv [symmetric] word_unat_eq_iff simp del: word_neq_0_conv)
  moreover note h = serialized_header [OF assms(1,2), of body g, folded out_def]
  have "2 \<le> length out" using frame_length_parses(3) [of "frame_byte0 f" f "[]", OF refl] by (simp add: out_def)
  moreover have "parse_frame m out g = (None, wire_frame f, length out)"
  proof -
    let ?h = "Suc (length (frame_length f)) + (if masked f then 4 else 0)"
    let ?f = "(wire_frame f)\<lparr>ws_payload := ws_payload g\<rparr>"
    have f: "payload_len ?f = payload_len f" by (simp add: wire_frame_def)
    have len: "length out = ?h + unat (payload_len f)" using n assms(2) by (simp add: out_def body_def)
    have "drop ?h out = body" using assms(2) by (simp add: out_def)
    then have r: "read_payload out ?f ?h = wire_frame f"
      using n by (simp add: read_payload_def wire_frame_def body_def)
    have "validate_frame (wire_frame f) = validate_frame f" by (simp add: validate_frame_def wire_frame_def is_control_frame_def)
    moreover have "opcode (wire_frame f) = opcode f" "fin (wire_frame f) = fin f" "ws_payload (wire_frame f) = ws_payload f"
      "payload_len (wire_frame f) = payload_len f" by (simp_all add: wire_frame_def)
    ultimately show ?thesis unfolding parse_frame_eq [OF assms(4) h] r f
      using assms len n by (auto simp: Let_def)
  qed
  ultimately show ?thesis by (rule that)
qed


text \<open>
  C16. A frame that validates, with a payload within the limit and text that is valid, is written
  to bytes that parse back to it, whatever follows them; and every proper prefix of the bytes is
  reported as incomplete, so a reader that waits for more bytes finds the same frame however the
  bytes arrive.  A frame that does not validate is refused with the code of the check it fails.
\<close>

theorem ws_frame_roundtrip:
  assumes "length (masking_key f) = 4" "length (ws_payload f) \<le> m" "no_wrap m"
    "opcode f = TEXT_FRAME \<and> fin f \<longrightarrow> ws_is_valid_utf8 (ws_payload f)"
  shows "case validate_frame f of
      Some e \<Rightarrow> serialize_frame f = Inl e
    | None \<Rightarrow> \<exists>out. serialize_frame f = Inr out \<and>
        parse_frame m (out @ rest) g = (None, wire_frame f, length out) \<and>
        (\<forall>k. 0 < k \<and> k < length out \<longrightarrow> (\<exists>g'. parse_frame m (take k out) g = (Some WS_INCOMPLETE_FRAME, g', 0)))"
proof (cases "validate_frame f")
  case (Some e)
  then show ?thesis by (simp add: serialize_frame_def)
next
  case None
  obtain out where out: "serialize_frame f = Inr out" "2 \<le> length out" "parse_frame m out g = (None, wire_frame f, length out)"
    by (rule serialize_frame_parses [OF None assms])
  have "out \<noteq> []" using out(2) by auto
  then have "parse_frame m (out @ rest) g = (None, wire_frame f, length out)"
    using parse_frame_append [OF assms(3) out(3)] by simp
  moreover have "\<exists>g'. parse_frame m (take k out) g = (Some WS_INCOMPLETE_FRAME, g', 0)" if "0 < k" "k < length out" for k
    by (rule parse_frame_short [OF assms(3) out(3) that])
  ultimately show ?thesis unfolding None option.case using out(1) by blast
qed

definition sample_frame :: ws_frame where
  "sample_frame = new_frame\<lparr>fin := True, opcode := BINARY_FRAME, masked := True, payload_len := 2, masking_key := [1, 2, 3, 4], ws_payload := [7, 9]\<rparr>"

theorem ws_frame_roundtrip_witness:
  "\<exists>out. serialize_frame sample_frame = Inr out \<and> parse_frame 100 (out @ [0xFF]) new_frame = (None, sample_frame, length out)"
proof -
  have "validate_frame sample_frame = None"
    by (simp add: validate_frame_def sample_frame_def new_frame_def is_control_frame_def is_valid_opcode_def opcode_defs)
  moreover have "wire_frame sample_frame = sample_frame" by (simp add: wire_frame_def sample_frame_def)
  moreover have "length (masking_key sample_frame) = 4" "length (ws_payload sample_frame) \<le> 100" "no_wrap 100"
    "opcode sample_frame \<noteq> TEXT_FRAME"
    by (simp_all add: sample_frame_def no_wrap_def opcode_defs)
  ultimately show ?thesis using ws_frame_roundtrip [of sample_frame 100 "[0xFF]" new_frame] by auto
qed

definition ws_frame_ok :: "nat \<Rightarrow> ws_frame \<Rightarrow> bool" where
  "ws_frame_ok m f \<longleftrightarrow> opcode f \<in> {CONTINUATION, TEXT_FRAME, BINARY_FRAME, CLOSE_FRAME, PING_FRAME, PONG_FRAME} \<and>
     \<not> rsv1 f \<and> \<not> rsv2 f \<and> \<not> rsv3 f \<and> length (masking_key f) = 4 \<and>
     unat (payload_len f) = length (ws_payload f) \<and> length (ws_payload f) \<le> m \<and>
     (is_control_frame f \<longrightarrow> fin f \<and> length (ws_payload f) \<le> 125) \<and>
     (opcode f = TEXT_FRAME \<and> fin f \<longrightarrow> (\<exists>cs. list_all ws_scalar cs \<and> ws_payload f = concat (map utf8_encode cs))) \<and>
     (opcode f = CLOSE_FRAME \<longrightarrow> (\<exists>info. get_close_info f = Inr info))"

lemma header_key_length:
  assumes "parse_header data g = (None, f, h)"
  shows "length (masking_key f) = 4"
proof -
  obtain len offset where "header_tail data ((header_bits (data ! 0) g)\<lparr>masked := (data ! 1 AND 0x80 \<noteq> 0), payload_len := len\<rparr>) offset = (None, f, h)"
    by (rule parse_header_done [OF assms])
  then show ?thesis by (auto simp: header_tail_def split: if_splits)
qed

lemma parsed_frame_ok:
  assumes "no_wrap m" "parse_frame m data g = (None, f, c)"
  shows "ws_frame_ok m f \<and> 2 \<le> c \<and> c \<le> length data"
proof -
  obtain f1 h where d: "parse_header data g = (None, f1, h)" "unat (payload_len f1) \<le> m" "f = read_payload data f1 h"
    "c = h + unat (payload_len f)" "c \<le> length data" "2 \<le> h" "validate_frame f = None"
    "opcode f = TEXT_FRAME \<and> fin f \<longrightarrow> ws_is_valid_utf8 (ws_payload f)"
    by (rule parse_frame_done [OF assms])
  have v: "is_valid_opcode (opcode f)" "\<not> rsv1 f" "\<not> rsv2 f" "\<not> rsv3 f" "is_control_frame f \<longrightarrow> fin f"
    "is_control_frame f \<longrightarrow> \<not> payload_len f > 125" "unat (payload_len f) = length (ws_payload f)"
    "opcode f = CLOSE_FRAME \<longrightarrow> ws_payload f = [] \<or> 2 \<le> length (ws_payload f)"
    "opcode f = CLOSE_FRAME \<and> length (ws_payload f) > 2 \<longrightarrow> ws_is_valid_utf8 (drop 2 (ws_payload f))"
    using d(7) by (auto simp: validate_frame_def not_less split: if_splits)
  have "opcode f \<in> {CONTINUATION, TEXT_FRAME, BINARY_FRAME, CLOSE_FRAME, PING_FRAME, PONG_FRAME}"
    using v(1) unfolding valid_opcode_cases opcode_defs by blast
  moreover have "length (ws_payload f) \<le> 125" if "is_control_frame f"
    using v(6,7) that by (simp add: word_less_nat_alt)
  moreover have "\<exists>info. get_close_info f = Inr info" if "opcode f = CLOSE_FRAME"
    using v(8,9) that by (auto simp: get_close_info_def Let_def)
  moreover have "length (masking_key f) = 4" using header_key_length [OF d(1)] d(3) by simp
  moreover have "length (ws_payload f) \<le> m" using v(7) d(2,3) by simp
  ultimately show ?thesis
    using v(2-5,7) d(4,5,6,8) by (simp add: ws_frame_ok_def ws_utf8.valid_iff)
qed


lemma header_error_no_fault: "fst (parse_header data g) \<notin> {Some WS_FAULT, Some WS_PAYLOAD_LENGTH}"
  by (auto simp: parse_header_def header_tail_def Let_def split: option.splits)

lemma validate_read_payload:
  "h + unat (payload_len f) \<le> length data \<Longrightarrow> validate_frame (read_payload data f h) \<notin> {Some WS_FAULT, Some WS_PAYLOAD_LENGTH}"
  by (auto simp: validate_frame_def)

lemma parse_frame_no_fault:
  assumes "no_wrap m"
  shows "fst (parse_frame m data g) \<notin> {Some WS_FAULT, Some WS_PAYLOAD_LENGTH}"
proof (cases "data = []")
  case True
  then show ?thesis by (simp add: parse_frame_def)
next
  case False
  obtain e f h where h: "parse_header data g = (e, f, h)" by (metis prod_cases3)
  show ?thesis
  proof (cases e)
    case None
    show ?thesis using validate_read_payload [of h f data]
      unfolding parse_frame_eq [OF assms h [unfolded None]] by (auto simp: Let_def)
  next
    case (Some x)
    then show ?thesis using parse_frame_header_error [OF False h [unfolded Some]] header_error_no_fault [of data g] h by simp
  qed
qed



text \<open>The information put into a close frame is found there again, and the frame can be sent.\<close>

lemma close_info_roundtrip:
  assumes "set_close_info code reason f = (None, f')"
  shows "get_close_info f' = Inr (code, reason)"
proof -
  have b: "push_bit 8 (ucast (ucast (drop_bit 8 code) :: byte)) OR ucast (ucast (code AND 0xFF) :: byte) = code"
    unfolding mask_FF by (rule bit_word_eqI) (auto simp: bit_simps not_less)
  show ?thesis using assms b by (auto simp: set_close_info_def get_close_info_def Let_def split: if_splits)
qed

lemma close_frame_validates:
  assumes "set_close_info code reason f = (None, f')" "fin f" "\<not> rsv1 f" "\<not> rsv2 f" "\<not> rsv3 f" "length reason \<le> 123"
  shows "validate_frame f' = None"
proof -
  let ?p = "[ucast (drop_bit 8 code), ucast (code AND 0xFF)] @ reason"
  have f': "f' = f\<lparr>ws_payload := ?p, payload_len := of_nat (length ?p)\<rparr>" and v: "reason = [] \<or> ws_is_valid_utf8 reason"
    and op: "opcode f = CLOSE_FRAME"
    using assms(1) by (auto simp: set_close_info_def Let_def split: if_splits)
  define n :: u64 where "n = of_nat (length ?p)"
  have n: "unat n = 2 + length reason" using assms(6) by (simp add: n_def unat_of_nat take_bit_nat_eq_self del: of_nat_Suc)
  then have "\<not> n > 125" using assms(6) by (simp add: word_less_nat_alt)
  then show ?thesis
    using assms(2-5) v op n unfolding f' n_def [symmetric]
    by (simp add: validate_frame_def is_valid_opcode_def opcode_defs)
qed

end
