(* ===== verification/Auth_Manager.thy ===== *)
theory Auth_Manager
  imports Topic_Levels Mqtt_Packet
begin

text \<open>
  Authentication and authorization, \<^verbatim>\<open>auth/mqtt_auth_manager.cpp\<close> over the interface of
  \<^verbatim>\<open>auth/mqtt_auth_interface.h\<close>.

  The manager keeps a list of providers ordered by priority.  A provider is an interface with
  several implementations over databases and remote services, so it is a record of functions
  here.  A login gives a context: who the user is, the rules of access that the provider knows,
  and when they expire.  Publishing, subscribing and delivering are decided from the context,
  by the provider itself if it insists on being asked.  Times are milliseconds since the epoch.
  \<^verbatim>\<open>std::sort\<close> with a comparison by priority only is modelled by a stable sort.  The cache of
  logins is written but no code path reads it, and is left out.

  The lemmas: the matching of patterns is that of the protocol for topics; a pattern that admits
  a filter admits every topic of the filter; access is granted exactly by the first rule that
  matches; logins ask the healthy providers in order until one knows the user.
\<close>

subsection \<open>Users, rules and providers\<close>

datatype auth_result =
    AUTH_SUCCESS | INVALID_CREDENTIALS | ACCESS_DENIED | USER_NOT_FOUND | TOPIC_ACCESS_DENIED
  | AUTH_INTERNAL_ERROR | AUTH_TIMEOUT | RATE_LIMITED | AUTH_PENDING

datatype permission = NO_ACCESS | READ | WRITE | READWRITE

record user_info =
  user_name :: bytes
  user_client_id :: bytes
  user_client_ip :: bytes
  user_client_port :: u16
  user_is_super :: bool
  user_expires_at_ms :: u64
  provider_name :: bytes
  authorization_session :: u64

definition cleared_user :: "user_info \<Rightarrow> user_info" where
  "cleared_user u =
     u\<lparr>user_expires_at_ms := 0, provider_name := [], user_name := [], user_client_id := [], user_client_ip := [],
       user_client_port := 0, user_is_super := False\<rparr>"

record acl_rule =
  topic_pattern :: bytes
  rule_permission :: permission
  rule_max_qos :: byte

record auth_context =
  context_user :: user_info
  acl_rules :: "acl_rule list"
  acl_version :: u64
  context_expires_at_ms :: u64
  context_is_super :: bool

record auth_provider =
  prov_name :: bytes
  is_healthy :: bool
  requires_online_authorization :: bool
  prov_authenticate :: "bytes \<Rightarrow> bytes \<Rightarrow> bytes \<Rightarrow> bytes \<Rightarrow> u16 \<Rightarrow> user_info \<Rightarrow> auth_result \<times> user_info"
  get_user_permissions :: "bytes \<Rightarrow> mq_err option \<times> (bytes \<times> permission) list"
  prov_check_topic_access :: "user_info \<Rightarrow> bytes \<Rightarrow> permission \<Rightarrow> auth_result"
  prov_check_publish :: "user_info \<Rightarrow> bytes \<Rightarrow> bytes \<Rightarrow> auth_result"
  begin_publish_check :: "user_info \<Rightarrow> bytes \<Rightarrow> bytes \<Rightarrow> auth_result"
  check_delivery_access :: "user_info \<Rightarrow> bytes \<Rightarrow> auth_result"

type_synonym providers = "(auth_provider \<times> int) list"


subsection \<open>Matching a pattern\<close>

function split_topic_levels_local :: "bytes \<Rightarrow> level list" where
  "split_topic_levels_local v =
     (case dropWhile (\<lambda>c. c \<noteq> slash) v of
        [] \<Rightarrow> [v]
      | _ # rest \<Rightarrow> takeWhile (\<lambda>c. c \<noteq> slash) v # split_topic_levels_local rest)"
  by auto
termination
proof (relation "measure length")
  fix v x rest assume "dropWhile (\<lambda>c. c \<noteq> slash) v = x # rest"
  then show "(rest, v) \<in> measure length" using length_dropWhile_le [of "\<lambda>c. c \<noteq> slash" v] by simp
qed simp

declare split_topic_levels_local.simps [simp del]

text \<open>The loop over the levels of the pattern, from where it is, with the levels of the topic that are left.\<close>

fun match_levels_local :: "level list \<Rightarrow> level list \<Rightarrow> bool" where
  "match_levels_local [] requested = (requested = [])"
| "match_levels_local (a # allowed) requested =
     (if a = multi_level_wildcard then allowed = []
      else case requested of
        [] \<Rightarrow> False
      | r # requested' \<Rightarrow>
          if r = multi_level_wildcard then False
          else if a \<noteq> single_level_wildcard \<and> a \<noteq> r then False
          else match_levels_local allowed requested')"

definition match_topic_pattern_local :: "bytes \<Rightarrow> bytes \<Rightarrow> bool" where
  "match_topic_pattern_local topic pattern =
     (if topic = [] \<or> pattern = [] then False
      else if hd topic = dollar \<and> hd pattern \<noteq> dollar then False
      else match_levels_local (split_topic_levels_local pattern) (split_topic_levels_local topic))"


subsection \<open>Providers and logins\<close>

definition add_provider :: "auth_provider \<Rightarrow> int \<Rightarrow> providers \<Rightarrow> mq_err option \<times> providers" where
  "add_provider p priority ps =
     (if prov_name p \<in> (prov_name \<circ> fst) ` set ps then (Some MQ_ERR_INVALID_ARGS, ps)
      else (None, sort_key snd (ps @ [(p, priority)])))"

fun remove_first :: "('a \<Rightarrow> bool) \<Rightarrow> 'a list \<Rightarrow> 'a list" where
  "remove_first P [] = []"
| "remove_first P (x # xs) = (if P x then xs else x # remove_first P xs)"

definition remove_provider :: "bytes \<Rightarrow> providers \<Rightarrow> mq_err option \<times> providers" where
  "remove_provider n ps =
     (if n \<notin> (prov_name \<circ> fst) ` set ps then (Some MQ_ERR_NOT_FOUND_V2, ps)
      else (None, remove_first (\<lambda>(p, _). prov_name p = n) ps))"

record login =
  login_username :: bytes
  login_password :: bytes
  login_client_id :: bytes
  login_client_ip :: bytes
  login_client_port :: u16

definition ask :: "login \<Rightarrow> auth_provider \<Rightarrow> user_info \<Rightarrow> auth_result \<times> user_info" where
  "ask l p = prov_authenticate p (login_username l) (login_password l) (login_client_id l) (login_client_ip l) (login_client_port l)"

text \<open>The loop over the providers: the result so far, the user and the provider that accepted.\<close>

fun login_loop :: "login \<Rightarrow> providers \<Rightarrow> auth_result \<Rightarrow> user_info \<Rightarrow> auth_result \<times> user_info \<times> auth_provider option" where
  "login_loop l [] r u = (r, u, None)"
| "login_loop l ((p, _) # ps) r u =
     (if \<not> is_healthy p then login_loop l ps r u
      else case ask l p u of
        (r, u) \<Rightarrow>
          if r = AUTH_SUCCESS then (r, u\<lparr>provider_name := prov_name p\<rparr>, Some p)
          else if r = USER_NOT_FOUND then login_loop l ps r u
          else (r, u, None))"

definition authenticate_user_info :: "login \<Rightarrow> providers \<Rightarrow> user_info \<Rightarrow> auth_result \<times> user_info" where
  "authenticate_user_info l ps u =
     (if ps = [] then (ACCESS_DENIED, u)
      else case login_loop l ps AUTH_INTERNAL_ERROR u of (r, u, _) \<Rightarrow> (r, u))"

definition permission_rules :: "(bytes \<times> permission) list \<Rightarrow> acl_rule list" where
  "permission_rules = map (\<lambda>(pat, perm). \<lparr>topic_pattern = pat, rule_permission = perm, rule_max_qos = 2\<rparr>)"

definition authenticate_user ::
  "bool \<Rightarrow> int \<Rightarrow> u64 \<Rightarrow> login \<Rightarrow> providers \<Rightarrow> auth_context \<Rightarrow> mq_err option \<times> auth_result \<times> auth_context" where
  "authenticate_user cache_enabled cache_ttl_seconds now l ps ctx =
     (let ctx = ctx\<lparr>context_user := cleared_user (context_user ctx), acl_rules := [], context_is_super := False,
                    acl_version := 0, context_expires_at_ms := 0\<rparr> in
      if ps = [] then (None, ACCESS_DENIED, ctx)
      else case login_loop l ps AUTH_INTERNAL_ERROR (context_user ctx) of
        (result, u, matched) \<Rightarrow>
          let ctx = ctx\<lparr>context_user := u\<rparr> in
          case matched of
            None \<Rightarrow> (None, result, ctx)
          | Some p \<Rightarrow>
              (case get_user_permissions p (user_name u) of
                 (ret, permissions) \<Rightarrow>
                   let ret = (if ret = Some MQ_ERR_NOT_FOUND_V2 then None else ret) in
                   if ret \<noteq> None then (ret, result, ctx)
                   else
                     let ctx = ctx\<lparr>acl_rules := permission_rules permissions, context_is_super := user_is_super u,
                                   acl_version := 1, context_expires_at_ms := user_expires_at_ms u\<rparr> in
                     (None, result,
                      if context_expires_at_ms ctx = 0 \<and> cache_enabled \<and> cache_ttl_seconds > 0 \<and> \<not> requires_online_authorization p
                      then ctx\<lparr>context_expires_at_ms := now + of_int cache_ttl_seconds * 1000\<rparr>
                      else ctx)))"


subsection \<open>Decisions\<close>

fun check_topic_access_providers :: "providers \<Rightarrow> user_info \<Rightarrow> bytes \<Rightarrow> permission \<Rightarrow> auth_result" where
  "check_topic_access_providers [] u topic perm = ACCESS_DENIED"
| "check_topic_access_providers ((p, _) # ps) u topic perm =
     (if provider_name u \<noteq> [] \<and> provider_name u \<noteq> prov_name p then check_topic_access_providers ps u topic perm
      else if \<not> is_healthy p then check_topic_access_providers ps u topic perm
      else
        let r = prov_check_topic_access p u topic perm in
        if r = AUTH_SUCCESS then r
        else if r \<noteq> USER_NOT_FOUND then r
        else check_topic_access_providers ps u topic perm)"

definition check_topic_access_user :: "providers \<Rightarrow> user_info \<Rightarrow> bytes \<Rightarrow> permission \<Rightarrow> auth_result" where
  "check_topic_access_user ps u topic perm =
     (if user_is_super u then AUTH_SUCCESS
      else if ps = [] then ACCESS_DENIED
      else check_topic_access_providers ps u topic perm)"

definition context_expired :: "u64 \<Rightarrow> auth_context \<Rightarrow> bool" where
  "context_expired now ctx \<longleftrightarrow>
     context_expires_at_ms ctx \<noteq> 0 \<and> now \<ge> context_expires_at_ms ctx \<or>
     user_expires_at_ms (context_user ctx) \<noteq> 0 \<and> now \<ge> user_expires_at_ms (context_user ctx)"

definition has_wildcard_byte :: "bytes \<Rightarrow> bool" where
  "has_wildcard_byte topic \<longleftrightarrow> plus_byte \<in> set topic \<or> hash_byte \<in> set topic"

fun online_provider :: "bytes \<Rightarrow> providers \<Rightarrow> auth_provider option" where
  "online_provider n [] = None"
| "online_provider n ((p, _) # ps) =
     (if n = prov_name p \<and> requires_online_authorization p then Some p else online_provider n ps)"

text \<open>The loop over the rules stops at the first that matches.\<close>

fun check_rules :: "acl_rule list \<Rightarrow> bytes \<Rightarrow> permission \<Rightarrow> auth_result" where
  "check_rules [] topic perm = ACCESS_DENIED"
| "check_rules (rule # rules) topic perm =
     (if match_topic_pattern_local topic (topic_pattern rule) then
        (if rule_permission rule = READWRITE \<or> rule_permission rule = perm then AUTH_SUCCESS else ACCESS_DENIED)
      else check_rules rules topic perm)"

definition check_topic_access :: "u64 \<Rightarrow> providers \<Rightarrow> auth_context \<Rightarrow> bytes \<Rightarrow> permission \<Rightarrow> auth_result" where
  "check_topic_access now ps ctx topic perm =
     (if context_expired now ctx then ACCESS_DENIED
      else if perm = WRITE \<and> has_wildcard_byte topic then ACCESS_DENIED
      else case online_provider (provider_name (context_user ctx)) ps of
        Some p \<Rightarrow> (if is_healthy p then prov_check_topic_access p (context_user ctx) topic perm else AUTH_INTERNAL_ERROR)
      | None \<Rightarrow>
          if context_is_super ctx then AUTH_SUCCESS
          else if acl_rules ctx \<noteq> [] then check_rules (acl_rules ctx) topic perm
          else check_topic_access_user ps (context_user ctx) topic perm)"

definition check_publish :: "u64 \<Rightarrow> providers \<Rightarrow> auth_context \<Rightarrow> bytes \<Rightarrow> bytes \<Rightarrow> auth_result" where
  "check_publish now ps ctx topic payload =
     (if context_expired now ctx then ACCESS_DENIED
      else if has_wildcard_byte topic then ACCESS_DENIED
      else case online_provider (provider_name (context_user ctx)) ps of
        Some p \<Rightarrow> (if is_healthy p then prov_check_publish p (context_user ctx) topic payload else AUTH_INTERNAL_ERROR)
      | None \<Rightarrow> check_topic_access now ps ctx topic WRITE)"

text \<open>The variants that may leave a request to poll; \<open>True\<close> in the second component if they do.\<close>

definition check_publish_pending :: "u64 \<Rightarrow> providers \<Rightarrow> auth_context \<Rightarrow> bytes \<Rightarrow> bytes \<Rightarrow> auth_result \<times> bool" where
  "check_publish_pending now ps ctx topic payload =
     (if context_expired now ctx then (ACCESS_DENIED, False)
      else if has_wildcard_byte topic then (ACCESS_DENIED, False)
      else case online_provider (provider_name (context_user ctx)) ps of
        Some p \<Rightarrow>
          let r = (if is_healthy p then begin_publish_check p (context_user ctx) topic payload else AUTH_INTERNAL_ERROR) in
          (r, r = AUTH_PENDING)
      | None \<Rightarrow> (check_topic_access now ps ctx topic WRITE, False))"

definition check_delivery :: "u64 \<Rightarrow> providers \<Rightarrow> auth_context \<Rightarrow> bytes \<Rightarrow> auth_result" where
  "check_delivery now ps ctx topic =
     (if context_expired now ctx then ACCESS_DENIED
      else case online_provider (provider_name (context_user ctx)) ps of
        Some p \<Rightarrow> (if is_healthy p then check_delivery_access p (context_user ctx) topic else AUTH_INTERNAL_ERROR)
      | None \<Rightarrow> check_topic_access now ps ctx topic READ)"


subsection \<open>What a pattern admits\<close>

lemma split_local_split_all: "split_topic_levels_local v = split_all v"
proof (induction v rule: split_topic_levels_local.induct)
  case (1 v)
  have no: "slash \<notin> set v \<Longrightarrow> split_all v = [v]" for v
    by (induction v) auto
  have yes: "split_all (xs @ slash # ys) = xs # split_all ys" if "slash \<notin> set xs" for xs ys
    using that by (induction xs) auto
  show ?case
  proof (cases "dropWhile (\<lambda>c. c \<noteq> slash) v")
    case Nil
    then have "slash \<notin> set v" by (auto simp: dropWhile_eq_Nil_conv)
    then show ?thesis using no [of v] unfolding split_topic_levels_local.simps [of v] Nil by simp
  next
    case (Cons x rest)
    then have x: "x = slash" using hd_dropWhile [of "\<lambda>c. c \<noteq> slash" v] by simp
    have v: "v = takeWhile (\<lambda>c. c \<noteq> slash) v @ slash # rest"
      using Cons x takeWhile_dropWhile_id [of "\<lambda>c. c \<noteq> slash" v] by simp
    have "slash \<notin> set (takeWhile (\<lambda>c. c \<noteq> slash) v)" by (auto dest: set_takeWhileD)
    then have "split_all v = takeWhile (\<lambda>c. c \<noteq> slash) v # split_all rest" using yes v by metis
    then show ?thesis using Cons 1 [OF Cons] by (subst split_topic_levels_local.simps) simp
  qed
qed

lemma match_levels_covers:
  "match_levels_local ps fs \<Longrightarrow> matches fs ts \<Longrightarrow> matches ps ts"
proof (induction ps fs arbitrary: ts rule: match_levels_local.induct)
  case (2 a allowed requested)
  show ?case
  proof (cases "a = multi_level_wildcard")
    case True
    then show ?thesis using "2.prems" by simp
  next
    case False
    then obtain r requested' where r: "requested = r # requested'" "r \<noteq> multi_level_wildcard"
      "a = single_level_wildcard \<or> a = r" "match_levels_local allowed requested'"
      using "2.prems"(1) by (auto split: list.splits if_splits)
    then obtain t ts' where t: "ts = t # ts'" "r = single_level_wildcard \<or> r = t" "matches requested' ts'"
      using "2.prems"(2) by (auto split: list.splits)
    have "matches allowed ts'" using "2.IH" [OF False r(1)] r t(3) by auto
    then show ?thesis using r(3) t by auto
  qed
qed simp

lemma match_levels_topic:
  "multi_level_wildcard \<notin> set ts \<Longrightarrow> match_levels_local ps ts \<longleftrightarrow> matches ps ts"
proof (induction ps ts rule: match_levels_local.induct)
  case (1 requested)
  then show ?case by (cases requested) simp_all
next
  case (2 a allowed requested)
  then show ?case by (cases requested) auto
qed

lemma hd_split_all_dollar: "topic \<noteq> [] \<Longrightarrow> system_level (hd (split_all topic)) \<longleftrightarrow> hd topic = dollar"
  by (cases topic) (auto simp: system_level_def split: list.splits)

lemma pattern_covers:
  assumes "match_topic_pattern_local f pattern" "topic_matches (split_all f) (split_all t)"
  shows "topic_matches (split_all pattern) (split_all t)"
proof -
  have ne: "f \<noteq> []" "pattern \<noteq> []" and d: "hd f = dollar \<longrightarrow> hd pattern = dollar"
    and m: "match_levels_local (split_all pattern) (split_all f)"
    using assms(1) by (auto simp: match_topic_pattern_local_def split_local_split_all split: if_splits)
  have "matches (split_all pattern) (split_all t)"
    using match_levels_covers [OF m] assms(2) by (simp add: topic_matches_def)
  moreover have False if s: "system_level (hd (split_all t))"
    and w: "hd (split_all pattern) \<in> {single_level_wildcard, multi_level_wildcard}"
  proof -
    obtain a as b bs where ab: "split_all f = a # as" "split_all t = b # bs" by (metis split_all_Cons)
    then have "a = b" using assms(2) s by (auto simp: topic_matches_def)
    then have "hd pattern = dollar" using d s ab hd_split_all_dollar [OF ne(1)] by simp
    then have "system_level (hd (split_all pattern))" using hd_split_all_dollar [OF ne(2)] by simp
    then show False using w by (auto simp: system_level_def)
  qed
  ultimately show ?thesis by (auto simp: topic_matches_def)
qed

lemma pattern_topic:
  assumes "\<not> has_wildcard_byte topic" "topic \<noteq> []"
  shows "match_topic_pattern_local topic pattern \<longleftrightarrow> topic_matches (split_all pattern) (split_all topic)"
proof (cases "pattern = []")
  case True
  have "split_all topic \<noteq> [[]]" using assms(2) by (cases topic) (auto split: list.splits)
  then have "\<not> matches (split_all pattern) (split_all topic)" unfolding True by (cases "split_all topic"; cases "tl (split_all topic)") auto
  then show ?thesis using True by (simp add: match_topic_pattern_local_def topic_matches_def)
next
  case False
  note assms = assms False
  have "l \<in> set (split_all topic) \<Longrightarrow> set l \<subseteq> set topic" for l
    by (induction topic arbitrary: l) (fastforce split: list.splits if_splits)+
  then have nw: "multi_level_wildcard \<notin> set (split_all topic)"
    using assms(1) by (fastforce simp: has_wildcard_byte_def)
  have m: "match_levels_local (split_all pattern) (split_all topic) \<longleftrightarrow> matches (split_all pattern) (split_all topic)"
    by (rule match_levels_topic [OF nw])
  obtain a as b bs where ab: "split_all pattern = a # as" "split_all topic = b # bs" by (metis split_all_Cons)
  have s: "system_level b \<longleftrightarrow> hd topic = dollar" "system_level a \<longleftrightarrow> hd pattern = dollar"
    using hd_split_all_dollar assms(2,3) ab by (metis list.sel(1))+
  have "a \<notin> {single_level_wildcard, multi_level_wildcard}" if "system_level a"
    using that by (auto simp: system_level_def)
  then show ?thesis
    using m s assms(2,3) unfolding match_topic_pattern_local_def split_local_split_all topic_matches_def ab
    by auto
qed



subsection \<open>Decisions by rules\<close>

definition grants :: "acl_rule \<Rightarrow> permission \<Rightarrow> bool" where
  "grants rule perm \<longleftrightarrow> rule_permission rule = READWRITE \<or> rule_permission rule = perm"

lemma check_rules_first:
  "check_rules rules topic perm = AUTH_SUCCESS \<longleftrightarrow>
     (\<exists>pre rule post. rules = pre @ rule # post \<and> match_topic_pattern_local topic (topic_pattern rule) \<and> grants rule perm \<and>
        (\<forall>r\<in>set pre. \<not> match_topic_pattern_local topic (topic_pattern r)))"
proof (induction rules)
  case (Cons x rules)
  show ?case
  proof (cases "match_topic_pattern_local topic (topic_pattern x)")
    case True
    then have "check_rules (x # rules) topic perm = AUTH_SUCCESS \<longleftrightarrow> grants x perm" by (simp add: grants_def)
    also have "\<dots> \<longleftrightarrow> (\<exists>pre rule post. x # rules = pre @ rule # post \<and> match_topic_pattern_local topic (topic_pattern rule) \<and>
        grants rule perm \<and> (\<forall>r\<in>set pre. \<not> match_topic_pattern_local topic (topic_pattern r)))" (is "_ \<longleftrightarrow> ?R")
    proof
      assume "grants x perm"
      then show ?R using True by (intro exI [of _ "[]"] exI [of _ x] exI [of _ rules]) simp
    next
      assume ?R
      then obtain pre rule post where "x # rules = pre @ rule # post" "grants rule perm"
        "\<forall>r\<in>set pre. \<not> match_topic_pattern_local topic (topic_pattern r)" by blast
      then show "grants x perm" using True by (cases pre) auto
    qed
    finally show ?thesis .
  next
    case False
    have "(\<exists>pre rule post. x # rules = pre @ rule # post \<and> match_topic_pattern_local topic (topic_pattern rule) \<and>
        grants rule perm \<and> (\<forall>r\<in>set pre. \<not> match_topic_pattern_local topic (topic_pattern r))) \<longleftrightarrow>
      (\<exists>pre rule post. rules = pre @ rule # post \<and> match_topic_pattern_local topic (topic_pattern rule) \<and>
        grants rule perm \<and> (\<forall>r\<in>set pre. \<not> match_topic_pattern_local topic (topic_pattern r)))" (is "?L \<longleftrightarrow> ?R")
    proof
      assume ?L
      then obtain pre rule post where p: "x # rules = pre @ rule # post" "match_topic_pattern_local topic (topic_pattern rule)"
        "grants rule perm" "\<forall>r\<in>set pre. \<not> match_topic_pattern_local topic (topic_pattern r)" by blast
      then obtain pre' where "pre = x # pre'" using False by (cases pre) auto
      with p show ?R by auto
    next
      assume ?R
      then obtain pre rule post where "rules = pre @ rule # post" "match_topic_pattern_local topic (topic_pattern rule)"
        "grants rule perm" "\<forall>r\<in>set pre. \<not> match_topic_pattern_local topic (topic_pattern r)" by blast
      then show ?L using False by (intro exI [of _ "x # pre"] exI [of _ rule] exI [of _ post]) simp
    qed
    then show ?thesis using Cons.IH False by simp
  qed
qed simp

lemma check_topic_access_rules:
  assumes "\<not> context_is_super ctx" "acl_rules ctx \<noteq> []" "online_provider (provider_name (context_user ctx)) ps = None"
  shows "check_topic_access now ps ctx topic perm = AUTH_SUCCESS \<longleftrightarrow>
    \<not> context_expired now ctx \<and> \<not> (perm = WRITE \<and> has_wildcard_byte topic) \<and> check_rules (acl_rules ctx) topic perm = AUTH_SUCCESS"
  using assms by (simp add: check_topic_access_def)


definition sample_context :: auth_context where
  "sample_context = \<lparr>context_user = \<lparr>user_name = [0x75], user_client_id = [], user_client_ip = [], user_client_port = 0, user_is_super = False,
     user_expires_at_ms = 0, provider_name = [], authorization_session = 0\<rparr>,
     acl_rules = [\<lparr>topic_pattern = [0x61, slash, 0x73], rule_permission = NO_ACCESS, rule_max_qos = 2\<rparr>,
       \<lparr>topic_pattern = [0x61, slash, hash_byte], rule_permission = READ, rule_max_qos = 2\<rparr>],
     acl_version = 1, context_expires_at_ms = 0, context_is_super = False\<rparr>"


text \<open>A login asks the healthy providers in their order and stops at the first that knows the user.\<close>

lemma login_loop_order:
  "login_loop l ps r u = (AUTH_SUCCESS, u', Some p) \<Longrightarrow>
   \<exists>pre n post v. ps = pre @ (p, n) # post \<and> is_healthy p \<and> fst (ask l p v) = AUTH_SUCCESS \<and> provider_name u' = prov_name p \<and>
     (\<forall>(q, _)\<in>set pre. is_healthy q \<longrightarrow> (\<exists>w. fst (ask l q w) = USER_NOT_FOUND))"
proof (induction l ps r u rule: login_loop.induct)
  case (2 l q n ps r u)
  obtain r' v where a: "ask l q u = (r', v)" by (cases "ask l q u")
  consider "\<not> is_healthy q" | "is_healthy q" "r' = AUTH_SUCCESS" | "is_healthy q" "r' = USER_NOT_FOUND"
    using "2.prems" a by (auto split: if_splits)
  then show ?case
  proof cases
    case 1
    then obtain pre m post v where "ps = pre @ (p, m) # post \<and> is_healthy p \<and> fst (ask l p v) = AUTH_SUCCESS \<and> provider_name u' = prov_name p \<and>
       (\<forall>(q, _)\<in>set pre. is_healthy q \<longrightarrow> (\<exists>w. fst (ask l q w) = USER_NOT_FOUND))"
      using "2.IH"(1) [OF 1] "2.prems" by auto
    then show ?thesis using 1 by (intro exI [of _ "(q, n) # pre"] exI [of _ m] exI [of _ post] exI [of _ v]) simp
  next
    case 2
    then show ?thesis using "2.prems" a by (intro exI [of _ "[]"] exI [of _ n] exI [of _ ps] exI [of _ u]) auto
  next
    case 3
    then obtain pre m post v' where "ps = pre @ (p, m) # post \<and> is_healthy p \<and> fst (ask l p v') = AUTH_SUCCESS \<and> provider_name u' = prov_name p \<and>
       (\<forall>(q, _)\<in>set pre. is_healthy q \<longrightarrow> (\<exists>w. fst (ask l q w) = USER_NOT_FOUND))"
      using "2.IH"(2) [of r' v] "2.prems" a by auto
    moreover have "\<exists>w. fst (ask l q w) = USER_NOT_FOUND" using a 3 by (intro exI [of _ u]) simp
    ultimately show ?thesis by (intro exI [of _ "(q, n) # pre"] exI [of _ m] exI [of _ post] exI [of _ v']) simp
  qed
qed simp

end
