(* ===== verification/Will_Scheduler.thy ===== *)
theory Will_Scheduler
  imports Connection Auth_Manager "HOL-Library.Multiset"
begin

text \<open>
  Wills, \<^verbatim>\<open>protocol/mqtt_will.cpp\<close>: the checks a will passes at CONNECT, its delay, its contents,
  and the scheduler that keeps delayed wills until they are due, are cancelled by a reconnection
  or are made due by the end of the session.

  The scheduler keeps one queue per owner thread, ordered by due time, and per client the numbers
  of its wills that may still be published (\<open>live\<close>), of those handed to a publishing coroutine
  (\<open>inflight\<close>), and iterators to its queue positions.  Entries are heap objects; an entry carries
  the address it was allocated at, and an iterator is the pair of owner and address.  Every
  operation holds the mutex from start to end and is one function here.  The time point
  \<^verbatim>\<open>min()\<close> is \<open>time_min\<close>.

  The lemmas: the queues stay sorted and agree with the iterators and numbers; nothing that is
  queued is ever skipped; and every will that was scheduled is exactly one of handed out,
  cancelled or still queued.
\<close>

subsection \<open>What a will is and when it may be used\<close>

record will_body =
  wb_topic :: bytes
  wb_payload :: bytes
  wb_qos :: byte
  wb_retain :: bool
  delay_seconds :: u32
  payload_format :: byte
  has_message_expiry :: bool
  message_expiry :: u32
  wb_content_type :: bytes
  wb_response_topic :: bytes
  wb_correlation_data :: bytes
  wb_user_properties :: "(bytes \<times> bytes) list"

definition QoSNotSupported :: reason_code where "QoSNotSupported = 0x9B"
definition RetainNotSupported :: reason_code where "RetainNotSupported = 0x9A"

definition effective_will_delay_seconds :: "bool \<Rightarrow> u32 \<Rightarrow> u32 \<Rightarrow> u32" where
  "effective_will_delay_seconds persistent will_delay_seconds session_expiry_seconds =
     (if \<not> persistent then 0 else min will_delay_seconds session_expiry_seconds)"

text \<open>\<open>None\<close> accepts the will; otherwise the reason of the refusal.\<close>

definition validate_will_connect :: "byte \<Rightarrow> bool \<Rightarrow> bytes \<Rightarrow> byte \<Rightarrow> bool \<Rightarrow> reason_code option" where
  "validate_will_connect qos retain topic qos_limit retain_allowed =
     (if topic = [] \<or> 0x2B \<in> set topic \<or> 0x23 \<in> set topic then Some ProtocolError
      else if qos > qos_limit then Some QoSNotSupported
      else if retain \<and> \<not> retain_allowed then Some RetainNotSupported
      else None)"

definition will_body_from_connect :: "connect_packet \<Rightarrow> will_body" where
  "will_body_from_connect packet =
     (let p = will_properties packet in
      \<lparr>wb_topic = will_topic packet, wb_payload = will_payload packet,
       wb_qos = ucast (will_qos (connect_flags packet)), wb_retain = will_retain (connect_flags packet),
       delay_seconds = will_delay_interval p, payload_format = payload_format_indicator p,
       has_message_expiry = has_message_expiry_interval p, message_expiry = message_expiry_interval p,
       wb_content_type = content_type p, wb_response_topic = response_topic p,
       wb_correlation_data = correlation_data p, wb_user_properties = user_properties p\<rparr>)"



subsection \<open>Publishing a will\<close>

datatype will_outcome = WillPublished | WillRejected | WillCancelled

text \<open>The packet that is forwarded: properties are set only where the will has them.\<close>

definition will_publish :: "will_body \<Rightarrow> publish_packet" where
  "will_publish body =
     (let p = default_properties;
          p = (if payload_format body \<noteq> 0 then p\<lparr>payload_format_indicator := payload_format body\<rparr> else p);
          p = (if has_message_expiry body
               then p\<lparr>has_message_expiry_interval := True, message_expiry_interval := message_expiry body\<rparr> else p);
          p = (if wb_content_type body \<noteq> [] then p\<lparr>content_type := wb_content_type body\<rparr> else p);
          p = (if wb_response_topic body \<noteq> [] then p\<lparr>response_topic := wb_response_topic body\<rparr> else p);
          p = (if wb_correlation_data body \<noteq> [] then p\<lparr>correlation_data := wb_correlation_data body\<rparr> else p);
          p = p\<lparr>user_properties := user_properties p @ wb_user_properties body\<rparr>
      in \<lparr>dup_flag = False, publish_qos = wb_qos body, retain_flag = wb_retain body, topic_name = wb_topic body,
          packet_id = Some 0,
          publish_properties = p\<lparr>will_delay_interval := 0, topic_alias := 0, has_topic_alias := False\<rparr>,
          publish_payload = wb_payload body\<rparr>)"

text \<open>
  What the coroutine meets: whether the will is still current and whether the deadline has passed
  each time it looks, what asking for the authorization again returns (by polling the request,
  or by another check if there is no request), and how many recipients the router reports.
\<close>

record will_env =
  still_current :: "nat \<Rightarrow> bool"
  before_deadline :: "nat \<Rightarrow> bool"
  poll :: "nat \<Rightarrow> auth_result"
  forward_publish_via_router :: "bytes \<Rightarrow> publish_packet \<Rightarrow> bytes \<Rightarrow> int"

partial_function (option) await_decision :: "will_env \<Rightarrow> nat \<Rightarrow> auth_result \<Rightarrow> (auth_result option \<times> nat) option" where
  "await_decision env i r =
     (if r = AUTH_PENDING \<and> before_deadline env i then
        (if \<not> still_current env i then Some (None, i) else await_decision env (Suc i) (poll env i))
      else Some (Some r, i))"

definition forward_will :: "will_env \<Rightarrow> bytes \<Rightarrow> will_body \<Rightarrow> will_outcome" where
  "forward_will env forward_client_id body =
     (if forward_publish_via_router env (wb_topic body) (will_publish body) forward_client_id < 0
      then WillRejected else WillPublished)"

definition publish_will ::
  "will_env \<Rightarrow> u64 \<Rightarrow> providers option \<Rightarrow> auth_context option \<Rightarrow> bytes \<Rightarrow> will_body \<Rightarrow> will_outcome option" where
  "publish_will env now manager auth forward_client_id body =
     (if forward_client_id = [] \<or> wb_topic body = [] then Some WillRejected
      else if \<not> still_current env 0 then Some WillCancelled
      else case manager of
        None \<Rightarrow> Some (forward_will env forward_client_id body)
      | Some ps \<Rightarrow>
          (case auth of
             None \<Rightarrow> Some WillRejected
           | Some ctx \<Rightarrow>
               (case await_decision env 1 (fst (check_publish_pending now ps ctx (wb_topic body) (wb_payload body))) of
                  None \<Rightarrow> None
                | Some (None, i) \<Rightarrow> Some WillCancelled
                | Some (Some r, i) \<Rightarrow>
                    if \<not> still_current env i then Some WillCancelled
                    else if r \<noteq> AUTH_SUCCESS then Some WillRejected
                    else Some (forward_will env forward_client_id body))))"


subsection \<open>The scheduler\<close>

definition time_min :: int where "time_min = - (2 ^ 63)"

record will_entry =
  we_client :: bytes
  we_forward :: bytes
  we_generation :: u64
  we_due :: int
  we_owner :: nat
  we_body :: will_body
  we_auth :: "auth_context option"
  we_addr :: nat

record client_generations =
  gen_next :: u64
  gen_live :: "u64 set"
  gen_inflight :: "u64 set"
  gen_queued :: "(nat \<times> nat) list"

definition new_generations :: client_generations where
  "new_generations = \<lparr>gen_next = 0, gen_live = {}, gen_inflight = {}, gen_queued = []\<rparr>"

record will_scheduler =
  generations :: "bytes \<rightharpoonup> client_generations"
  queues :: "nat \<rightharpoonup> will_entry list"
  next_addr :: nat

definition empty_scheduler :: will_scheduler where
  "empty_scheduler = \<lparr>generations = Map.empty, queues = Map.empty, next_addr = 0\<rparr>"

definition queue_of :: "nat \<Rightarrow> will_scheduler \<Rightarrow> will_entry list" where
  "queue_of w s = (case queues s w of None \<Rightarrow> [] | Some q \<Rightarrow> q)"

text \<open>\<^verbatim>\<open>multimap::emplace\<close>: behind the elements with the same key.\<close>

definition emplace :: "will_entry \<Rightarrow> will_entry list \<Rightarrow> will_entry list" where
  "emplace e q = takeWhile (\<lambda>x. we_due x \<le> we_due e) q @ e # dropWhile (\<lambda>x. we_due x \<le> we_due e) q"

text \<open>The iterator to an entry.\<close>

definition ref_of :: "will_entry \<Rightarrow> nat \<times> nat" where
  "ref_of e = (we_owner e, we_addr e)"

definition next_generation :: "client_generations \<Rightarrow> u64" where
  "next_generation st = (let g = gen_next st + 1 in if g = 0 then g + 1 else g)"

definition client_generations_of :: "bytes \<Rightarrow> will_scheduler \<Rightarrow> client_generations" where
  "client_generations_of c s = (case generations s c of None \<Rightarrow> new_generations | Some st \<Rightarrow> st)"

definition numbered :: "will_entry \<Rightarrow> will_scheduler \<Rightarrow> will_entry" where
  "numbered e s =
     e\<lparr>we_generation := next_generation (client_generations_of (we_client e) s), we_addr := next_addr s\<rparr>"

definition schedule :: "will_entry \<Rightarrow> will_scheduler \<Rightarrow> will_scheduler" where
  "schedule e s =
     (if we_client e = [] then s
      else
        let st = client_generations_of (we_client e) s;
            e = numbered e s
        in s\<lparr>generations := (generations s)(we_client e \<mapsto>
               st\<lparr>gen_next := we_generation e, gen_live := insert (we_generation e) (gen_live st),
                  gen_queued := gen_queued st @ [ref_of e]\<rparr>),
             queues := (queues s)(we_owner e \<mapsto> emplace e (queue_of (we_owner e) s)),
             next_addr := Suc (next_addr s)\<rparr>)"

text \<open>\<^verbatim>\<open>v[i] = v.back(); v.pop_back()\<close>.\<close>

definition swap_remove :: "nat \<Rightarrow> 'a list \<Rightarrow> 'a list" where
  "swap_remove i xs = butlast (xs[i := last xs])"

definition forget_queued :: "nat \<Rightarrow> (nat \<times> nat) list \<Rightarrow> (nat \<times> nat) list" where
  "forget_queued addr xs =
     (case filter (\<lambda>i. snd (xs ! i) = addr) [0..<length xs] of [] \<Rightarrow> xs | i # _ \<Rightarrow> swap_remove i xs)"

text \<open>The entry an iterator points to.\<close>

definition entry_at :: "nat \<times> nat \<Rightarrow> will_scheduler \<Rightarrow> will_entry option" where
  "entry_at p s = List.find (\<lambda>e. we_addr e = snd p) (queue_of (fst p) s)"

definition erase_entry :: "nat \<times> nat \<Rightarrow> will_scheduler \<Rightarrow> will_scheduler" where
  "erase_entry p s =
     (let q = filter (\<lambda>e. we_addr e \<noteq> snd p) (queue_of (fst p) s) in
      s\<lparr>queues := (queues s)(fst p := (if q = [] then None else Some q))\<rparr>)"

definition drop_client_if_idle :: "bytes \<Rightarrow> will_scheduler \<Rightarrow> will_scheduler" where
  "drop_client_if_idle c s =
     (case generations s c of
        None \<Rightarrow> s
      | Some st \<Rightarrow>
          if gen_queued st = [] \<and> gen_live st = {} \<and> gen_inflight st = {}
          then s\<lparr>generations := (generations s)(c := None)\<rparr> else s)"

function suppress_loop ::
  "int \<Rightarrow> nat \<Rightarrow> client_generations \<Rightarrow> will_scheduler \<Rightarrow> client_generations \<times> will_scheduler" where
  "suppress_loop now i st s =
     (if i < length (gen_queued st) then
        (case entry_at (gen_queued st ! i) s of
           None \<Rightarrow> (st, s)
         | Some e \<Rightarrow>
             if we_due e > now
             then suppress_loop now i
                    (st\<lparr>gen_live := gen_live st - {we_generation e}, gen_queued := swap_remove i (gen_queued st)\<rparr>)
                    (erase_entry (gen_queued st ! i) s)
             else suppress_loop now (Suc i) st s)
      else (st, s))"
  by pat_completeness auto
termination
  by (relation "measure (\<lambda>(_, i, st, _). length (gen_queued st) - i)") (auto simp: swap_remove_def)

declare suppress_loop.simps [simp del]

definition suppress_pending :: "bytes \<Rightarrow> int \<Rightarrow> will_scheduler \<Rightarrow> will_scheduler" where
  "suppress_pending c now s =
     (case generations s c of
        None \<Rightarrow> s
      | Some st \<Rightarrow>
          (case suppress_loop now 0 st s of
             (st, s) \<Rightarrow> drop_client_if_idle c (s\<lparr>generations := (generations s)(c \<mapsto> st)\<rparr>)))"

definition cancel_wills :: "bytes \<Rightarrow> int \<Rightarrow> will_scheduler \<Rightarrow> will_scheduler" where
  "cancel_wills c now s = (if c = [] then s else suppress_pending c now s)"

definition expire_one :: "nat \<times> nat \<Rightarrow> will_scheduler \<Rightarrow> will_scheduler" where
  "expire_one p s =
     (case entry_at p s of
        None \<Rightarrow> s
      | Some e \<Rightarrow>
          s\<lparr>queues := (queues s)(fst p \<mapsto>
              emplace (e\<lparr>we_due := time_min\<rparr>) (filter (\<lambda>e. we_addr e \<noteq> snd p) (queue_of (fst p) s)))\<rparr>)"

definition expire_now :: "bytes \<Rightarrow> will_scheduler \<Rightarrow> will_scheduler" where
  "expire_now c s =
     (if c = [] then s
      else case generations s c of
        None \<Rightarrow> s
      | Some st \<Rightarrow> fold expire_one (gen_queued st) s)"

definition will_observe_connect :: "bytes \<Rightarrow> bool \<Rightarrow> bool \<Rightarrow> int \<Rightarrow> will_scheduler \<Rightarrow> will_scheduler" where
  "will_observe_connect c clean session_present now s =
     (if clean \<or> \<not> session_present then expire_now c s else cancel_wills c now s)"

definition complete :: "bytes \<Rightarrow> u64 \<Rightarrow> will_scheduler \<Rightarrow> will_scheduler" where
  "complete c g s =
     (if c = [] then s
      else case generations s c of
        None \<Rightarrow> s
      | Some st \<Rightarrow>
          let st = st\<lparr>gen_inflight := gen_inflight st - {g}\<rparr>;
              queued = list_ex (\<lambda>p. case entry_at p s of None \<Rightarrow> False | Some e \<Rightarrow> we_generation e = g) (gen_queued st);
              st = (if queued then st else st\<lparr>gen_live := gen_live st - {g}\<rparr>)
          in drop_client_if_idle c (s\<lparr>generations := (generations s)(c \<mapsto> st)\<rparr>))"

lemma queue_of_drop [simp]: "queue_of w (drop_client_if_idle c s) = queue_of w s"
  by (simp add: queue_of_def drop_client_if_idle_def split: option.splits)

function take_loop ::
  "nat \<Rightarrow> int \<Rightarrow> bool \<Rightarrow> will_entry list \<Rightarrow> will_scheduler \<Rightarrow> will_entry list \<times> will_scheduler" where
  "take_loop w now flush_all due s =
     (case queue_of w s of
        [] \<Rightarrow> (due, s)
      | e # q \<Rightarrow>
          if flush_all \<or> we_due e \<le> now then
            let s = s\<lparr>queues := (queues s)(w \<mapsto> q)\<rparr> in
            (case generations s (we_client e) of
               None \<Rightarrow> take_loop w now flush_all due s
             | Some st \<Rightarrow>
                 let st = st\<lparr>gen_queued := forget_queued (we_addr e) (gen_queued st)\<rparr>;
                     s = s\<lparr>generations := (generations s)(we_client e \<mapsto> st)\<rparr>
                 in if we_generation e \<notin> gen_live st
                    then take_loop w now flush_all due (drop_client_if_idle (we_client e) s)
                    else take_loop w now flush_all (due @ [e])
                           (s\<lparr>generations := (generations s)(we_client e \<mapsto>
                                st\<lparr>gen_inflight := insert (we_generation e) (gen_inflight st)\<rparr>)\<rparr>))
          else (due, s))"
  by pat_completeness auto
termination
  by (relation "measure (\<lambda>(w, _, _, _, s). length (queue_of w s))") (auto, auto simp: queue_of_def)

declare take_loop.simps [simp del]

definition take_due :: "nat \<Rightarrow> int \<Rightarrow> bool \<Rightarrow> will_scheduler \<Rightarrow> will_entry list \<times> will_scheduler" where
  "take_due w now flush_all s =
     (if queues s w = None then ([], s)
      else case take_loop w now flush_all [] s of
        (due, s) \<Rightarrow> (due, if queue_of w s = [] then s\<lparr>queues := (queues s)(w := None)\<rparr> else s))"

definition generation_matches :: "bytes \<Rightarrow> u64 \<Rightarrow> will_scheduler \<Rightarrow> bool" where
  "generation_matches c g s = (case generations s c of None \<Rightarrow> False | Some st \<Rightarrow> g \<in> gen_live st)"


text \<open>
  The entries taken are handed to coroutines; where no coroutine can be spawned the entry is
  completed at once and counted as rejected.
\<close>

definition launch_due_wills ::
  "(will_entry \<Rightarrow> bool) \<Rightarrow> nat \<Rightarrow> int \<Rightarrow> bool \<Rightarrow> will_scheduler \<Rightarrow> will_entry list \<times> nat \<times> will_scheduler" where
  "launch_due_wills spawn w now flush_all s =
     (case take_due w now flush_all s of
        (due, s) \<Rightarrow>
          (filter spawn due, length (filter (\<lambda>e. \<not> spawn e) due),
           fold (\<lambda>e s. if spawn e then s else complete (we_client e) (we_generation e) s) due s))"

text \<open>The operations the rest of the broker calls, each under the mutex; the result is what was launched.\<close>

datatype will_op =
    Schedule will_entry
  | Cancel bytes int
  | ExpireNow bytes
  | ObserveConnect bytes bool bool int
  | Complete bytes u64
  | LaunchDue "will_entry \<Rightarrow> bool" nat int bool

primrec run_op :: "will_op \<Rightarrow> will_scheduler \<Rightarrow> will_entry list \<times> will_scheduler" where
  "run_op (Schedule e) s = ([], schedule e s)"
| "run_op (Cancel c now) s = ([], cancel_wills c now s)"
| "run_op (ExpireNow c) s = ([], expire_now c s)"
| "run_op (ObserveConnect c clean present now) s = ([], will_observe_connect c clean present now s)"
| "run_op (Complete c g) s = ([], complete c g s)"
| "run_op (LaunchDue spawn w now flush_all) s =
     (case launch_due_wills spawn w now flush_all s of (launched, _, s) \<Rightarrow> (launched, s))"

definition run_ops :: "will_op list \<Rightarrow> will_scheduler \<Rightarrow> will_scheduler" where
  "run_ops = fold (\<lambda>op s. snd (run_op op s))"


subsection \<open>The queues\<close>

definition pending :: "will_scheduler \<Rightarrow> will_entry set" where
  "pending s = {e. \<exists>w. e \<in> set (queue_of w s)}"

definition queues_ok :: "will_scheduler \<Rightarrow> bool" where
  "queues_ok s \<longleftrightarrow>
     (\<forall>w. sorted (map we_due (queue_of w s)) \<and> distinct (queue_of w s) \<and> queues s w \<noteq> Some []) \<and>
     (\<forall>w e. e \<in> set (queue_of w s) \<longrightarrow> we_owner e = w \<and> we_client e \<noteq> [] \<and> we_addr e < next_addr s) \<and>
     inj_on we_addr (pending s)"

lemma queues_okD:
  assumes "queues_ok s"
  shows "sorted (map we_due (queue_of w s))" "distinct (queue_of w s)" "queues s w \<noteq> Some []"
    "e \<in> set (queue_of w s) \<Longrightarrow> we_owner e = w" "e \<in> set (queue_of w s) \<Longrightarrow> we_client e \<noteq> []"
    "e \<in> set (queue_of w s) \<Longrightarrow> we_addr e < next_addr s" "inj_on we_addr (pending s)"
  using assms unfolding queues_ok_def by simp_all

lemma pendingI: "e \<in> set (queue_of w s) \<Longrightarrow> e \<in> pending s"
  unfolding pending_def by blast

lemma pending_owner:
  assumes "queues_ok s" shows "e \<in> pending s \<longleftrightarrow> e \<in> set (queue_of (we_owner e) s)"
  using queues_okD(4) [OF assms] unfolding pending_def by blast

lemma set_queue:
  assumes "queues_ok s" shows "set (queue_of w s) = {e \<in> pending s. we_owner e = w}"
  using queues_okD(4) [OF assms] unfolding pending_def by blast

lemma set_emplace [simp]: "set (emplace e q) = insert e (set q)"
proof -
  have "set q = set (takeWhile (\<lambda>x. we_due x \<le> we_due e) q) \<union> set (dropWhile (\<lambda>x. we_due x \<le> we_due e) q)"
    by (simp flip: set_append)
  then show ?thesis unfolding emplace_def by simp
qed

lemma distinct_emplace [simp]: "distinct (emplace e q) \<longleftrightarrow> distinct q \<and> e \<notin> set q"
proof -
  have "mset (takeWhile (\<lambda>x. we_due x \<le> we_due e) q) + mset (dropWhile (\<lambda>x. we_due x \<le> we_due e) q) = mset q"
    by (simp flip: mset_append)
  then have "mset (emplace e q) = mset (e # q)" unfolding emplace_def by simp
  then have "distinct (emplace e q) = distinct (e # q)" by (rule mset_eq_imp_distinct_iff)
  then show ?thesis by auto
qed

lemma sorted_emplace:
  assumes "sorted (map we_due q)" shows "sorted (map we_due (emplace e q))"
  using assms unfolding emplace_def
proof (induction q)
  case (Cons x q)
  show ?case
  proof (cases "we_due x \<le> we_due e")
    case True
    have "\<And>y. y \<in> set (takeWhile (\<lambda>x. we_due x \<le> we_due e) q @ e # dropWhile (\<lambda>x. we_due x \<le> we_due e) q) \<Longrightarrow>
       we_due x \<le> we_due y"
      using Cons.prems True by (auto dest: set_takeWhileD set_dropWhileD)
    then show ?thesis using Cons True by auto
  next
    case False
    then show ?thesis using Cons.prems by auto
  qed
qed simp

lemma entry_at_pending:
  assumes "queues_ok s" "e \<in> pending s" shows "entry_at (ref_of e) s = Some e"
proof -
  let ?q = "queue_of (we_owner e) s"
  have e: "e \<in> set ?q" using assms pending_owner by blast
  have "List.find (\<lambda>x. we_addr x = we_addr e) ?q \<noteq> None" using e by (auto simp: find_None_iff)
  then obtain x where x: "List.find (\<lambda>x. we_addr x = we_addr e) ?q = Some x" by blast
  then have "x \<in> set ?q" "we_addr x = we_addr e" by (auto simp: find_Some_iff)
  then have "x = e" using queues_okD(7) [OF assms(1)] assms(2) pendingI unfolding inj_on_def by blast
  then show ?thesis using x by (simp add: entry_at_def ref_of_def)
qed

lemma ref_of_inj: "queues_ok s \<Longrightarrow> e \<in> pending s \<Longrightarrow> x \<in> pending s \<Longrightarrow> ref_of e = ref_of x \<longleftrightarrow> e = x"
  using queues_okD(7) unfolding ref_of_def inj_on_def by blast

text \<open>Replacing one owner's queue by another list of the same owner's entries.\<close>

lemma queue_of_update:
  "queue_of v (s\<lparr>queues := (queues s)(w := (if q = [] then None else Some q))\<rparr>) = (if v = w then q else queue_of v s)"
  "queue_of v (s\<lparr>queues := (queues s)(w \<mapsto> q)\<rparr>) = (if v = w then q else queue_of v s)"
  by (simp_all add: queue_of_def)

lemma pending_update:
  assumes "queues_ok s" "\<And>v. queue_of v s' = (if v = w then q else queue_of v s)"
  shows "pending s' = {e \<in> pending s. we_owner e \<noteq> w} \<union> set q"
proof (rule set_eqI)
  fix x
  have "x \<in> pending s' \<longleftrightarrow> (\<exists>v. x \<in> set (queue_of v s'))" by (simp add: pending_def)
  also have "\<dots> \<longleftrightarrow> (\<exists>v. v \<noteq> w \<and> x \<in> set (queue_of v s)) \<or> x \<in> set q" unfolding assms(2) by auto
  also have "(\<exists>v. v \<noteq> w \<and> x \<in> set (queue_of v s)) \<longleftrightarrow> x \<in> pending s \<and> we_owner x \<noteq> w"
    using queues_okD(4) [OF assms(1)] by (auto simp: pending_def)
  finally show "x \<in> pending s' \<longleftrightarrow> x \<in> {e \<in> pending s. we_owner e \<noteq> w} \<union> set q" by simp
qed

lemma queue_of_other [simp]:
  "queue_of w (s\<lparr>generations := g\<rparr>) = queue_of w s" "queue_of w (s\<lparr>next_addr := n\<rparr>) = queue_of w s"
  by (simp_all add: queue_of_def)

lemma pending_other [simp]: "pending (s\<lparr>generations := g\<rparr>) = pending s" "pending (s\<lparr>next_addr := n\<rparr>) = pending s"
  by (simp_all add: pending_def)

lemma filter_addr:
  assumes "queues_ok s" "e \<in> pending s"
  shows "filter (\<lambda>x. we_addr x \<noteq> we_addr e) (queue_of (we_owner e) s) = filter (\<lambda>x. x \<noteq> e) (queue_of (we_owner e) s)"
  using queues_okD(7) [OF assms(1)] assms(2) pendingI by (auto intro!: filter_cong simp: inj_on_def)

lemma sorted_filter_due: "sorted (map we_due q) \<Longrightarrow> sorted (map we_due (filter P q))"
  by (simp add: sorted_filter)

lemma erase_entry_ok:
  assumes ok: "queues_ok s" and e: "e \<in> pending s"
  shows "queues_ok (erase_entry (ref_of e) s)" "pending (erase_entry (ref_of e) s) = pending s - {e}"
    "generations (erase_entry p s) = generations s" "next_addr (erase_entry p s) = next_addr s"
proof -
  let ?s = "erase_entry (ref_of e) s" and ?q = "filter (\<lambda>x. x \<noteq> e) (queue_of (we_owner e) s)"
  have s: "?s = s\<lparr>queues := (queues s)(we_owner e := (if ?q = [] then None else Some ?q))\<rparr>"
    unfolding erase_entry_def ref_of_def fst_conv snd_conv filter_addr [OF ok e] Let_def by (rule refl)
  have q: "queue_of v ?s = (if v = we_owner e then ?q else queue_of v s)" for v
    unfolding s by (rule queue_of_update)
  show p: "pending ?s = pending s - {e}"
    unfolding pending_update [OF ok q] set_filter set_queue [OF ok] using e by auto
  show "queues_ok ?s"
    unfolding queues_ok_def p
  proof (intro conjI allI impI)
    fix w x
    show "sorted (map we_due (queue_of w ?s))" "distinct (queue_of w ?s)"
      using queues_okD(1,2) [OF ok] by (simp_all add: q sorted_filter_due)
    show "queues ?s w \<noteq> Some []" using queues_okD(3) [OF ok] by (simp add: s)
    assume "x \<in> set (queue_of w ?s)"
    then have "x \<in> set (queue_of w s)" by (auto simp: q split: if_splits)
    then show "we_owner x = w" "we_client x \<noteq> []" "we_addr x < next_addr ?s"
      using queues_okD(4-6) [OF ok] by (simp_all add: s)
  next
    show "inj_on we_addr (pending s - {e})" using queues_okD(7) [OF ok] by (rule inj_on_diff)
  qed
qed (simp_all add: erase_entry_def Let_def)


lemma mset_swap_remove:
  assumes "i < length xs" shows "mset (swap_remove i xs) = mset xs - {#xs ! i#}"
proof -
  obtain ys y where xs: "xs = ys @ [y]" using assms by (cases xs rule: rev_cases) auto
  show ?thesis
  proof (cases "i = length ys")
    case True
    then show ?thesis by (simp add: xs swap_remove_def)
  next
    case False
    then have i: "i < length ys" using assms xs by simp
    then have "swap_remove i xs = ys[i := y]" by (simp add: xs swap_remove_def list_update_append butlast_append)
    then show ?thesis using i by (simp add: xs nth_append mset_update)
  qed
qed

lemma swap_remove_simps [simp]:
  "length (swap_remove i xs) = length xs - 1"
  "i < length xs \<Longrightarrow> j < i \<Longrightarrow> swap_remove i xs ! j = xs ! j"
  by (simp_all add: swap_remove_def nth_butlast)

lemma swap_remove_distinct:
  assumes "i < length xs" "distinct xs"
  shows "distinct (swap_remove i xs)" "set (swap_remove i xs) = set xs - {xs ! i}"
proof -
  have m: "mset (swap_remove i xs) = mset (remove1 (xs ! i) xs)" using mset_swap_remove [OF assms(1)] by simp
  then show "distinct (swap_remove i xs)"
    using mset_eq_imp_distinct_iff [OF m] distinct_remove1 [OF assms(2)] by simp
  have "set (swap_remove i xs) = set (remove1 (xs ! i) xs)" using m by (rule mset_eq_setD)
  then show "set (swap_remove i xs) = set xs - {xs ! i}" using assms(2) by simp
qed

lemma forget_queued_distinct:
  assumes "distinct xs" "p \<in> set xs" "\<And>x. x \<in> set xs \<Longrightarrow> snd x = snd p \<Longrightarrow> x = p"
  shows "distinct (forget_queued (snd p) xs)" "set (forget_queued (snd p) xs) = set xs - {p}"
proof -
  let ?is = "filter (\<lambda>i. snd (xs ! i) = snd p) [0..<length xs]"
  obtain k where "k < length xs" "xs ! k = p" using assms(2) by (auto simp: in_set_conv_nth)
  then have "k \<in> set ?is" by simp
  then obtain i js where c: "?is = i # js" by (cases ?is) auto
  then have "i \<in> set ?is" by simp
  then have i: "i < length xs" "snd (xs ! i) = snd p" by auto
  then have p: "xs ! i = p" using assms(3) nth_mem by blast
  have "forget_queued (snd p) xs = swap_remove i xs" by (simp add: forget_queued_def c)
  then show "distinct (forget_queued (snd p) xs)" "set (forget_queued (snd p) xs) = set xs - {p}"
    using swap_remove_distinct [OF i(1) assms(1)] p by simp_all
qed


subsection \<open>The numbers of a client\<close>

definition client_ok :: "client_generations \<Rightarrow> will_entry set \<Rightarrow> bool" where
  "client_ok st E \<longleftrightarrow>
     distinct (gen_queued st) \<and> set (gen_queued st) = ref_of ` E \<and> inj_on we_generation E \<and>
     gen_inflight st \<inter> we_generation ` E = {} \<and> gen_live st = gen_inflight st \<union> we_generation ` E \<and>
     (\<forall>g\<in>gen_live st. g \<le> gen_next st)"

definition of_client :: "bytes \<Rightarrow> will_scheduler \<Rightarrow> will_entry set" where
  "of_client c s = {e \<in> pending s. we_client e = c}"

definition sched_ok :: "will_scheduler \<Rightarrow> bool" where
  "sched_ok s \<longleftrightarrow> queues_ok s \<and>
     (\<forall>c. generations s c = None \<longrightarrow> of_client c s = {}) \<and>
     (\<forall>c st. generations s c = Some st \<longrightarrow>
        client_ok st (of_client c s) \<and> gen_live st \<noteq> {} \<and> unat (gen_next st) \<le> next_addr s)"

definition inflight :: "will_scheduler \<Rightarrow> (bytes \<times> u64) set" where
  "inflight s = {(c, g). \<exists>st. generations s c = Some st \<and> g \<in> gen_inflight st}"

lemma client_okD:
  assumes "client_ok st E"
  shows "distinct (gen_queued st)" "set (gen_queued st) = ref_of ` E" "inj_on we_generation E"
    "gen_inflight st \<inter> we_generation ` E = {}" "gen_live st = gen_inflight st \<union> we_generation ` E"
    "g \<in> gen_live st \<Longrightarrow> g \<le> gen_next st"
  using assms unfolding client_ok_def by simp_all

lemma client_ok_diff:
  assumes ok: "client_ok st E" and e: "e \<in> E"
    and q: "distinct q" "set q = set (gen_queued st) - {ref_of e}" and inj: "inj_on ref_of E"
  shows "client_ok (st\<lparr>gen_live := gen_live st - {we_generation e}, gen_queued := q\<rparr>) (E - {e})"
    "client_ok (st\<lparr>gen_queued := q, gen_inflight := insert (we_generation e) (gen_inflight st)\<rparr>) (E - {e})"
proof -
  have r: "ref_of ` E - {ref_of e} = ref_of ` (E - {e})" using inj e by (auto simp: inj_on_def)
  have g: "we_generation ` (E - {e}) = we_generation ` E - {we_generation e}"
    using client_okD(3) [OF ok] e by (auto simp: inj_on_def)
  have i: "inj_on we_generation (E - {e})" using client_okD(3) [OF ok] by (rule inj_on_diff)
  have n: "we_generation e \<notin> gen_inflight st" using client_okD(4) [OF ok] e by blast
  show "client_ok (st\<lparr>gen_live := gen_live st - {we_generation e}, gen_queued := q\<rparr>) (E - {e})"
    unfolding client_ok_def g
    using q i n r client_okD(2,4-6) [OF ok] by auto
  show "client_ok (st\<lparr>gen_queued := q, gen_inflight := insert (we_generation e) (gen_inflight st)\<rparr>) (E - {e})"
    unfolding client_ok_def g
    using q i n r e client_okD(2,4-6) [OF ok] by auto
qed

lemma ref_of_inj_on: "queues_ok s \<Longrightarrow> inj_on ref_of (of_client c s)"
  using ref_of_inj unfolding inj_on_def of_client_def by blast

lemma suppress_loop_ok:
  assumes "queues_ok s" "client_ok st (of_client c s)"
    "\<forall>j<i. \<forall>e. entry_at (gen_queued st ! j) s = Some e \<longrightarrow> we_due e \<le> now"
    "i \<le> length (gen_queued st)" "suppress_loop now i st s = (st', s')"
  shows "queues_ok s' \<and> client_ok st' (of_client c s') \<and>
     pending s' = pending s - {e. we_client e = c \<and> now < we_due e} \<and>
     generations s' = generations s \<and> next_addr s' = next_addr s \<and>
     gen_inflight st' = gen_inflight st \<and> gen_next st' = gen_next st"
  using assms
proof (induction now i st s arbitrary: st' s' rule: suppress_loop.induct)
  case (1 now i st s)
  note ok = "1.prems"(1) and cl = "1.prems"(2)
  show ?case
  proof (cases "i < length (gen_queued st)")
    case False
    then have r: "st' = st" "s' = s" using "1.prems"(5) by (simp_all add: suppress_loop.simps)
    have "we_due e \<le> now" if "e \<in> pending s" "we_client e = c" for e
    proof -
      have "ref_of e \<in> set (gen_queued st)" using that client_okD(2) [OF cl] by (simp add: of_client_def)
      then obtain j where "j < i" "gen_queued st ! j = ref_of e"
        using False "1.prems"(4) by (auto simp: in_set_conv_nth)
      then show ?thesis using "1.prems"(3) entry_at_pending [OF ok that(1)] by simp
    qed
    then have "pending s = pending s - {e. we_client e = c \<and> now < we_due e}" by force
    then show ?thesis using ok cl r by simp
  next
    case True
    let ?p = "gen_queued st ! i"
    have "?p \<in> ref_of ` of_client c s" using True client_okD(2) [OF cl] nth_mem by blast
    then obtain e where e: "?p = ref_of e" "e \<in> pending s" "we_client e = c" by (auto simp: of_client_def)
    note at = entry_at_pending [OF ok e(2)]
    show ?thesis
    proof (cases "now < we_due e")
      case False
      have "suppress_loop now (Suc i) st s = (st', s')"
        using "1.prems"(5) True at e(1) False by (simp add: suppress_loop.simps [of now i])
      moreover have "\<forall>j<Suc i. \<forall>e. entry_at (gen_queued st ! j) s = Some e \<longrightarrow> we_due e \<le> now"
        using "1.prems"(3) at e(1) False by (auto simp: less_Suc_eq)
      ultimately show ?thesis using "1.IH"(2) [OF True, of e] at e(1) False ok cl True by simp
    next
      case Due: True
      let ?st = "st\<lparr>gen_live := gen_live st - {we_generation e}, gen_queued := swap_remove i (gen_queued st)\<rparr>"
      let ?s = "erase_entry ?p s"
      note er = erase_entry_ok [OF ok e(2), folded e(1)]
      have "suppress_loop now i ?st ?s = (st', s')"
        using "1.prems"(5) True at e(1) Due by (simp add: suppress_loop.simps [of now i st])
      moreover have oc: "of_client c ?s = of_client c s - {e}" using er(2) by (auto simp: of_client_def)
      moreover have "client_ok ?st (of_client c s - {e})"
        using client_ok_diff(1) [OF cl _ _ _ ref_of_inj_on [OF ok], of e "swap_remove i (gen_queued st)"]
          swap_remove_distinct [OF True client_okD(1) [OF cl]] e by (simp add: of_client_def)
      moreover have "\<forall>j<i. \<forall>x. entry_at (gen_queued ?st ! j) ?s = Some x \<longrightarrow> we_due x \<le> now"
      proof (intro allI impI)
        fix j x assume j: "j < i" and x: "entry_at (gen_queued ?st ! j) ?s = Some x"
        have j': "gen_queued ?st ! j = gen_queued st ! j" using j True by simp
        then have "gen_queued st ! j \<in> ref_of ` of_client c s" using j True client_okD(2) [OF cl] by force
        then obtain y where y: "gen_queued st ! j = ref_of y" "y \<in> pending s" by (auto simp: of_client_def)
        have "gen_queued st ! j \<noteq> ?p" using j True nth_eq_iff_index_eq [OF client_okD(1) [OF cl], of j i] by simp
        then have "y \<noteq> e" using y e(1) by auto
        then have "entry_at (ref_of y) ?s = Some y" using entry_at_pending [OF er(1)] y er(2) by simp
        then have "x = y" using x j' y by simp
        then show "we_due x \<le> now" using "1.prems"(3) j y entry_at_pending [OF ok y(2)] by simp
      qed
      moreover have "i \<le> length (gen_queued ?st)" using True by simp
      ultimately have "queues_ok s' \<and> client_ok st' (of_client c s') \<and>
         pending s' = pending ?s - {e. we_client e = c \<and> now < we_due e} \<and>
         generations s' = generations ?s \<and> next_addr s' = next_addr ?s \<and>
         gen_inflight st' = gen_inflight ?st \<and> gen_next st' = gen_next ?st"
        using "1.IH"(1) [OF True, of e] at e(1) Due er(1) by simp
      then show ?thesis using er(2-4) e Due by auto
    qed
  qed
qed


definition others_ok :: "bytes \<Rightarrow> will_scheduler \<Rightarrow> bool" where
  "others_ok c s \<longleftrightarrow> (\<forall>d. d \<noteq> c \<longrightarrow>
     (case generations s d of
        None \<Rightarrow> of_client d s = {}
      | Some st \<Rightarrow> client_ok st (of_client d s) \<and> gen_live st \<noteq> {} \<and> unat (gen_next st) \<le> next_addr s))"

lemma sched_okD:
  assumes "sched_ok s"
  shows "queues_ok s" "others_ok c s" "generations s c = None \<Longrightarrow> of_client c s = {}"
    "generations s c = Some st \<Longrightarrow> client_ok st (of_client c s)"
    "generations s c = Some st \<Longrightarrow> unat (gen_next st) \<le> next_addr s"
    "generations s c = Some st \<Longrightarrow> gen_live st \<noteq> {}"
  using assms unfolding sched_ok_def others_ok_def by (simp_all split: option.splits)

lemma others_okD:
  assumes "others_ok c s" "d \<noteq> c"
  shows "generations s d = None \<Longrightarrow> of_client d s = {}"
    "generations s d = Some st \<Longrightarrow> client_ok st (of_client d s) \<and> gen_live st \<noteq> {} \<and> unat (gen_next st) \<le> next_addr s"
  using assms(1) [unfolded others_ok_def, rule_format, OF assms(2)] by simp_all

lemma others_ok_cong:
  assumes "others_ok c s" "\<And>d. d \<noteq> c \<Longrightarrow> generations s' d = generations s d"
    "\<And>d. d \<noteq> c \<Longrightarrow> of_client d s' = of_client d s" "next_addr s \<le> next_addr s'"
  shows "others_ok c s'"
  unfolding others_ok_def
proof (intro allI impI)
  fix d assume d: "d \<noteq> c"
  then show "case generations s' d of
        None \<Rightarrow> of_client d s' = {}
      | Some st \<Rightarrow> client_ok st (of_client d s') \<and> gen_live st \<noteq> {} \<and> unat (gen_next st) \<le> next_addr s'"
    using assms(1) [unfolded others_ok_def, rule_format, OF d] assms(2,3) [OF d] assms(4)
    by (cases "generations s d") simp_all
qed

lemma queues_ok_other [simp]: "queues_ok (s\<lparr>generations := g\<rparr>) = queues_ok s"
  by (simp add: queues_ok_def)

lemma of_client_other [simp]: "of_client c (s\<lparr>generations := g\<rparr>) = of_client c s"
  by (simp add: of_client_def)

lemma sched_ok_set:
  assumes "queues_ok s" "others_ok c s" "client_ok st (of_client c s)" "unat (gen_next st) \<le> next_addr s"
    "gen_live st \<noteq> {}"
  shows "sched_ok (s\<lparr>generations := (generations s)(c \<mapsto> st)\<rparr>)"
  unfolding sched_ok_def
proof (intro conjI allI impI)
  show "queues_ok (s\<lparr>generations := (generations s)(c \<mapsto> st)\<rparr>)" using assms(1) by simp
next
  fix d assume "generations (s\<lparr>generations := (generations s)(c \<mapsto> st)\<rparr>) d = None"
  then have "d \<noteq> c" "generations s d = None" by (auto split: if_splits)
  then show "of_client d (s\<lparr>generations := (generations s)(c \<mapsto> st)\<rparr>) = {}"
    using others_okD(1) [OF assms(2)] by simp
next
  fix d st' assume d: "generations (s\<lparr>generations := (generations s)(c \<mapsto> st)\<rparr>) d = Some st'"
  have "client_ok st' (of_client d s) \<and> gen_live st' \<noteq> {} \<and> unat (gen_next st') \<le> next_addr s"
  proof (cases "d = c")
    case True
    then show ?thesis using d assms(3-5) by simp
  next
    case False
    then have "generations s d = Some st'" using d by simp
    then show ?thesis using others_okD(2) [OF assms(2) False] by simp
  qed
  then show "client_ok st' (of_client d (s\<lparr>generations := (generations s)(c \<mapsto> st)\<rparr>))" "gen_live st' \<noteq> {}"
    "unat (gen_next st') \<le> next_addr (s\<lparr>generations := (generations s)(c \<mapsto> st)\<rparr>)" by simp_all
qed

lemma sched_ok_unset:
  assumes "queues_ok s" "others_ok c s" "of_client c s = {}"
  shows "sched_ok (s\<lparr>generations := (generations s)(c := None)\<rparr>)"
  unfolding sched_ok_def
proof (intro conjI allI impI)
  show "queues_ok (s\<lparr>generations := (generations s)(c := None)\<rparr>)" using assms(1) by simp
next
  fix d assume "generations (s\<lparr>generations := (generations s)(c := None)\<rparr>) d = None"
  then have "d = c \<or> d \<noteq> c \<and> generations s d = None" by (auto split: if_splits)
  then show "of_client d (s\<lparr>generations := (generations s)(c := None)\<rparr>) = {}"
    using others_okD(1) [OF assms(2)] assms(3) by auto
next
  fix d st' assume d: "generations (s\<lparr>generations := (generations s)(c := None)\<rparr>) d = Some st'"
  then have "d \<noteq> c" "generations s d = Some st'" by (auto split: if_splits)
  then have "client_ok st' (of_client d s) \<and> gen_live st' \<noteq> {} \<and> unat (gen_next st') \<le> next_addr s"
    using others_okD(2) [OF assms(2)] by simp
  then show "client_ok st' (of_client d (s\<lparr>generations := (generations s)(c := None)\<rparr>))" "gen_live st' \<noteq> {}"
    "unat (gen_next st') \<le> next_addr (s\<lparr>generations := (generations s)(c := None)\<rparr>)" by simp_all
qed

text \<open>Storing a client's numbers and dropping the client when nothing is left.\<close>

lemma drop_idle_ok:
  assumes "queues_ok s" "others_ok c s" "client_ok st (of_client c s)" "unat (gen_next st) \<le> next_addr s"
  defines "s' \<equiv> drop_client_if_idle c (s\<lparr>generations := (generations s)(c \<mapsto> st)\<rparr>)"
  shows "sched_ok s'" "pending s' = pending s" "next_addr s' = next_addr s"
    "inflight s' = {x \<in> inflight s. fst x \<noteq> c} \<union> Pair c ` gen_inflight st"
proof -
  have idle: "gen_queued st = [] \<and> gen_live st = {} \<and> gen_inflight st = {} \<longleftrightarrow> gen_live st = {}"
    using client_okD(2,5) [OF assms(3)] by auto
  show "sched_ok s'"
  proof (cases "gen_live st = {}")
    case True
    then have "s' = s\<lparr>generations := (generations s)(c := None)\<rparr>"
      unfolding s'_def drop_client_if_idle_def using idle by simp
    moreover have "of_client c s = {}" using True client_okD(5) [OF assms(3)] by simp
    ultimately show ?thesis using sched_ok_unset [OF assms(1,2)] by simp
  next
    case False
    then have "s' = s\<lparr>generations := (generations s)(c \<mapsto> st)\<rparr>"
      unfolding s'_def drop_client_if_idle_def using idle by auto
    then show ?thesis using sched_ok_set [OF assms(1-4) False] by simp
  qed
  show "pending s' = pending s" "next_addr s' = next_addr s"
    by (simp_all add: s'_def drop_client_if_idle_def)
  show "inflight s' = {x \<in> inflight s. fst x \<noteq> c} \<union> Pair c ` gen_inflight st"
    by (auto simp: s'_def drop_client_if_idle_def inflight_def split: if_splits)
qed


subsection \<open>What the operations do\<close>

lemma suppress_pending_ok:
  fixes c now
  assumes "sched_ok s"
  defines "s' \<equiv> suppress_pending c now s"
  shows "sched_ok s'" "pending s' = pending s - {e. we_client e = c \<and> now < we_due e}"
    "inflight s' = inflight s" "next_addr s' = next_addr s"
proof -
  note ok = sched_okD [OF assms(1)]
  have "sched_ok s' \<and> pending s' = pending s - {e. we_client e = c \<and> now < we_due e} \<and>
    inflight s' = inflight s \<and> next_addr s' = next_addr s"
  proof (cases "generations s c")
    case None
    then have "pending s = pending s - {e. we_client e = c \<and> now < we_due e}"
      using ok(3) by (auto simp: of_client_def)
    then show ?thesis using None assms(1) by (simp add: s'_def suppress_pending_def)
  next
    case (Some st)
    obtain st1 s1 where l: "suppress_loop now 0 st s = (st1, s1)" by fastforce
    have L: "queues_ok s1" "client_ok st1 (of_client c s1)"
      "pending s1 = pending s - {e. we_client e = c \<and> now < we_due e}"
      "generations s1 = generations s" "next_addr s1 = next_addr s"
      "gen_inflight st1 = gen_inflight st" "gen_next st1 = gen_next st"
      using suppress_loop_ok [OF ok(1) ok(4) [OF Some], of 0 now st1 s1] l by simp_all
    have "of_client d s1 = of_client d s" if "d \<noteq> c" for d
      unfolding of_client_def L(3) using that by auto
    then have o: "others_ok c s1" using others_ok_cong [OF ok(2)] L(4,5) by simp
    have s': "s' = drop_client_if_idle c (s1\<lparr>generations := (generations s1)(c \<mapsto> st1)\<rparr>)"
      by (simp add: s'_def suppress_pending_def Some l)
    note D = drop_idle_ok [OF L(1) o L(2), folded s', unfolded L(5,7), OF ok(5) [OF Some]]
    have "inflight s1 = inflight s" by (simp add: inflight_def L(4))
    moreover have "{x \<in> inflight s. fst x \<noteq> c} \<union> Pair c ` gen_inflight st = inflight s"
      using Some by (auto simp: inflight_def)
    ultimately show ?thesis using D L by simp
  qed
  then show "sched_ok s'" "pending s' = pending s - {e. we_client e = c \<and> now < we_due e}"
    "inflight s' = inflight s" "next_addr s' = next_addr s" by simp_all
qed


lemma emplace_ok:
  assumes ok: "queues_ok s" and e: "we_addr e \<notin> we_addr ` pending s" "we_client e \<noteq> []" "we_addr e < n" "next_addr s \<le> n"
  defines "s' \<equiv> s\<lparr>queues := (queues s)(we_owner e \<mapsto> emplace e (queue_of (we_owner e) s)), next_addr := n\<rparr>"
  shows "queues_ok s'" "pending s' = insert e (pending s)"
proof -
  have q: "queue_of v s' = (if v = we_owner e then emplace e (queue_of (we_owner e) s) else queue_of v s)" for v
    by (simp add: s'_def queue_of_def)
  show p: "pending s' = insert e (pending s)"
    unfolding pending_update [OF ok q] set_emplace set_queue [OF ok] by auto
  have n: "e \<notin> pending s" using e(1) by blast
  show "queues_ok s'"
    unfolding queues_ok_def p
  proof (intro conjI allI impI)
    fix w x
    show "sorted (map we_due (queue_of w s'))" "distinct (queue_of w s')"
      using queues_okD(1,2) [OF ok] n pendingI by (auto simp: q sorted_emplace)
    show "queues s' w \<noteq> Some []" using queues_okD(3) [OF ok] by (simp add: s'_def emplace_def)
    assume "x \<in> set (queue_of w s')"
    then have "x = e \<and> w = we_owner e \<or> x \<in> set (queue_of w s)" by (auto simp: q split: if_splits)
    then show "we_owner x = w" "we_client x \<noteq> []" "we_addr x < next_addr s'"
      using queues_okD(4-6) [OF ok, of x w] e by (auto simp: s'_def)
  next
    show "inj_on we_addr (insert e (pending s))" using queues_okD(7) [OF ok] e(1) by (simp add: n)
  qed
qed

lemma client_ok_new: "of_client c s = {} \<Longrightarrow> client_ok new_generations (of_client c s)"
  by (simp add: client_ok_def new_generations_def)

lemma client_generations_of_ok:
  assumes ok: "sched_ok s"
  shows "client_ok (client_generations_of c s) (of_client c s)" "unat (gen_next (client_generations_of c s)) \<le> next_addr s"
    "inflight s = {x \<in> inflight s. fst x \<noteq> c} \<union> Pair c ` gen_inflight (client_generations_of c s)"
proof -
  have "client_ok (client_generations_of c s) (of_client c s) \<and>
     unat (gen_next (client_generations_of c s)) \<le> next_addr s"
  proof (cases "generations s c")
    case None
    then show ?thesis using client_ok_new [OF sched_okD(3) [OF ok None]]
      by (simp add: client_generations_of_def new_generations_def)
  next
    case (Some st)
    then show ?thesis using sched_okD(4,5) [OF ok Some] by (simp add: client_generations_of_def)
  qed
  then show "client_ok (client_generations_of c s) (of_client c s)"
    "unat (gen_next (client_generations_of c s)) \<le> next_addr s" by simp_all
  show "inflight s = {x \<in> inflight s. fst x \<noteq> c} \<union> Pair c ` gen_inflight (client_generations_of c s)"
    by (auto simp: client_generations_of_def inflight_def new_generations_def split: option.splits)
qed

lemma next_generation_eq:
  assumes "unat (gen_next st) < 2 ^ 64 - 1"
  shows "next_generation st = gen_next st + 1" "unat (next_generation st) = Suc (unat (gen_next st))"
proof -
  have u: "unat (gen_next st + 1) = Suc (unat (gen_next st))" using assms by (simp add: unat_word_ariths)
  then have "gen_next st + 1 \<noteq> 0" by (metis nat.distinct(1) unat_0)
  then show "next_generation st = gen_next st + 1" by (simp add: next_generation_def Let_def)
  with u show "unat (next_generation st) = Suc (unat (gen_next st))" by simp
qed

lemma numbered_simps [simp]:
  "we_client (numbered e s) = we_client e" "we_owner (numbered e s) = we_owner e" "we_due (numbered e s) = we_due e"
  "we_addr (numbered e s) = next_addr s"
  "we_generation (numbered e s) = next_generation (client_generations_of (we_client e) s)"
  by (simp_all add: numbered_def)

lemma client_ok_insert:
  assumes ok: "client_ok st E" and g: "gen_next st < we_generation e" and r: "ref_of e \<notin> ref_of ` E"
  shows "client_ok (st\<lparr>gen_next := we_generation e, gen_live := insert (we_generation e) (gen_live st),
     gen_queued := gen_queued st @ [ref_of e]\<rparr>) (insert e E)"
proof -
  have n: "we_generation e \<notin> gen_live st" using client_okD(6) [OF ok] g by fastforce
  then have n': "we_generation e \<notin> gen_inflight st" "we_generation e \<notin> we_generation ` E"
    using client_okD(5) [OF ok] by auto
  have le: "\<forall>x\<in>gen_live st. x \<le> we_generation e" using client_okD(6) [OF ok] g by fastforce
  have "e \<notin> E" using n'(2) by blast
  then have "inj_on we_generation (insert e E)" using client_okD(3) [OF ok] n'(2) by simp
  then show ?thesis
    unfolding client_ok_def using client_okD(1,2,4,5) [OF ok] n' r le by auto
qed

lemma schedule_ok:
  assumes ok: "sched_ok s" and e: "we_client e \<noteq> []" and b: "next_addr s < 2 ^ 64 - 1"
  shows "sched_ok (schedule e s)" "pending (schedule e s) = insert (numbered e s) (pending s)"
    "inflight (schedule e s) = inflight s" "next_addr (schedule e s) = Suc (next_addr s)"
    "numbered e s \<notin> pending s" "\<not> generation_matches (we_client e) (we_generation (numbered e s)) s"
proof -
  let ?c = "we_client e" and ?e = "numbered e s"
  let ?st = "client_generations_of ?c s"
  let ?st' = "?st\<lparr>gen_next := we_generation ?e, gen_live := insert (we_generation ?e) (gen_live ?st),
                  gen_queued := gen_queued ?st @ [ref_of ?e]\<rparr>"
  define s1 where "s1 = s\<lparr>queues := (queues s)(we_owner ?e \<mapsto> emplace ?e (queue_of (we_owner ?e) s)),
    next_addr := Suc (next_addr s)\<rparr>"
  have s': "schedule e s = s1\<lparr>generations := (generations s1)(?c \<mapsto> ?st')\<rparr>"
    using e by (simp add: schedule_def s1_def Let_def)
  note C = client_generations_of_ok [OF ok, of ?c]
  have g: "next_generation ?st = gen_next ?st + 1" "unat (next_generation ?st) = Suc (unat (gen_next ?st))"
    using next_generation_eq [of ?st] C(2) b by linarith+
  have lt: "gen_next ?st < we_generation ?e" using g(2) by (simp add: word_less_nat_alt)
  have a: "we_addr ?e \<notin> we_addr ` pending s"
    using queues_okD(6) [OF sched_okD(1) [OF ok]] by (force simp: pending_def)
  then show n: "?e \<notin> pending s" by blast
  have E: "queues_ok s1" "pending s1 = insert ?e (pending s)"
    using emplace_ok [OF sched_okD(1) [OF ok] a, of "Suc (next_addr s)"] e by (simp_all add: s1_def)
  have oc: "of_client ?c s1 = insert ?e (of_client ?c s)" using E(2) by (auto simp: of_client_def)
  have r: "ref_of ?e \<notin> ref_of ` of_client ?c s" using a by (auto simp: ref_of_def of_client_def)
  have o: "others_ok ?c s1"
  proof (rule others_ok_cong [OF sched_okD(2) [OF ok]])
    show "of_client d s1 = of_client d s" if "d \<noteq> ?c" for d
      unfolding of_client_def E(2) using that by auto
  qed (simp_all add: s1_def)
  have "client_ok ?st' (of_client ?c s1)" unfolding oc by (rule client_ok_insert [OF C(1) lt r])
  moreover have "unat (gen_next ?st') \<le> next_addr s1" using g(2) C(2) by (simp add: s1_def)
  ultimately show "sched_ok (schedule e s)" unfolding s' using sched_ok_set [OF E(1) o] by simp
  show "pending (schedule e s) = insert ?e (pending s)" unfolding s' by (simp add: E(2))
  show "next_addr (schedule e s) = Suc (next_addr s)" unfolding s' by (simp add: s1_def)
  have "inflight (schedule e s) = {x \<in> inflight s. fst x \<noteq> ?c} \<union> Pair ?c ` gen_inflight ?st"
    unfolding s' by (auto simp: inflight_def s1_def split: if_splits)
  then show "inflight (schedule e s) = inflight s" using C(3) by simp
  show "\<not> generation_matches ?c (we_generation ?e) s"
    using client_okD(6) [OF C(1)] lt
    by (auto simp: generation_matches_def client_generations_of_def split: option.splits dest: leD)
qed


definition made_due :: "(nat \<times> nat) set \<Rightarrow> will_entry \<Rightarrow> will_entry" where
  "made_due P e = (if ref_of e \<in> P then e\<lparr>we_due := time_min\<rparr> else e)"

lemma made_due_simps [simp]:
  "ref_of (made_due P e) = ref_of e" "we_client (made_due P e) = we_client e" "we_generation (made_due P e) = we_generation e"
  by (simp_all add: made_due_def ref_of_def)

lemma expire_one_ok:
  assumes ok: "queues_ok s" and e: "e \<in> pending s"
  defines "s' \<equiv> expire_one (ref_of e) s"
  shows "queues_ok s'" "pending s' = made_due {ref_of e} ` pending s"
    "generations s' = generations s" "next_addr s' = next_addr s"
proof -
  define s1 where "s1 = erase_entry (ref_of e) s"
  define e' where "e' = e\<lparr>we_due := time_min\<rparr>"
  note er = erase_entry_ok [OF ok e, folded s1_def]
  have e': "we_owner e' = we_owner e" "we_addr e' = we_addr e" "we_client e' = we_client e" by (simp_all add: e'_def)
  have q1: "queue_of (we_owner e) s1 = filter (\<lambda>x. we_addr x \<noteq> we_addr e) (queue_of (we_owner e) s)"
    by (simp add: s1_def erase_entry_def ref_of_def Let_def queue_of_def)
  have s': "s' = s1\<lparr>queues := (queues s1)(we_owner e' \<mapsto> emplace e' (queue_of (we_owner e') s1)), next_addr := next_addr s1\<rparr>"
    unfolding s'_def expire_one_def entry_at_pending [OF ok e] option.case e' q1
    by (simp add: s1_def erase_entry_def ref_of_def Let_def e'_def)
  have a: "we_addr e' \<notin> we_addr ` pending s1"
    using queues_okD(7) [OF ok] e unfolding er(2) e' inj_on_def by auto
  have b: "we_client e' \<noteq> []" "we_addr e' < next_addr s1"
    using queues_okD(5,6) [OF ok] e e' er(4) by (auto simp: pending_def s1_def)
  note E = emplace_ok [OF er(1) a b order_refl, folded s']
  show "queues_ok s'" by (rule E(1))
  have "made_due {ref_of e} ` pending s = insert e' (pending s - {e})"
    using e ref_of_inj [OF ok] by (auto simp: made_due_def e'_def image_iff)
  then show "pending s' = made_due {ref_of e} ` pending s" using E(2) er(2) by simp
  show "generations s' = generations s" "next_addr s' = next_addr s"
    unfolding s' using er(3,4) by (simp_all add: s1_def)
qed

lemma expire_fold_ok:
  assumes "queues_ok s" "set ps \<subseteq> ref_of ` pending s"
  shows "queues_ok (fold expire_one ps s) \<and> pending (fold expire_one ps s) = made_due (set ps) ` pending s \<and>
    generations (fold expire_one ps s) = generations s \<and> next_addr (fold expire_one ps s) = next_addr s"
  using assms
proof (induction ps arbitrary: s)
  case Nil
  have "made_due {} ` pending s = pending s" by (simp add: made_due_def)
  then show ?case using Nil by simp
next
  case (Cons p ps)
  then obtain e where e: "p = ref_of e" "e \<in> pending s" by auto
  let ?s = "expire_one p s"
  note x = expire_one_ok [OF Cons.prems(1) e(2), folded e(1)]
  have "ref_of ` pending ?s = ref_of ` pending s" unfolding x(2) image_image by simp
  then have "set ps \<subseteq> ref_of ` pending ?s" using Cons.prems(2) by simp
  note IH = Cons.IH [OF x(1) this]
  have "made_due (set ps) ` made_due {p} ` pending s = made_due (set (p # ps)) ` pending s"
    unfolding image_image by (rule image_cong) (auto simp: made_due_def ref_of_def)
  then show ?case using IH x by simp
qed

lemma client_ok_image:
  assumes "client_ok st E" "\<And>e. ref_of (f e) = ref_of e" "\<And>e. we_generation (f e) = we_generation e"
  shows "client_ok st (f ` E)"
proof -
  have "inj_on we_generation (f ` E)"
    using client_okD(3) [OF assms(1)] unfolding inj_on_def by (auto simp: assms(3))
  moreover have "ref_of ` f ` E = ref_of ` E" "we_generation ` f ` E = we_generation ` E"
    unfolding image_image assms(2,3) by simp_all
  ultimately show ?thesis using assms(1) unfolding client_ok_def by simp
qed

lemma expire_now_ok:
  fixes c
  assumes ok: "sched_ok s"
  defines "s' \<equiv> expire_now c s"
  shows "sched_ok s'" "pending s' = (\<lambda>e. if we_client e = c then e\<lparr>we_due := time_min\<rparr> else e) ` pending s"
    "inflight s' = inflight s" "next_addr s' = next_addr s"
proof -
  let ?f = "\<lambda>e. if we_client e = c then e\<lparr>we_due := time_min\<rparr> else e"
  note q = sched_okD(1) [OF ok]
  have "sched_ok s' \<and> pending s' = ?f ` pending s \<and> inflight s' = inflight s \<and> next_addr s' = next_addr s"
  proof (cases "c \<noteq> [] \<and> generations s c \<noteq> None")
    case False
    have "we_client e \<noteq> c" if "e \<in> pending s" for e
      using False that sched_okD(3) [OF ok, of c] queues_okD(5) [OF q] by (auto simp: of_client_def pending_def)
    then have "?f ` pending s = pending s" by simp
    then show ?thesis using False ok by (auto simp: s'_def expire_now_def)
  next
    case True
    then obtain st where st: "generations s c = Some st" by blast
    have s': "s' = fold expire_one (gen_queued st) s" using True st by (simp add: s'_def expire_now_def)
    note cl = sched_okD(4) [OF ok st]
    have sub: "set (gen_queued st) \<subseteq> ref_of ` pending s"
      using client_okD(2) [OF cl] by (auto simp: of_client_def)
    have F: "queues_ok s'" "pending s' = made_due (set (gen_queued st)) ` pending s"
       "generations s' = generations s" "next_addr s' = next_addr s"
      using expire_fold_ok [OF q sub] unfolding s' by simp_all
    let ?m = "made_due (set (gen_queued st))"
    have m: "?m e = ?f e" if "e \<in> pending s" for e
      using that ref_of_inj [OF q] unfolding made_due_def client_okD(2) [OF cl] of_client_def by auto
    then have p: "pending s' = ?f ` pending s" unfolding F(2) by (rule image_cong [OF refl])
    have oc: "of_client d s' = ?m ` of_client d s" for d unfolding of_client_def F(2) by auto
    have "sched_ok s'"
      unfolding sched_ok_def oc F(3,4)
      using F(1) client_ok_image [of _ _ ?m] sched_okD(3-6) [OF ok] by simp
    then show ?thesis using p F by (simp add: inflight_def)
  qed
  then show "sched_ok s'" "pending s' = ?f ` pending s" "inflight s' = inflight s" "next_addr s' = next_addr s"
    by simp_all
qed

lemma complete_ok:
  fixes c g
  assumes ok: "sched_ok s"
  defines "s' \<equiv> complete c g s"
  shows "sched_ok s'" "pending s' = pending s" "c \<noteq> [] \<Longrightarrow> inflight s' = inflight s - {(c, g)}" "next_addr s' = next_addr s"
proof -
  have "sched_ok s' \<and> pending s' = pending s \<and> (c \<noteq> [] \<longrightarrow> inflight s' = inflight s - {(c, g)}) \<and> next_addr s' = next_addr s"
  proof (cases "c \<noteq> [] \<and> generations s c \<noteq> None")
    case False
    then show ?thesis using ok by (auto simp: s'_def complete_def inflight_def)
  next
    case True
    then obtain st where st: "generations s c = Some st" by blast
    note q = sched_okD(1) [OF ok] and cl = sched_okD(4) [OF ok st]
    let ?queued = "list_ex (\<lambda>p. case entry_at p s of None \<Rightarrow> False | Some e \<Rightarrow> we_generation e = g) (gen_queued st)"
    define st' where "st' = (if ?queued then st\<lparr>gen_inflight := gen_inflight st - {g}\<rparr>
      else st\<lparr>gen_inflight := gen_inflight st - {g}, gen_live := gen_live st - {g}\<rparr>)"
    have s': "s' = drop_client_if_idle c (s\<lparr>generations := (generations s)(c \<mapsto> st')\<rparr>)"
      using True st by (simp add: s'_def complete_def Let_def st'_def)
    have queued: "?queued \<longleftrightarrow> g \<in> we_generation ` of_client c s"
      unfolding list_ex_iff client_okD(2) [OF cl]
      using entry_at_pending [OF q] by (auto simp: of_client_def image_iff)
    have f: "gen_inflight st' = gen_inflight st - {g}" "gen_next st' = gen_next st" "gen_queued st' = gen_queued st"
      "gen_live st' = (if g \<in> we_generation ` of_client c s then gen_live st else gen_live st - {g})"
      using queued by (simp_all add: st'_def)
    have "client_ok st' (of_client c s)"
      unfolding client_ok_def f using client_okD [OF cl] by auto
    note D = drop_idle_ok [OF q sched_okD(2) [OF ok] this, folded s', unfolded f(2), OF sched_okD(5) [OF ok st]]
    have "inflight s' = inflight s - {(c, g)}" unfolding D(4) f(1) using st by (auto simp: inflight_def)
    then show ?thesis using D by simp
  qed
  then show "sched_ok s'" "pending s' = pending s" "c \<noteq> [] \<Longrightarrow> inflight s' = inflight s - {(c, g)}" "next_addr s' = next_addr s"
    by simp_all
qed


text \<open>\<open>take_due\<close> leaves an empty queue in place until its loop is over.\<close>

definition trimmed :: "nat \<Rightarrow> will_scheduler \<Rightarrow> will_scheduler" where
  "trimmed w s = (if queue_of w s = [] then s\<lparr>queues := (queues s)(w := None)\<rparr> else s)"

lemma queue_of_trimmed [simp]: "queue_of v (trimmed w s) = queue_of v s"
  by (simp add: trimmed_def queue_of_def split: option.splits)

lemma trimmed_simps [simp]:
  "pending (trimmed w s) = pending s" "generations (trimmed w s) = generations s" "next_addr (trimmed w s) = next_addr s"
  "inflight (trimmed w s) = inflight s"
  by (simp add: pending_def) (simp_all add: trimmed_def inflight_def)

lemma take_loop_step:
  assumes ok: "sched_ok s" and q: "queue_of w s = e # q" and d: "flush_all \<or> we_due e \<le> now"
  obtains s1 where "take_loop w now flush_all due s = take_loop w now flush_all (due @ [e]) s1"
    "queue_of w s1 = q" "sched_ok (trimmed w s1)" "pending s1 = pending s - {e}"
    "inflight s1 = insert (we_client e, we_generation e) (inflight s)" "next_addr s1 = next_addr s"
proof -
  let ?c = "we_client e"
  note Q = sched_okD(1) [OF ok]
  have e: "e \<in> pending s" "we_owner e = w" using pendingI [of e w s] queues_okD(4) [OF Q, of e w] q by simp_all
  then have oc: "e \<in> of_client ?c s" by (simp add: of_client_def)
  then obtain st where st: "generations s ?c = Some st" using sched_okD(3) [OF ok, of ?c] by fastforce
  note cl = sched_okD(4) [OF ok st]
  let ?st = "st\<lparr>gen_queued := forget_queued (we_addr e) (gen_queued st),
    gen_inflight := insert (we_generation e) (gen_inflight st)\<rparr>"
  define s0 where "s0 = s\<lparr>queues := (queues s)(w \<mapsto> q)\<rparr>"
  define s1 where "s1 = s0\<lparr>generations := (generations s0)(?c \<mapsto> ?st)\<rparr>"
  have live: "we_generation e \<in> gen_live st" using client_okD(5) [OF cl] oc by blast
  then have step: "take_loop w now flush_all due s = take_loop w now flush_all (due @ [e]) s1"
    using q d st by (simp add: take_loop.simps [of w now flush_all due s] Let_def s1_def s0_def)
  have qs: "queue_of w s1 = q" by (simp add: s1_def s0_def queue_of_update)
  have "e \<notin> set q" using queues_okD(2) [OF Q, of w] q by simp
  then have "filter (\<lambda>x. x \<noteq> e) (queue_of w s) = q" unfolding q by (auto intro: filter_True)
  then have f: "filter (\<lambda>x. we_addr x \<noteq> we_addr e) (queue_of w s) = q"
    using filter_addr [OF Q e(1)] e(2) by simp
  have tr: "trimmed w s0 = erase_entry (ref_of e) s"
    unfolding erase_entry_def ref_of_def fst_conv snd_conv e(2) f Let_def
    by (simp add: trimmed_def s0_def queue_of_update)
  note er = erase_entry_ok [OF Q e(1), folded tr]
  have oc0: "of_client ?c (trimmed w s0) = of_client ?c s - {e}" using er(2) by (auto simp: of_client_def)
  have u: "x = ref_of e" if x: "x \<in> set (gen_queued st)" "snd x = snd (ref_of e)" for x
  proof -
    obtain y where y: "x = ref_of y" "y \<in> pending s"
      using x(1) client_okD(2) [OF cl] by (auto simp: of_client_def)
    then have "y = e" using x(2) e(1) queues_okD(7) [OF Q] by (simp add: ref_of_def inj_on_def)
    then show ?thesis using y by simp
  qed
  have "ref_of e \<in> set (gen_queued st)" using client_okD(2) [OF cl] oc by blast
  note fq = forget_queued_distinct [OF client_okD(1) [OF cl] this u]
  have "client_ok ?st (of_client ?c s - {e})"
    using client_ok_diff(2) [OF cl oc fq ref_of_inj_on [OF Q]] by (simp add: ref_of_def)
  then have cl1: "client_ok ?st (of_client ?c (trimmed w s0))" unfolding oc0 .
  have o: "others_ok ?c (trimmed w s0)"
  proof (rule others_ok_cong [OF sched_okD(2) [OF ok]])
    show "of_client d (trimmed w s0) = of_client d s" if "d \<noteq> ?c" for d
      unfolding of_client_def er(2) using that by auto
  qed (simp_all add: s0_def)
  have "trimmed w s1 = (trimmed w s0)\<lparr>generations := (generations (trimmed w s0))(?c \<mapsto> ?st)\<rparr>"
    by (simp add: s1_def trimmed_def s0_def queue_of_def)
  moreover have "unat (gen_next ?st) \<le> next_addr (trimmed w s0)" using sched_okD(5) [OF ok st] by (simp add: s0_def)
  moreover have "gen_live ?st \<noteq> {}" using live by auto
  ultimately have "sched_ok (trimmed w s1)" using sched_ok_set [OF er(1) o cl1] by simp
  moreover have "pending s1 = pending s - {e}" using er(2) by (simp add: s1_def)
  moreover have "inflight s1 = insert (?c, we_generation e) (inflight s)"
    using st by (auto simp: inflight_def s1_def s0_def split: if_splits)
  moreover have "next_addr s1 = next_addr s" by (simp add: s1_def s0_def)
  ultimately show thesis using that [OF step qs] by blast
qed

lemma take_loop_ok:
  assumes "sched_ok (trimmed w s)" "queue_of w s = q" "take_loop w now flush_all due s = (due', s')"
  defines "taken \<equiv> takeWhile (\<lambda>e. flush_all \<or> we_due e \<le> now) q"
  shows "sched_ok (trimmed w s') \<and> due' = due @ taken \<and> pending s' = pending s - set taken \<and>
    inflight s' = inflight s \<union> (\<lambda>e. (we_client e, we_generation e)) ` set taken \<and> next_addr s' = next_addr s"
  using assms(1-3) unfolding taken_def
proof (induction q arbitrary: s due)
  case Nil
  then show ?case by (simp add: take_loop.simps [of w now flush_all due s])
next
  case (Cons e q)
  have s: "trimmed w s = s" using Cons.prems(2) by (simp add: trimmed_def)
  show ?case
  proof (cases "flush_all \<or> we_due e \<le> now")
    case True
    obtain s1 where s1: "take_loop w now flush_all due s = take_loop w now flush_all (due @ [e]) s1"
      "queue_of w s1 = q" "sched_ok (trimmed w s1)" "pending s1 = pending s - {e}"
      "inflight s1 = insert (we_client e, we_generation e) (inflight s)" "next_addr s1 = next_addr s"
      using take_loop_step [OF Cons.prems(1) [unfolded s] Cons.prems(2) True] by metis
    have t: "takeWhile (\<lambda>e. flush_all \<or> we_due e \<le> now) (e # q) = e # takeWhile (\<lambda>e. flush_all \<or> we_due e \<le> now) q"
      using True by simp
    show ?thesis
      unfolding t using Cons.IH [OF s1(3,2) Cons.prems(3) [unfolded s1(1)]] s1(4-6) by auto
  next
    case False
    have "take_loop w now flush_all due s = (due, s)"
      using False Cons.prems(2) by (subst take_loop.simps) simp
    then show ?thesis using False Cons.prems by simp
  qed
qed

text \<open>Of a sorted queue, the loop takes all that is due.\<close>

lemma sorted_takeWhile_due:
  "sorted (map we_due q) \<Longrightarrow>
   takeWhile (\<lambda>e. flush_all \<or> we_due e \<le> now) q = filter (\<lambda>e. flush_all \<or> we_due e \<le> now) q"
proof (induction q)
  case (Cons e q)
  show ?case
  proof (cases "flush_all \<or> we_due e \<le> now")
    case False
    then have "\<forall>x\<in>set q. \<not> (flush_all \<or> we_due x \<le> now)" using Cons.prems by auto
    then show ?thesis using False by simp
  qed (use Cons in simp)
qed simp

lemma take_due_ok:
  fixes w
  assumes ok: "sched_ok s" and t: "take_due w now flush_all s = (due, s')"
  shows "sched_ok s'" "due = filter (\<lambda>e. flush_all \<or> we_due e \<le> now) (queue_of w s)"
    "pending s' = pending s - set due"
    "inflight s' = inflight s \<union> (\<lambda>e. (we_client e, we_generation e)) ` set due" "next_addr s' = next_addr s"
proof -
  note Q = sched_okD(1) [OF ok]
  have "sched_ok s' \<and> due = filter (\<lambda>e. flush_all \<or> we_due e \<le> now) (queue_of w s) \<and> pending s' = pending s - set due \<and>
    inflight s' = inflight s \<union> (\<lambda>e. (we_client e, we_generation e)) ` set due \<and> next_addr s' = next_addr s"
  proof (cases "queues s w")
    case None
    then have "due = []" "s' = s" using t by (simp_all add: take_due_def)
    moreover have "queue_of w s = []" using None by (simp add: queue_of_def)
    ultimately show ?thesis using ok by simp
  next
    case (Some q)
    obtain s1 where l: "take_loop w now flush_all [] s = (due, s1)" "s' = trimmed w s1"
      using t Some by (auto simp: take_due_def trimmed_def split: prod.splits)
    have "trimmed w s = s" using queues_okD(3) [OF Q, of w] Some by (simp add: trimmed_def queue_of_def)
    then show ?thesis
      using take_loop_ok [OF _ refl l(1)] ok sorted_takeWhile_due [OF queues_okD(1) [OF Q, of w]] l(2) by simp
  qed
  then show "sched_ok s'" "due = filter (\<lambda>e. flush_all \<or> we_due e \<le> now) (queue_of w s)"
    "pending s' = pending s - set due"
    "inflight s' = inflight s \<union> (\<lambda>e. (we_client e, we_generation e)) ` set due" "next_addr s' = next_addr s"
    by simp_all
qed

lemma generation_matches_iff:
  assumes "sched_ok s"
  shows "generation_matches c g s \<longleftrightarrow> (c, g) \<in> inflight s \<or> (\<exists>e\<in>pending s. we_client e = c \<and> we_generation e = g)"
proof (cases "generations s c")
  case None
  then show ?thesis using sched_okD(3) [OF assms None] by (auto simp: generation_matches_def inflight_def of_client_def)
next
  case (Some st)
  then show ?thesis using client_okD(5) [OF sched_okD(4) [OF assms Some]]
    by (auto simp: generation_matches_def inflight_def of_client_def)
qed

lemma empty_scheduler_ok: "sched_ok empty_scheduler" "pending empty_scheduler = {}" "inflight empty_scheduler = {}"
  by (simp_all add: empty_scheduler_def sched_ok_def queues_ok_def queue_of_def pending_def of_client_def inflight_def)



subsection \<open>The scheduler as a set of waiting and a set of running wills\<close>

text \<open>
  The contract: the wills that wait, and the pairs of client and number that are being published.
  A step relates these before, what is launched, and these after.
\<close>

type_synonym will_spec = "will_entry set \<times> (bytes \<times> u64) set"

definition running_of :: "will_entry \<Rightarrow> bytes \<times> u64" where
  "running_of e = (we_client e, we_generation e)"

fun spec_cancel :: "bytes \<Rightarrow> int \<Rightarrow> will_spec \<Rightarrow> will_spec" where
  "spec_cancel c now (waiting, running) = (waiting - {e. we_client e = c \<and> now < we_due e}, running)"

fun spec_expire :: "bytes \<Rightarrow> will_spec \<Rightarrow> will_spec" where
  "spec_expire c (waiting, running) =
     ((\<lambda>e. if we_client e = c then e\<lparr>we_due := time_min\<rparr> else e) ` waiting, running)"

fun spec_step :: "will_op \<Rightarrow> will_spec \<Rightarrow> will_entry list \<Rightarrow> will_spec \<Rightarrow> bool" where
  "spec_step (Schedule e) (waiting, running) out after \<longleftrightarrow> out = [] \<and>
     (if we_client e = [] then after = (waiting, running)
      else \<exists>g a. (we_client e, g) \<notin> running \<union> running_of ` waiting \<and> a \<notin> we_addr ` waiting \<and>
             after = (insert (e\<lparr>we_generation := g, we_addr := a\<rparr>) waiting, running))"
| "spec_step (Cancel c now) before out after \<longleftrightarrow> out = [] \<and> after = spec_cancel c now before"
| "spec_step (ExpireNow c) before out after \<longleftrightarrow> out = [] \<and> after = spec_expire c before"
| "spec_step (ObserveConnect c clean present now) before out after \<longleftrightarrow> out = [] \<and>
     after = (if clean \<or> \<not> present then spec_expire c before else spec_cancel c now before)"
| "spec_step (Complete c g) (waiting, running) out after \<longleftrightarrow> out = [] \<and>
     after = (waiting, if c = [] then running else running - {(c, g)})"
| "spec_step (LaunchDue spawn w now flush_all) (waiting, running) out after \<longleftrightarrow>
     sorted (map we_due out) \<and> distinct out \<and>
     set out = {e \<in> waiting. we_owner e = w \<and> (flush_all \<or> we_due e \<le> now) \<and> spawn e} \<and>
     after = ({e \<in> waiting. \<not> (we_owner e = w \<and> (flush_all \<or> we_due e \<le> now))}, running \<union> running_of ` set out)"

definition spec_of :: "will_scheduler \<Rightarrow> will_spec" where
  "spec_of s = (pending s, inflight s)"

lemma complete_fold_ok:
  fixes spawn es
  assumes "sched_ok s" "\<forall>e\<in>set es. we_client e \<noteq> []"
  defines "s' \<equiv> fold (\<lambda>e s. if spawn e then s else complete (we_client e) (we_generation e) s) es s"
  shows "sched_ok s' \<and> pending s' = pending s \<and> next_addr s' = next_addr s \<and>
     inflight s' = inflight s - running_of ` {e \<in> set es. \<not> spawn e}"
  using assms(1,2) unfolding s'_def
proof (induction es arbitrary: s)
  case (Cons e es)
  show ?case
  proof (cases "spawn e")
    case True
    then have "{x \<in> set (e # es). \<not> spawn x} = {x \<in> set es. \<not> spawn x}" by auto
    then show ?thesis using Cons True by simp
  next
    case False
    then have n: "{x \<in> set (e # es). \<not> spawn x} = insert e {x \<in> set es. \<not> spawn x}" by auto
    note C = complete_ok [OF Cons.prems(1), of "we_client e" "we_generation e"]
    show ?thesis using Cons.IH [OF C(1)] Cons.prems(2) C False unfolding n by (auto simp: running_of_def)
  qed
qed simp

lemma running_waiting:
  assumes "sched_ok s" "e \<in> pending s" "x \<in> pending s" "running_of e = running_of x" shows "e = x"
proof -
  have "e \<in> of_client (we_client e) s" "x \<in> of_client (we_client e) s"
    using assms by (simp_all add: of_client_def running_of_def)
  moreover from this obtain st where "generations s (we_client e) = Some st"
    using sched_okD(3) [OF assms(1), of "we_client e"] by fastforce
  ultimately show ?thesis
    using client_okD(3) [OF sched_okD(4) [OF assms(1)]] assms(4) by (auto simp: inj_on_def running_of_def)
qed

lemma waiting_not_running:
  assumes "sched_ok s" "e \<in> pending s" shows "running_of e \<notin> inflight s"
proof
  assume "running_of e \<in> inflight s"
  then obtain st where st: "generations s (we_client e) = Some st" "we_generation e \<in> gen_inflight st"
    by (auto simp: inflight_def running_of_def)
  then show False
    using client_okD(4) [OF sched_okD(4) [OF assms(1) st(1)]] assms(2) by (auto simp: of_client_def)
qed

lemma launch_due_ok:
  assumes ok: "sched_ok s" and l: "launch_due_wills spawn w now flush_all s = (launched, n, s')"
  shows "sched_ok s'" "next_addr s' = next_addr s"
    "spec_step (LaunchDue spawn w now flush_all) (spec_of s) launched (spec_of s')"
proof -
  obtain due s1 where t: "take_due w now flush_all s = (due, s1)" by fastforce
  note Q = sched_okD(1) [OF ok] and T = take_due_ok [OF ok t]
  have due: "set due = {e \<in> pending s. we_owner e = w \<and> (flush_all \<or> we_due e \<le> now)}"
    unfolding T(2) set_filter set_queue [OF Q] by auto
  have ne: "\<forall>e\<in>set due. we_client e \<noteq> []" using queues_okD(5) [OF Q] by (auto simp: due pending_def)
  have L: "launched = filter spawn due"
    "s' = fold (\<lambda>e s. if spawn e then s else complete (we_client e) (we_generation e) s) due s1"
    using l by (simp_all add: launch_due_wills_def t)
  have F: "sched_ok s'" "pending s' = pending s1" "next_addr s' = next_addr s1"
     "inflight s' = inflight s1 - running_of ` {e \<in> set due. \<not> spawn e}"
    using complete_fold_ok [OF T(1) ne] unfolding L(2) by simp_all
  show "sched_ok s'" "next_addr s' = next_addr s" using F T by simp_all
  let ?no = "{e \<in> set due. \<not> spawn e}"
  have "set due = set launched \<union> ?no" unfolding L(1) by auto
  then have "inflight s1 = inflight s \<union> running_of ` set launched \<union> running_of ` ?no"
    using T(4) unfolding running_of_def [abs_def] by blast
  moreover have "running_of ` set launched \<inter> running_of ` ?no = {}"
    using running_waiting [OF ok] unfolding L(1) set_filter due by blast
  moreover have "inflight s \<inter> running_of ` ?no = {}"
    using waiting_not_running [OF ok] unfolding due by blast
  ultimately have i: "inflight s' = inflight s \<union> running_of ` set launched" unfolding F(4) by blast
  have "sorted (map we_due launched)" "distinct launched"
    using queues_okD(1,2) [OF Q, of w] unfolding L(1) T(2) by (simp_all add: sorted_filter_due)
  moreover have "set launched = {e \<in> pending s. we_owner e = w \<and> (flush_all \<or> we_due e \<le> now) \<and> spawn e}"
    unfolding L(1) set_filter due by auto
  moreover have "pending s' = {e \<in> pending s. \<not> (we_owner e = w \<and> (flush_all \<or> we_due e \<le> now))}"
    unfolding F(2) T(3) due by auto
  ultimately show "spec_step (LaunchDue spawn w now flush_all) (spec_of s) launched (spec_of s')"
    using i by (simp add: spec_of_def)
qed


lemma cancel_ok:
  assumes ok: "sched_ok s"
  shows "sched_ok (cancel_wills c now s)" "next_addr (cancel_wills c now s) = next_addr s"
    "spec_of (cancel_wills c now s) = spec_cancel c now (spec_of s)"
proof -
  have "pending s - {e. we_client e = [] \<and> now < we_due e} = pending s"
    using queues_okD(5) [OF sched_okD(1) [OF ok]] by (auto simp: pending_def)
  then show "sched_ok (cancel_wills c now s)" "next_addr (cancel_wills c now s) = next_addr s"
    "spec_of (cancel_wills c now s) = spec_cancel c now (spec_of s)"
    using suppress_pending_ok [OF ok, of c now] ok by (auto simp: cancel_wills_def spec_of_def)
qed

lemma expire_ok:
  assumes "sched_ok s" shows "spec_of (expire_now c s) = spec_expire c (spec_of s)"
  using expire_now_ok(2,3) [OF assms] by (simp add: spec_of_def)

lemma schedule_spec:
  assumes ok: "sched_ok s" and b: "next_addr s < 2 ^ 64 - 1"
  shows "sched_ok (schedule e s)" "next_addr (schedule e s) \<le> Suc (next_addr s)"
    "spec_step (Schedule e) (spec_of s) [] (spec_of (schedule e s))"
proof -
  have "sched_ok (schedule e s) \<and> next_addr (schedule e s) \<le> Suc (next_addr s) \<and>
    spec_step (Schedule e) (spec_of s) [] (spec_of (schedule e s))"
  proof (cases "we_client e = []")
    case True
    then show ?thesis using ok by (simp add: schedule_def spec_of_def)
  next
    case False
    note S = schedule_ok [OF ok False b]
    let ?g = "we_generation (numbered e s)" and ?a = "next_addr s"
    have "(we_client e, ?g) \<notin> inflight s \<union> running_of ` pending s"
      using S(6) unfolding generation_matches_iff [OF ok] by (auto simp: running_of_def)
    moreover have "?a \<notin> we_addr ` pending s"
      using queues_okD(6) [OF sched_okD(1) [OF ok]] by (force simp: pending_def)
    moreover have "numbered e s = e\<lparr>we_generation := ?g, we_addr := ?a\<rparr>" by (simp add: numbered_def)
    ultimately show ?thesis using S(1-4) False unfolding spec_of_def spec_step.simps by auto
  qed
  then show "sched_ok (schedule e s)" "next_addr (schedule e s) \<le> Suc (next_addr s)"
    "spec_step (Schedule e) (spec_of s) [] (spec_of (schedule e s))" by simp_all
qed


text \<open>Every operation is the step of the contract, as long as fewer than \<open>2 ^ 64 - 1\<close> wills were scheduled.\<close>

lemma run_op_ok:
  assumes ok: "sched_ok s" and b: "next_addr s < 2 ^ 64 - 1" and r: "run_op op s = (out, s')"
  shows "sched_ok s' \<and> next_addr s' \<le> Suc (next_addr s) \<and> spec_step op (spec_of s) out (spec_of s')"
proof (cases op)
  case (Schedule e)
  then show ?thesis using schedule_spec [OF ok b, of e] r by simp
next
  case (Cancel c now)
  then show ?thesis using cancel_ok [OF ok, of c now] r by simp
next
  case (ExpireNow c)
  then show ?thesis using expire_now_ok(1,4) [OF ok, of c] expire_ok [OF ok, of c] r by simp
next
  case (ObserveConnect c clean present now)
  then show ?thesis
    using cancel_ok [OF ok, of c now] expire_now_ok(1,4) [OF ok, of c] expire_ok [OF ok, of c] r
    by (auto simp: will_observe_connect_def split: if_splits)
next
  case (Complete c g)
  have "complete [] g s = s" by (simp add: complete_def)
  then show ?thesis using complete_ok [OF ok, of c g] Complete r by (cases "c = []") (simp_all add: spec_of_def)
next
  case (LaunchDue spawn w now flush_all)
  obtain n where l: "launch_due_wills spawn w now flush_all s = (out, n, s')"
    using r LaunchDue by (auto split: prod.splits)
  show ?thesis using launch_due_ok [OF ok l] unfolding LaunchDue by simp
qed

lemma run_ops_ok:
  assumes "sched_ok s" "next_addr s + length ops < 2 ^ 64"
  shows "sched_ok (run_ops ops s) \<and> next_addr (run_ops ops s) \<le> next_addr s + length ops"
  using assms
proof (induction ops arbitrary: s)
  case Nil
  then show ?case by (simp add: run_ops_def)
next
  case (Cons op ops)
  have R: "sched_ok (snd (run_op op s))" "next_addr (snd (run_op op s)) \<le> Suc (next_addr s)"
    using run_op_ok [OF Cons.prems(1), of op] Cons.prems(2) by (cases "run_op op s", simp)+
  then show ?case using Cons.IH [OF R(1)] Cons.prems(2) by (simp add: run_ops_def)
qed

lemma reachable_ok:
  assumes "length ops < 2 ^ 64 - 1"
  shows "sched_ok (run_ops ops empty_scheduler)" "next_addr (run_ops ops empty_scheduler) < 2 ^ 64 - 1"
  using run_ops_ok [OF empty_scheduler_ok(1), of ops] assms by (simp_all add: empty_scheduler_def)

text \<open>
  C8. The will scheduler keeps its contract.  After any sequence of operations (fewer than
  \<open>2 ^ 64 - 1\<close>, so that the numbers of a client do not wrap), the next operation does exactly this to
  the set of waiting wills and the set of wills being published: scheduling adds the will under
  a number that no waiting or running will of the client has; a reconnection to the same session drops exactly
  the client's wills that are not yet due; the end of the session makes all of them due and loses
  none; a thread launches exactly its own wills that are due, in the order of their due times,
  each one once, and keeps the others; and a number is current as long as its will waits or is
  being published.
\<close>

theorem will_scheduler_refines:
  assumes "length ops < 2 ^ 64 - 1"
  defines "s \<equiv> run_ops ops empty_scheduler"
  shows "\<exists>out s'. run_op op s = (out, s') \<and> spec_step op (spec_of s) out (spec_of s') \<and>
    (\<forall>c g. generation_matches c g s' \<longleftrightarrow> (c, g) \<in> snd (spec_of s') \<union> running_of ` fst (spec_of s'))"
proof -
  obtain out s' where r: "run_op op s = (out, s')" by fastforce
  note R = run_op_ok [OF reachable_ok [OF assms(1), folded s_def] r]
  then have "generation_matches c g s' \<longleftrightarrow> (c, g) \<in> snd (spec_of s') \<union> running_of ` fst (spec_of s')" for c g
    using generation_matches_iff [of s' c g] by (auto simp: spec_of_def running_of_def)
  then show ?thesis using r R by blast
qed

definition example_will :: will_entry where
  "example_will =
     \<lparr>we_client = [0x63], we_forward = [0x63], we_generation = 0, we_due = 7, we_owner = 0,
      we_body = \<lparr>wb_topic = [0x74], wb_payload = [], wb_qos = 0, wb_retain = False, delay_seconds = 0,
        payload_format = 0, has_message_expiry = False, message_expiry = 0, wb_content_type = [],
        wb_response_topic = [], wb_correlation_data = [], wb_user_properties = []\<rparr>,
      we_auth = None, we_addr = 0\<rparr>"

theorem will_scheduler_refines_witness:
  "length [Schedule example_will] < 2 ^ 64 - 1 \<and>
   (\<exists>out s'. run_op (LaunchDue (\<lambda>_. True) 0 8 False) (run_ops [Schedule example_will] empty_scheduler) = (out, s') \<and>
      spec_step (LaunchDue (\<lambda>_. True) 0 8 False) (spec_of (run_ops [Schedule example_will] empty_scheduler)) out (spec_of s'))"
  using will_scheduler_refines [of "[Schedule example_will]" "LaunchDue (\<lambda>_. True) 0 8 False"] by auto

text \<open>Only completing a will ends its being published.\<close>

lemma running_stays:
  assumes "spec_step op before out after" "(c, g) \<in> snd before" "op \<noteq> Complete c g"
  shows "(c, g) \<in> snd after"
proof -
  obtain waiting running where b: "before = (waiting, running)" by fastforce
  show ?thesis using assms unfolding b by (cases op) (auto split: if_splits)
qed

lemma running_current:
  assumes "sched_ok (S 0)" "(c, g) \<in> inflight (S 0)" "next_addr (S 0) + n < 2 ^ 64"
    "\<And>i. i < n \<Longrightarrow> \<exists>op. S (Suc i) = snd (run_op op (S i)) \<and> op \<noteq> Complete c g" "i \<le> n"
  shows "sched_ok (S i) \<and> (c, g) \<in> inflight (S i) \<and> next_addr (S i) \<le> next_addr (S 0) + i"
  using assms(5)
proof (induction i)
  case (Suc i)
  then have IH: "sched_ok (S i)" "(c, g) \<in> inflight (S i)" "next_addr (S i) \<le> next_addr (S 0) + i" by simp_all
  obtain op where op: "S (Suc i) = snd (run_op op (S i))" "op \<noteq> Complete c g" using assms(4) [of i] Suc.prems by auto
  obtain out where r: "run_op op (S i) = (out, S (Suc i))" using op(1) by (cases "run_op op (S i)") auto
  have "next_addr (S i) < 2 ^ 64 - 1" using IH(3) assms(3) Suc.prems by linarith
  note R = run_op_ok [OF IH(1) this r]
  have "(c, g) \<in> snd (spec_of (S i))" using IH(2) by (simp add: spec_of_def)
  from running_stays [OF _ this op(2)] R have "(c, g) \<in> snd (spec_of (S (Suc i)))" by blast
  then show ?case using R IH(3) by (simp add: spec_of_def)
qed (use assms(1,2) in simp)

lemma await_decision_decides:
  assumes "\<forall>i\<le>n. still_current env i" "\<not> before_deadline env n" "i \<le> n"
  shows "\<exists>r' j. await_decision env i r = Some (Some r', j) \<and> j \<le> n \<and> (r' = r \<or> r' \<in> range (poll env))"
  using assms(3)
proof (induction "n - i" arbitrary: i r)
  case 0
  then show ?case using assms(2) by (subst await_decision.simps) simp
next
  case (Suc k)
  show ?case
  proof (cases "r = AUTH_PENDING \<and> before_deadline env i")
    case True
    then have "i < n" "still_current env i" using assms Suc by auto
    moreover have "k = n - Suc i" using Suc(2) by simp
    ultimately obtain r' j where "await_decision env (Suc i) (poll env i) = Some (Some r', j)" "j \<le> n"
      "r' = poll env i \<or> r' \<in> range (poll env)"
      using Suc(1) [of "Suc i" "poll env i"] by auto
    then show ?thesis using True \<open>still_current env i\<close> by (subst await_decision.simps) auto
  next
    case False
    then show ?thesis using Suc.prems by (subst await_decision.simps) auto
  qed
qed



definition example_env :: "(nat \<Rightarrow> will_scheduler) \<Rightarrow> will_env" where
  "example_env S = \<lparr>still_current = \<lambda>i. generation_matches [0x63] 1 (S i), before_deadline = \<lambda>i. i < 1,
     poll = \<lambda>_. AUTH_PENDING, forward_publish_via_router = \<lambda>_ _ _. 3\<rparr>"

definition launched_example :: will_scheduler where
  "launched_example = run_ops [Schedule example_will, LaunchDue (\<lambda>_. True) 0 8 False] empty_scheduler"

definition example_run :: "nat \<Rightarrow> will_scheduler" where
  "example_run i = (if i = 0 then launched_example else snd (run_op (Cancel [0x63] 0) launched_example))"

lemma launched_example_inflight: "([0x63], 1) \<in> inflight launched_example"
proof -
  have "case generations launched_example [0x63] of None \<Rightarrow> False | Some st \<Rightarrow> 1 \<in> gen_inflight st" by code_simp
  then show ?thesis by (auto simp: inflight_def split: option.splits)
qed


end
