(* ===== verification/Spec2Isabelle.thy ===== *)
theory Spec2Isabelle
  imports Mqtt_Roundtrip Mqtt_Safety Flow_Control Connection Cow_Cell Log_Recovery Retain_Lemmas WebSocket_Frame Will_Scheduler
begin

text \<open>
  A model of the \<^verbatim>\<open>mqtts\<close> broker.

  Plan of the theories, bottom up: \<^verbatim>\<open>Prelude\<close> (early return, words and bytes),
  \<^verbatim>\<open>Mqtt_Base\<close> (return codes, memory reads), then the buffer, strings, properties,
  parser and serializer of the protocol codec, the flow-control and connection helpers,
  the topic tree, the record codec, the append log, the retain store and the WebSocket
  frame codec.
\<close>

end
